(* ===== verification/Prelude.thy ===== *)
theory Prelude
  imports Main "HOL-Library.Word" "HOL-Library.Signed_Division" "HOL-Library.Finite_Map"
begin

text \<open>
  Shared vocabulary of the driver models: the outcome of a C computation that may hit
  undefined behaviour, the widths of C's integer types with their wrap-around written out,
  truncating division, byte-array access (\<open>memcpy\<close>/\<open>memset\<close> on a block of known length), the
  error numbers the drivers return, and the generic lemmas the component theories rest on.
\<close>

section \<open>Types shared by all components\<close>

type_synonym byte = "8 word"
type_synonym addr = nat  \<comment> \<open>a kernel address; \<open>NULL\<close> is 0\<close>

abbreviation (input) NULL :: addr where "NULL \<equiv> 0"

text \<open>
  What a C statement may run into. The handlers of the drivers return error numbers as
  ordinary values; a \<open>fault\<close> is undefined behaviour: no value of the C program describes it.
\<close>

datatype fault =
    Div_by_zero
  | Null_deref
  | Bad_access      \<comment> \<open>out of bounds, or memory that is not allocated\<close>
  | Bad_free        \<comment> \<open>freed twice, or by an allocator the block does not come from\<close>

type_synonym 'a res = "fault + 'a"

definition bindE :: "'a res \<Rightarrow> ('a \<Rightarrow> 'b res) \<Rightarrow> 'b res" where
  "bindE m f = (case m of Inl e \<Rightarrow> Inl e | Inr x \<Rightarrow> f x)"

named_theorems c_arith \<open>C integer arithmetic in range\<close>
named_theorems bytes_simps \<open>byte blocks: slices and overwriting\<close>

section \<open>Sequencing\<close>

lemma bindE_simps [simp]:
  "bindE (Inl e) f = Inl e"
  "bindE (Inr x) f = f x"
  by (simp_all add: bindE_def)

lemma bindE_eq_Inr [simp]: "bindE m f = Inr y \<longleftrightarrow> (\<exists>x. m = Inr x \<and> f x = Inr y)"
  by (cases m) simp_all

lemma bindE_eq_Inl: "bindE m f = Inl e \<longleftrightarrow> m = Inl e \<or> (\<exists>x. m = Inr x \<and> f x = Inl e)"
  by (cases m) simp_all

lemma bindE_cong [fundef_cong]:
  "m = m' \<Longrightarrow> (\<And>x. m' = Inr x \<Longrightarrow> f x = f' x) \<Longrightarrow> bindE m f = bindE m' f'"
  by (cases m') simp_all

lemma bindE_assoc: "bindE (bindE m f) g = bindE m (\<lambda>x. bindE (f x) g)"
  by (cases m) simp_all

section \<open>Integer widths\<close>

text \<open>
  The kernel is built with \<^verbatim>\<open>-fno-strict-overflow\<close>, so signed overflow wraps as the
  unsigned one does. \<open>s32\<close> is a store into an \<^verbatim>\<open>int\<close>, \<open>s64\<close> into a
  \<^verbatim>\<open>long\<close>, \<^verbatim>\<open>ssize_t\<close> or \<^verbatim>\<open>loff_t\<close>, \<open>u64\<close> the
  conversion to \<^verbatim>\<open>size_t\<close> or \<^verbatim>\<open>unsigned long\<close>.
\<close>

definition s32 :: "int \<Rightarrow> int" where
  "s32 x = (x + 2 ^ 31) mod 2 ^ 32 - 2 ^ 31"

definition s64 :: "int \<Rightarrow> int" where
  "s64 x = (x + 2 ^ 63) mod 2 ^ 64 - 2 ^ 63"

definition u64 :: "int \<Rightarrow> nat" where
  "u64 x = nat (x mod 2 ^ 64)"

lemma s32_id [c_arith]: "- (2 ^ 31) \<le> x \<Longrightarrow> x < 2 ^ 31 \<Longrightarrow> s32 x = x"
  by (simp add: s32_def mod_pos_pos_trivial)

lemma s64_id [c_arith]: "- (2 ^ 63) \<le> x \<Longrightarrow> x < 2 ^ 63 \<Longrightarrow> s64 x = x"
  by (simp add: s64_def mod_pos_pos_trivial)

lemma u64_id [c_arith]: "0 \<le> x \<Longrightarrow> x < 2 ^ 64 \<Longrightarrow> u64 x = nat x"
  by (simp add: u64_def mod_pos_pos_trivial)

lemma s32_range: "- (2 ^ 31) \<le> s32 x \<and> s32 x < 2 ^ 31"
proof -
  have "0 \<le> (x + 2 ^ 31) mod 2 ^ 32" "(x + 2 ^ 31) mod 2 ^ 32 < 2 ^ 32"
    by simp_all
  then show ?thesis by (simp add: s32_def)
qed

lemma s32_0 [simp]: "s32 0 = 0"
  by (simp add: s32_def)

text \<open>Signed readings of 64-bit words.\<close>

lemma signed_64: "sint w = s64 (uint w)" for w :: "64 word"
  by (simp add: sint_uint s64_def signed_take_bit_eq_take_bit_shift take_bit_eq_mod)

lemma signed_64_of_int: "sint (word_of_int x :: 64 word) = s64 x"
  by (simp add: signed_of_int s64_def signed_take_bit_eq_take_bit_shift take_bit_eq_mod)

lemma signed_add_64: "sint (a + b) = s64 (sint a + sint b)" for a b :: "64 word"
proof -
  have "a + b = word_of_int (sint a + sint b)" by simp
  then show ?thesis by (metis signed_64_of_int)
qed

lemma signed_64_range: "- (2 ^ 63) \<le> sint w \<and> sint w < 2 ^ 63" for w :: "64 word"
proof -
  have "0 \<le> (uint w + 2 ^ 63) mod 2 ^ 64" "(uint w + 2 ^ 63) mod 2 ^ 64 < 2 ^ 64" by simp_all
  then show ?thesis by (simp add: signed_64 s64_def)
qed

text \<open>C division truncates towards zero and is undefined for a zero divisor.\<close>

definition cdiv :: "int \<Rightarrow> int \<Rightarrow> int res" where
  "cdiv a b = (if b = 0 then Inl Div_by_zero else Inr (a sdiv b))"

definition cmod :: "int \<Rightarrow> int \<Rightarrow> int res" where
  "cmod a b = (if b = 0 then Inl Div_by_zero else Inr (a smod b))"

lemma cdiv_pos [c_arith]: "0 \<le> a \<Longrightarrow> 0 < b \<Longrightarrow> cdiv a b = Inr (a div b)"
  by (cases "a = 0") (simp_all add: cdiv_def signed_divide_int_def)

lemma cmod_pos [c_arith]: "0 \<le> a \<Longrightarrow> 0 < b \<Longrightarrow> cmod a b = Inr (a mod b)"
  by (simp add: cmod_def smod_mod_positive)

lemma cdiv_nat: "0 < b \<Longrightarrow> cdiv (int m) b = Inr (int (m div nat b))"
  by (simp add: cdiv_pos zdiv_int)

lemma cmod_nat: "0 < b \<Longrightarrow> cmod (int m) b = Inr (int (m mod nat b))"
  by (simp add: cmod_pos zmod_int)

lemma cdiv_zero [simp]: "cdiv a 0 = Inl Div_by_zero"
  by (simp add: cdiv_def)

section \<open>Byte blocks\<close>

text \<open>
  A block of memory is the list of its bytes. \<open>peek\<close> and \<open>poke\<close> are the reads and
  stores of \<open>n\<close> bytes at an offset; outside the block they are faults.
\<close>

definition peek :: "byte list \<Rightarrow> int \<Rightarrow> nat \<Rightarrow> byte list res" where
  "peek bs off n =
     (if 0 \<le> off \<and> nat off + n \<le> length bs then Inr (take n (drop (nat off) bs))
      else Inl Bad_access)"

definition overwrite :: "byte list \<Rightarrow> nat \<Rightarrow> byte list \<Rightarrow> byte list" where
  "overwrite bs off new = take off bs @ new @ drop (off + length new) bs"

definition poke :: "byte list \<Rightarrow> int \<Rightarrow> byte list \<Rightarrow> byte list res" where
  "poke bs off new =
     (if 0 \<le> off \<and> nat off + length new \<le> length bs then Inr (overwrite bs (nat off) new)
      else Inl Bad_access)"

lemma length_overwrite [simp]: "off + length new \<le> length bs \<Longrightarrow> length (overwrite bs off new) = length bs"
  by (simp add: overwrite_def)

lemma nth_overwrite [bytes_simps]:
  assumes "off + length new \<le> length bs" and "i < length bs"
  shows "overwrite bs off new ! i =
    (if off \<le> i \<and> i < off + length new then new ! (i - off) else bs ! i)"
  using assms by (auto simp: overwrite_def nth_append min_def)

lemma overwrite_slice [bytes_simps]:
  "off + length new \<le> length bs \<Longrightarrow> take (length new) (drop off (overwrite bs off new)) = new"
  by (simp add: overwrite_def)

lemma overwrite_Nil [simp]: "overwrite bs off [] = bs"
  by (simp add: overwrite_def)

section \<open>Error numbers\<close>

abbreviation (input) EPERM :: int where "EPERM \<equiv> 1"
abbreviation (input) EINTR :: int where "EINTR \<equiv> 4"
abbreviation (input) EAGAIN :: int where "EAGAIN \<equiv> 11"
abbreviation (input) ENOMEM :: int where "ENOMEM \<equiv> 12"
abbreviation (input) EFAULT :: int where "EFAULT \<equiv> 14"
abbreviation (input) EBUSY :: int where "EBUSY \<equiv> 16"
abbreviation (input) EINVAL :: int where "EINVAL \<equiv> 22"
abbreviation (input) ENOTTY :: int where "ENOTTY \<equiv> 25"
abbreviation (input) ERESTARTSYS :: int where "ERESTARTSYS \<equiv> 512"

section \<open>Maps and lists\<close>

lemma fmupd_same: "fmlookup m a = Some v \<Longrightarrow> fmupd a v m = m"
  by (rule fmap_ext) auto

lemma mult_add_less: "a < (m::nat) \<Longrightarrow> b < n \<Longrightarrow> a * n + b < m * n"
proof -
  assume "a < m" "b < n"
  then have "Suc a * n \<le> m * n" by (intro mult_le_mono1) simp
  with \<open>b < n\<close> show ?thesis by simp
qed

lemma distinct_filter_nth:
  "distinct (filter P xs) \<Longrightarrow> s < length xs \<Longrightarrow> t < length xs \<Longrightarrow> xs ! s = xs ! t \<Longrightarrow> P (xs ! s) \<Longrightarrow> s = t"
proof (induction xs arbitrary: s t)
  case (Cons x xs)
  show ?case
  proof (cases s; cases t)
    fix s' t' assume "s = Suc s'" "t = Suc t'"
    with Cons.prems Cons.IH [of s' t'] show ?thesis by (simp split: if_splits)
  qed (use Cons.prems in \<open>auto split: if_splits\<close>)
qed simp

lemma distinct_concat_nth:
  "distinct (filter P (concat xss)) \<Longrightarrow> i < length xss \<Longrightarrow> j < length xss \<Longrightarrow>
   s < length (xss ! i) \<Longrightarrow> t < length (xss ! j) \<Longrightarrow> xss ! i ! s = xss ! j ! t \<Longrightarrow> P (xss ! i ! s) \<Longrightarrow>
   i = j \<and> s = t"
proof (induction xss arbitrary: i j)
  case (Cons xs xss)
  have rest: "xss ! m ! r \<in> set (concat xss)" if "m < length xss" "r < length (xss ! m)" for m r
    using that by (metis UN_I nth_mem set_concat)
  from Cons.prems(1) have d: "distinct (filter P xs)" "distinct (filter P (concat xss))"
    "\<And>a. a \<in> set xs \<Longrightarrow> P a \<Longrightarrow> a \<notin> set (concat xss)"
    by auto
  show ?case
  proof (cases i; cases j)
    assume "i = 0" "j = 0"
    with Cons.prems d distinct_filter_nth [of P xs s t] show ?thesis by simp
  next
    fix j' assume "i = 0" "j = Suc j'"
    with Cons.prems d(3) [of "xs ! s"] rest [of j' t] nth_mem [of s xs] show ?thesis by simp
  next
    fix i' assume "i = Suc i'" "j = 0"
    with Cons.prems d(3) [of "xs ! t"] rest [of i' s] nth_mem [of t xs] show ?thesis by simp
  next
    fix i' j' assume "i = Suc i'" "j = Suc j'"
    with Cons.prems d(2) Cons.IH [of i' j'] show ?thesis by simp
  qed
qed simp

end
