(* ===== verification/Kernel.thy ===== *)
theory Kernel
  imports Prelude
begin

text \<open>
  The kernel as the drivers see it. Its code is not part of this repository, so every service
  the drivers call is a parameter: a \<open>kernel\<close> record of functions whose results the
  handlers branch on, with the documented behaviour the drivers rely on collected in
  \<open>kernel_ok\<close>. What the drivers themselves own is the memory they allocate: a heap of
  three kinds of blocks (list nodes, pointer arrays, and data blocks, which are also buffers and list items), each of which is either
  allocated or not, so that a dereference of freed memory, an index outside an array and a
  second free are all visible as faults.
\<close>

section \<open>Driver-owned memory\<close>

record scull_qset =
  qs_data :: addr   \<comment> \<open>\<^verbatim>\<open>void** data\<close>\<close>
  qs_next :: addr   \<comment> \<open>\<^verbatim>\<open>struct scull_qset* next\<close>\<close>

text \<open>Which allocator a data block came from: it has to go back to the same one.\<close>

datatype allocator = By_kmalloc | By_cache | By_pages nat

record heap =
  hp_qset :: "(addr, scull_qset) fmap"
  hp_ptrs :: "(addr, addr list) fmap"
  hp_blk  :: "(addr, allocator \<times> byte list) fmap"

definition empty_heap :: heap where
  "empty_heap = \<lparr>hp_qset = fmempty, hp_ptrs = fmempty, hp_blk = fmempty\<rparr>"

definition allocated :: "heap \<Rightarrow> addr set" where
  "allocated h = fmdom' (hp_qset h) \<union> fmdom' (hp_ptrs h) \<union> fmdom' (hp_blk h)"

subsection \<open>Loads and stores\<close>

definition load :: "(addr, 'a) fmap \<Rightarrow> addr \<Rightarrow> 'a res" where
  "load m p = (if p = NULL then Inl Null_deref
               else case fmlookup m p of None \<Rightarrow> Inl Bad_access | Some x \<Rightarrow> Inr x)"

definition get_qset :: "heap \<Rightarrow> addr \<Rightarrow> scull_qset res" where
  "get_qset h p = load (hp_qset h) p"

definition put_qset :: "heap \<Rightarrow> addr \<Rightarrow> scull_qset \<Rightarrow> heap" where
  "put_qset h p q = h\<lparr>hp_qset := fmupd p q (hp_qset h)\<rparr>"

definition get_ptr :: "heap \<Rightarrow> addr \<Rightarrow> int \<Rightarrow> addr res" where
  "get_ptr h p i = bindE (load (hp_ptrs h) p)
     (\<lambda>ps. if 0 \<le> i \<and> nat i < length ps then Inr (ps ! nat i) else Inl Bad_access)"

definition set_ptr :: "heap \<Rightarrow> addr \<Rightarrow> int \<Rightarrow> addr \<Rightarrow> heap res" where
  "set_ptr h p i v = bindE (load (hp_ptrs h) p)
     (\<lambda>ps. if 0 \<le> i \<and> nat i < length ps
           then Inr (h\<lparr>hp_ptrs := fmupd p (ps[nat i := v]) (hp_ptrs h)\<rparr>)
           else Inl Bad_access)"

definition read_blk :: "heap \<Rightarrow> addr \<Rightarrow> int \<Rightarrow> nat \<Rightarrow> byte list res" where
  "read_blk h p off n = bindE (load (hp_blk h) p) (\<lambda>(al, bs). peek bs off n)"

definition write_blk :: "heap \<Rightarrow> addr \<Rightarrow> int \<Rightarrow> byte list \<Rightarrow> heap res" where
  "write_blk h p off new = bindE (load (hp_blk h) p)
     (\<lambda>(al, bs). bindE (poke bs off new)
        (\<lambda>bs'. Inr (h\<lparr>hp_blk := fmupd p (al, bs') (hp_blk h)\<rparr>)))"

subsection \<open>Freeing\<close>

text \<open>\<open>kfree(NULL)\<close> does nothing; freeing what is not allocated is a fault.\<close>

definition kfree_qset :: "heap \<Rightarrow> addr \<Rightarrow> heap res" where
  "kfree_qset h p =
     (if p = NULL then Inr h
      else if fmlookup (hp_qset h) p = None then Inl Bad_free
      else Inr (h\<lparr>hp_qset := fmdrop p (hp_qset h)\<rparr>))"

definition kfree_ptrs :: "heap \<Rightarrow> addr \<Rightarrow> heap res" where
  "kfree_ptrs h p =
     (if p = NULL then Inr h
      else if fmlookup (hp_ptrs h) p = None then Inl Bad_free
      else Inr (h\<lparr>hp_ptrs := fmdrop p (hp_ptrs h)\<rparr>))"

definition free_blk :: "allocator \<Rightarrow> heap \<Rightarrow> addr \<Rightarrow> heap res" where
  "free_blk al h p =
     (if p = NULL then Inr h
      else case fmlookup (hp_blk h) p of
             None \<Rightarrow> Inl Bad_free
           | Some (al', bs) \<Rightarrow>
               if al' = al then Inr (h\<lparr>hp_blk := fmdrop p (hp_blk h)\<rparr>) else Inl Bad_free)"

section \<open>Kernel services\<close>

text \<open>
  \<open>kmalloc k h n\<close> is the address returned for \<open>n\<close> bytes while the drivers own the
  blocks of \<open>h\<close> (\<open>NULL\<close> when the kernel is out of memory); \<open>uninit\<close> is what a fresh
  block holds before it is written. \<open>copy_from_user k u n\<close> is the number of bytes that could
  not be copied and the \<open>n\<close> bytes that are in the destination afterwards, for a user buffer
  whose readable part is \<open>u\<close>; \<open>listitem_size\<close> is the size of a list item of
  \<^verbatim>\<open>access.c\<close>, which has structures of the kernel in it; \<open>copy_to_user k bs\<close> is the number of bytes of \<open>bs\<close> that
  could not be stored at the user's address.
\<close>

record kernel =
  kmalloc :: "heap \<Rightarrow> nat \<Rightarrow> addr"
  kmem_cache_alloc :: "heap \<Rightarrow> addr"
  get_free_pages :: "heap \<Rightarrow> nat \<Rightarrow> addr"
  uninit :: "nat \<Rightarrow> byte list"
  page_size :: nat
  listitem_size :: nat
  copy_from_user :: "byte list \<Rightarrow> nat \<Rightarrow> nat \<times> byte list"
  copy_to_user :: "byte list \<Rightarrow> nat"

definition kernel_ok :: "kernel \<Rightarrow> bool" where
  "kernel_ok k \<longleftrightarrow>
     (\<forall>h n. kmalloc k h n \<noteq> NULL \<longrightarrow> kmalloc k h n \<notin> allocated h) \<and>
     (\<forall>h. kmem_cache_alloc k h \<noteq> NULL \<longrightarrow> kmem_cache_alloc k h \<notin> allocated h) \<and>
     (\<forall>h n. get_free_pages k h n \<noteq> NULL \<longrightarrow> get_free_pages k h n \<notin> allocated h) \<and>
     (\<forall>n. length (uninit k n) = n) \<and>
     (\<forall>u n. length (snd (copy_from_user k u n)) = n \<and>
            (fst (copy_from_user k u n) = 0 \<longrightarrow> snd (copy_from_user k u n) = take n u))"

definition alloc_qset :: "kernel \<Rightarrow> heap \<Rightarrow> addr \<times> heap" where
  \<comment> \<open>\<open>kmalloc(sizeof(struct scull_qset))\<close> followed by the \<open>memset\<close> to 0\<close>
  "alloc_qset k h =
     (let p = kmalloc k h 16
      in if p = NULL then (NULL, h)
         else (p, put_qset h p \<lparr>qs_data = NULL, qs_next = NULL\<rparr>))"

definition alloc_ptrs :: "kernel \<Rightarrow> heap \<Rightarrow> int \<Rightarrow> addr \<times> heap" where
  \<comment> \<open>\<open>kmalloc(sizeof(char*) * n)\<close> followed by the \<open>memset\<close> to 0\<close>
  "alloc_ptrs k h n =
     (let p = kmalloc k h (u64 (8 * n))
      in if p = NULL then (NULL, h)
         else (p, h\<lparr>hp_ptrs := fmupd p (replicate (u64 (8 * n) div 8) NULL) (hp_ptrs h)\<rparr>))"

definition new_blk :: "kernel \<Rightarrow> allocator \<Rightarrow> nat \<Rightarrow> addr \<Rightarrow> heap \<Rightarrow> addr \<times> heap" where
  "new_blk k al n p h =
     (if p = NULL then (NULL, h)
      else (p, h\<lparr>hp_blk := fmupd p (al, uninit k n) (hp_blk h)\<rparr>))"

text \<open>A flag of \<^verbatim>\<open>open(2)\<close> that several drivers test.\<close>

definition O_NONBLOCK :: "32 word" where "O_NONBLOCK = 0x800"

text \<open>Circumstances in which calls succeed: there is memory, and the buffers of the users are mapped.\<close>

definition plenty :: "kernel \<Rightarrow> bool" where
  "plenty k \<longleftrightarrow> (\<forall>h n. kmalloc k h n \<noteq> NULL \<and> kmem_cache_alloc k h \<noteq> NULL \<and> get_free_pages k h n \<noteq> NULL)"

definition user_ok :: "kernel \<Rightarrow> bool" where
  "user_ok k \<longleftrightarrow> (\<forall>u n. n \<le> length u \<longrightarrow> fst (copy_from_user k u n) = 0) \<and> (\<forall>bs. copy_to_user k bs = 0)"

section \<open>A concrete kernel\<close>

text \<open>
  An instance that meets the contract: it hands out the address above every allocated one,
  copies whatever the user buffer holds and pads the rest with zeros.
\<close>

definition next_addr :: "heap \<Rightarrow> addr" where
  "next_addr h = Suc (Max (insert 0 (allocated h)))"

definition simple_kernel :: kernel where
  "simple_kernel =
     \<lparr>kmalloc = (\<lambda>h n. next_addr h), kmem_cache_alloc = next_addr,
      get_free_pages = (\<lambda>h n. next_addr h), uninit = (\<lambda>n. replicate n 0xaa),
      page_size = 4096, listitem_size = 160,
      copy_from_user = (\<lambda>u n. (n - length u, take n (u @ replicate n 0))),
      copy_to_user = (\<lambda>bs. 0)\<rparr>"

section \<open>Facts about memory\<close>

lemma finite_allocated [simp]: "finite (allocated h)"
  by (simp add: allocated_def)

lemma next_addr_fresh: "next_addr h \<notin> allocated h"
proof
  assume "next_addr h \<in> allocated h"
  then have "next_addr h \<le> Max (insert 0 (allocated h))" by (intro Max_ge) simp_all
  then show False by (simp add: next_addr_def)
qed

lemma simple_kernel_ok: "kernel_ok simple_kernel"
  by (auto simp: kernel_ok_def simple_kernel_def next_addr_fresh)

lemma simple_kernel_plenty: "plenty simple_kernel" "user_ok simple_kernel"
  by (simp_all add: plenty_def user_ok_def simple_kernel_def next_addr_def)

lemma kernel_okD:
  assumes "kernel_ok k"
  shows kmalloc_fresh: "kmalloc k h n \<noteq> NULL \<Longrightarrow> kmalloc k h n \<notin> allocated h"
    and cache_fresh: "kmem_cache_alloc k h \<noteq> NULL \<Longrightarrow> kmem_cache_alloc k h \<notin> allocated h"
    and pages_fresh: "get_free_pages k h n \<noteq> NULL \<Longrightarrow> get_free_pages k h n \<notin> allocated h"
    and length_uninit [simp]: "length (uninit k n) = n"
    and length_copied: "length (snd (copy_from_user k u n)) = n"
    and copied_all: "fst (copy_from_user k u n) = 0 \<Longrightarrow> snd (copy_from_user k u n) = take n u"
  using assms by (auto simp: kernel_ok_def)

lemma load_NULL [simp]: "load m NULL = Inl Null_deref"
  by (simp add: load_def)

lemma load_eq_Inr [simp]: "load m p = Inr x \<longleftrightarrow> p \<noteq> NULL \<and> fmlookup m p = Some x"
  by (simp add: load_def split: option.split)

lemma not_allocatedD:
  assumes "p \<notin> allocated h"
  shows "fmlookup (hp_qset h) p = None" "fmlookup (hp_ptrs h) p = None"
    "fmlookup (hp_blk h) p = None"
  using assms by (auto simp: allocated_def)

end
