(* ===== verification/Scull_Base.thy ===== *)
theory Scull_Base
  imports Kernel
begin

text \<open>
  The scull core, \<^verbatim>\<open>common_scull/base_scull.c\<close> with the data of
  \<^verbatim>\<open>common_scull/scull.h\<close>: a device is a linked list of quantum sets on the heap,
  each an array of pointers to data blocks. This theory holds the definitions only; the
  representation invariant and the correctness of the operations are in the theories
  \<open>Scull_Chain\<close> and \<open>Scull_Device\<close>.
\<close>

section \<open>Data\<close>

datatype scull_type = scull_type_basic | scull_type_c | scull_type_p

text \<open>
  \<^verbatim>\<open>struct scull_dev\<close>, less \<^verbatim>\<open>access_key\<close> and the embedded
  \<^verbatim>\<open>cdev\<close>, which no operation of the core reads. The semaphore is its counter.
\<close>

record scull_dev =
  data :: addr
  quantum :: int
  qset :: int
  sem :: int
  dsize :: int
  order :: nat
  dtype :: scull_type

text \<open>The file-scope variables of \<^verbatim>\<open>base_scull.c\<close>; the cache is the size of its objects.\<close>

record scull_globals =
  scull_quantum :: int
  scull_qset_n :: int
  scull_cache :: "nat option"

definition QUANTUM_SIZE :: int where "QUANTUM_SIZE = 1024"
definition QSET_SIZE :: int where "QSET_SIZE = 1000"

definition scull_globals_init :: scull_globals where
  "scull_globals_init =
     \<lparr>scull_quantum = QUANTUM_SIZE, scull_qset_n = QSET_SIZE, scull_cache = None\<rparr>"

definition up :: "scull_dev \<Rightarrow> scull_dev" where
  "up d = d\<lparr>sem := sem d + 1\<rparr>"

definition down :: "scull_dev \<Rightarrow> scull_dev" where
  "down d = d\<lparr>sem := sem d - 1\<rparr>"

section \<open>Allocating and freeing data blocks\<close>

definition dev_allocator :: "scull_dev \<Rightarrow> allocator" where
  "dev_allocator d = (case dtype d of
      scull_type_basic \<Rightarrow> By_kmalloc
    | scull_type_c \<Rightarrow> By_cache
    | scull_type_p \<Rightarrow> By_pages (order d))"

definition scull_free :: "scull_globals \<Rightarrow> scull_dev \<Rightarrow> addr \<Rightarrow> heap \<Rightarrow> heap res" where
  "scull_free g d p h = (case dtype d of
      scull_type_basic \<Rightarrow> free_blk By_kmalloc h p
    | scull_type_c \<Rightarrow> (case scull_cache g of None \<Rightarrow> Inl Null_deref | Some n \<Rightarrow> free_blk By_cache h p)
    | scull_type_p \<Rightarrow> free_blk (By_pages (order d)) h p)"

definition scull_alloc :: "kernel \<Rightarrow> scull_globals \<Rightarrow> scull_dev \<Rightarrow> heap \<Rightarrow> (addr \<times> heap) res" where
  "scull_alloc k g d h = (case dtype d of
      scull_type_basic \<Rightarrow>
        (let n = u64 (quantum d) in Inr (new_blk k By_kmalloc n (kmalloc k h n) h))
    | scull_type_c \<Rightarrow>
        (case scull_cache g of
           None \<Rightarrow> Inl Null_deref
         | Some n \<Rightarrow> Inr (new_blk k By_cache n (kmem_cache_alloc k h) h))
    | scull_type_p \<Rightarrow>
        Inr (new_blk k (By_pages (order d)) (page_size k * 2 ^ order d)
               (get_free_pages k h (order d)) h))"

section \<open>scull_trim\<close>

text \<open>The inner loop: \<^verbatim>\<open>for (i = 0; i < dev->qset; i++) if (data[i]) scull_free(dev, data[i]);\<close>\<close>

function trim_blocks :: "scull_globals \<Rightarrow> scull_dev \<Rightarrow> addr \<Rightarrow> int \<Rightarrow> heap \<Rightarrow> heap res" where
  "trim_blocks g d arr i h =
     (if i < qset d then
        bindE (get_ptr h arr i) (\<lambda>p.
        bindE (if p \<noteq> NULL then scull_free g d p h else Inr h) (\<lambda>h'.
        trim_blocks g d arr (i + 1) h'))
      else Inr h)"
  by pat_completeness auto
termination
  by (relation "measure (\<lambda>(g, d, arr, i, h). nat (qset d - i))") auto

declare trim_blocks.simps [simp del]

definition trim_node :: "scull_globals \<Rightarrow> scull_dev \<Rightarrow> addr \<Rightarrow> scull_qset \<Rightarrow> heap \<Rightarrow> heap res" where
  "trim_node g d dptr q h =
     bindE (if qs_data q \<noteq> NULL
            then bindE (trim_blocks g d (qs_data q) 0 h) (\<lambda>h'. kfree_ptrs h' (qs_data q))
            else Inr h)
       (\<lambda>h'. kfree_qset h' dptr)"

lemma free_blk_frame:
  "free_blk al h p = Inr h' \<Longrightarrow> hp_qset h' = hp_qset h \<and> hp_ptrs h' = hp_ptrs h"
  by (auto simp: free_blk_def split: if_splits option.splits)

lemma scull_free_frame:
  "scull_free g d p h = Inr h' \<Longrightarrow> hp_qset h' = hp_qset h \<and> hp_ptrs h' = hp_ptrs h"
  by (auto simp: scull_free_def free_blk_frame split: scull_type.splits option.splits)

lemma kfree_ptrs_frame: "kfree_ptrs h p = Inr h' \<Longrightarrow> hp_qset h' = hp_qset h \<and> hp_blk h' = hp_blk h"
  by (auto simp: kfree_ptrs_def split: if_splits)

lemma trim_blocks_frame:
  "trim_blocks g d arr i h = Inr h' \<Longrightarrow> hp_qset h' = hp_qset h \<and> hp_ptrs h' = hp_ptrs h"
proof (induction g d arr i h rule: trim_blocks.induct)
  case (1 g d arr i h)
  show ?case
  proof (cases "i < qset d")
    case True
    with "1.prems" obtain p h1 where p: "get_ptr h arr i = Inr p"
      and h1: "(if p \<noteq> NULL then scull_free g d p h else Inr h) = Inr h1"
      and rest: "trim_blocks g d arr (i + 1) h1 = Inr h'"
      by (subst (asm) trim_blocks.simps) auto
    from h1 have "hp_qset h1 = hp_qset h \<and> hp_ptrs h1 = hp_ptrs h"
      by (auto split: if_splits dest: scull_free_frame)
    with "1.IH" [OF True p h1 rest] show ?thesis by simp
  next
    case False
    with "1.prems" show ?thesis by (subst (asm) trim_blocks.simps) simp
  qed
qed

lemma trim_node_smaller:
  assumes "get_qset h dptr = Inr q" and "trim_node g d dptr q h = Inr h'"
  shows "card (fmdom' (hp_qset h')) < card (fmdom' (hp_qset h))"
proof -
  from assms have q: "dptr \<noteq> NULL" "fmlookup (hp_qset h) dptr = Some q"
    by (simp_all add: get_qset_def)
  from assms(2) obtain h1 where h1: "hp_qset h1 = hp_qset h" and h': "kfree_qset h1 dptr = Inr h'"
    by (auto simp: trim_node_def split: if_splits dest!: trim_blocks_frame kfree_ptrs_frame)
  from h' q h1 have "hp_qset h' = fmdrop dptr (hp_qset h)"
    by (auto simp: kfree_qset_def split: if_splits)
  moreover have "dptr \<in> fmdom' (hp_qset h)"
    using q by (simp add: fmlookup_dom'_iff)
  ultimately show ?thesis
    using card_Diff1_less [of "fmdom' (hp_qset h)" dptr] by (simp del: card_Diff_singleton)
qed

text \<open>The outer loop: \<^verbatim>\<open>while (dptr) { ... dptr = next; }\<close>; each round frees its node.\<close>

function trim_loop :: "scull_globals \<Rightarrow> scull_dev \<Rightarrow> addr \<Rightarrow> heap \<Rightarrow> heap res" where
  "trim_loop g d dptr h =
     (if dptr = NULL then Inr h
      else bindE (get_qset h dptr) (\<lambda>q.
           bindE (trim_node g d dptr q h) (\<lambda>h'.
           trim_loop g d (qs_next q) h')))"
  by pat_completeness auto
termination
  by (relation "measure (\<lambda>(g, d, p, h). card (fmdom' (hp_qset h)))") (auto intro: trim_node_smaller)

declare trim_loop.simps [simp del]

definition scull_trim :: "scull_globals \<Rightarrow> scull_dev \<Rightarrow> heap \<Rightarrow> (scull_dev \<times> heap) res" where
  "scull_trim g d h =
     bindE (trim_loop g d (data d) h) (\<lambda>h'.
       Inr (d\<lparr>dsize := 0, data := NULL, qset := scull_qset_n g, quantum := scull_quantum g\<rparr>, h'))"

section \<open>scull_follow\<close>

text \<open>
  \<^verbatim>\<open>while (item >= 0) { ... item--; }\<close> runs \<open>item + 1\<close> times (not at all for a
  negative \<open>item\<close>): the first argument of the loop is the number of rounds left. Both
  functions return the node found (\<open>NULL\<close> when out of memory) and the heap;
  \<open>scull_follow\<close> also returns the list head, which it may set.
\<close>

fun follow_loop :: "kernel \<Rightarrow> nat \<Rightarrow> addr \<Rightarrow> addr \<Rightarrow> heap \<Rightarrow> (addr \<times> heap) res" where
  "follow_loop k 0 qs prev h = Inr (prev, h)"
| "follow_loop k (Suc n) qs prev h =
     (if qs = NULL then
        (case alloc_qset k h of (new, h1) \<Rightarrow>
           if new = NULL then Inr (NULL, h1)
           else bindE (get_qset h1 prev) (\<lambda>pq.
                let h2 = put_qset h1 prev (pq\<lparr>qs_next := new\<rparr>) in
                bindE (get_qset h2 new) (\<lambda>q. follow_loop k n (qs_next q) new h2)))
      else bindE (get_qset h qs) (\<lambda>q. follow_loop k n (qs_next q) qs h))"

definition scull_follow :: "kernel \<Rightarrow> addr \<Rightarrow> int \<Rightarrow> heap \<Rightarrow> (addr \<times> addr \<times> heap) res" where
  "scull_follow k head item h =
     (if head = NULL then
        (case alloc_qset k h of (qs, h1) \<Rightarrow>
           if qs = NULL then Inr (NULL, head, h1)
           else bindE (follow_loop k (nat (item + 1)) qs NULL h1) (\<lambda>(p, h2). Inr (p, qs, h2)))
      else bindE (follow_loop k (nat (item + 1)) head NULL h) (\<lambda>(p, h2). Inr (p, head, h2)))"

section \<open>scull_read\<close>

text \<open>
  What a handler leaves behind: its return value, the file position, the bytes handed to
  \<open>copy_to_user\<close>, the device and the heap.
\<close>

record io_result =
  ret :: int
  pos' :: int
  out :: "byte list"
  dev' :: scull_dev
  heap' :: heap

text \<open>
  \<open>quantum\<close>, \<open>qset\<close> and the bytes left are read before the semaphore is taken, so the
  handler is given the device twice: \<open>d0\<close> as it is on entry and \<open>d\<close> as it is once
  \<open>down_interruptible\<close> has returned (\<open>intr\<close>: a signal came first). For a caller that
  does not have to wait the two are the same.
\<close>

definition read_block ::
  "kernel \<Rightarrow> int \<Rightarrow> int \<Rightarrow> int \<Rightarrow> nat \<Rightarrow> int \<Rightarrow> addr \<Rightarrow> scull_dev \<Rightarrow> heap \<Rightarrow> io_result res" where
  \<comment> \<open>from the \<open>count\<close> adjustments to the label \<open>out\<close>, for a block that is present\<close>
  "read_block k left quant q_pos count pos blk d h =
     (let count = (if count > u64 left then u64 left else count);
          count = (if count > u64 (quant - q_pos) then u64 (quant - q_pos) else count)
      in bindE (read_blk h blk q_pos count) (\<lambda>bs.
         if copy_to_user k bs \<noteq> 0
         then Inr \<lparr>ret = - EFAULT, pos' = pos, out = bs, dev' = up d, heap' = h\<rparr>
         else Inr \<lparr>ret = s64 (int count), pos' = s64 (pos + int count), out = bs,
                   dev' = up d, heap' = h\<rparr>))"

definition scull_read ::
  "kernel \<Rightarrow> bool \<Rightarrow> scull_dev \<Rightarrow> scull_dev \<Rightarrow> heap \<Rightarrow> nat \<Rightarrow> int \<Rightarrow> io_result res" where
  "scull_read k intr d0 d h count pos =
     (let quant = quantum d0; itemsize = s32 (quant * qset d0); left = s64 (dsize d0 - pos) in
      if intr then Inr \<lparr>ret = - ERESTARTSYS, pos' = pos, out = [], dev' = d, heap' = h\<rparr>
      else
      let d = down d in
      if pos \<ge> dsize d then Inr \<lparr>ret = 0, pos' = pos, out = [], dev' = up d, heap' = h\<rparr>
      else
      bindE (cdiv pos itemsize) (\<lambda>item.
      bindE (cmod pos itemsize) (\<lambda>rest.
      bindE (cdiv (s32 rest) quant) (\<lambda>s_pos.
      bindE (cmod (s32 rest) quant) (\<lambda>q_pos.
      bindE (scull_follow k (data d) (s32 item) h) (\<lambda>(dptr, head, h1).
      let d = d\<lparr>data := head\<rparr>;
          stop = Inr \<lparr>ret = 0, pos' = pos, out = [], dev' = up d, heap' = h1\<rparr> in
      if dptr = NULL then stop
      else bindE (get_qset h1 dptr) (\<lambda>q.
      if qs_data q = NULL then stop
      else bindE (get_ptr h1 (qs_data q) s_pos) (\<lambda>blk.
      if blk = NULL then stop
      else read_block k left quant q_pos count pos blk d h1))))))))"

section \<open>scull_write\<close>

text \<open>
  The three stages of \<open>scull_write\<close> after \<open>scull_follow\<close>: the pointer array of the node,
  the data block, the copy. A stage that runs out of memory leaves through \<open>out\<close> with
  \<open>-ENOMEM\<close>, keeping what was allocated before.
\<close>

definition ensure_array :: "kernel \<Rightarrow> int \<Rightarrow> addr \<Rightarrow> heap \<Rightarrow> (addr \<times> heap) res" where
  \<comment> \<open>\<open>if (dptr->data == NULL) dptr->data = kmalloc(...)\<close>; the array, or \<open>NULL\<close>\<close>
  "ensure_array k qs dptr h =
     bindE (get_qset h dptr) (\<lambda>q.
       if qs_data q = NULL then
         (case alloc_ptrs k h qs of (arr, h1) \<Rightarrow> Inr (arr, put_qset h1 dptr (q\<lparr>qs_data := arr\<rparr>)))
       else Inr (qs_data q, h))"

definition ensure_block ::
  "kernel \<Rightarrow> scull_globals \<Rightarrow> scull_dev \<Rightarrow> int \<Rightarrow> addr \<Rightarrow> int \<Rightarrow> heap \<Rightarrow> (addr \<times> heap) res" where
  \<comment> \<open>\<open>if (dptr->data[s_pos] == NULL) dptr->data[s_pos] = scull_alloc(dev)\<close>, zeroed\<close>
  "ensure_block k g d quant arr s_pos h =
     bindE (get_ptr h arr s_pos) (\<lambda>blk.
       if blk = NULL then
         bindE (scull_alloc k g d h) (\<lambda>(blk, h1).
         bindE (set_ptr h1 arr s_pos blk) (\<lambda>h2.
           if blk = NULL then Inr (NULL, h2)
           else bindE (write_blk h2 blk 0 (replicate (u64 quant) 0)) (\<lambda>h3. Inr (blk, h3))))
       else Inr (blk, h))"

definition write_block ::
  "kernel \<Rightarrow> int \<Rightarrow> byte list \<Rightarrow> nat \<Rightarrow> int \<Rightarrow> addr \<Rightarrow> scull_dev \<Rightarrow> heap \<Rightarrow> io_result res" where
  "write_block k q_pos ubuf count pos blk d h =
     (let count = (if count > u64 (quantum d - q_pos) then u64 (quantum d - q_pos) else count) in
      case copy_from_user k ubuf count of (left, bs) \<Rightarrow>
      bindE (write_blk h blk q_pos bs) (\<lambda>h1.
        if left \<noteq> 0
        then Inr \<lparr>ret = - EFAULT, pos' = pos, out = [], dev' = up d, heap' = h1\<rparr>
        else Inr \<lparr>ret = s64 (int count), pos' = s64 (pos + int count), out = [],
                  dev' = up (d\<lparr>dsize := s64 (dsize d + int count)\<rparr>), heap' = h1\<rparr>))"

definition scull_write ::
  "kernel \<Rightarrow> scull_globals \<Rightarrow> bool \<Rightarrow> scull_dev \<Rightarrow> scull_dev \<Rightarrow> heap \<Rightarrow> byte list \<Rightarrow> nat \<Rightarrow> int \<Rightarrow>
   io_result res" where
  "scull_write k g intr d0 d h ubuf count pos =
     (let quant = quantum d0; qs = qset d0; qset_size = s32 (qs * quant) in
      if intr then Inr \<lparr>ret = - ERESTARTSYS, pos' = pos, out = [], dev' = d, heap' = h\<rparr>
      else
      let d = down d in
      bindE (cdiv pos qset_size) (\<lambda>item.
      bindE (cmod pos qset_size) (\<lambda>rest.
      bindE (cdiv (s32 rest) quant) (\<lambda>s_pos.
      bindE (cmod (s32 rest) quant) (\<lambda>q_pos.
      bindE (scull_follow k (data d) (s32 item) h) (\<lambda>(dptr, head, h1).
      let d = d\<lparr>data := head\<rparr>;
          nomem = (\<lambda>h'. Inr \<lparr>ret = - ENOMEM, pos' = pos, out = [], dev' = up d, heap' = h'\<rparr>) in
      if dptr = NULL then nomem h1
      else bindE (ensure_array k qs dptr h1) (\<lambda>(arr, h2).
      if arr = NULL then nomem h2
      else bindE (ensure_block k g d quant arr s_pos h2) (\<lambda>(blk, h3).
      if blk = NULL then nomem h3
      else write_block k q_pos ubuf count pos blk d h3))))))))"

end
