(* ===== verification/Scull_Chain.thy ===== *)
theory Scull_Chain
  imports Scull_Base
begin

text \<open>
  The representation invariant of a scull device, and the two operations that walk its list:
  \<open>scull_trim\<close> gives back exactly the memory the device owns, \<open>scull_follow\<close> finds the
  node of an item, appending empty nodes where the list is too short. A device is described
  by the list of its nodes with the addresses they hold (\<open>gnode\<close>), so that ownership and
  separation are statements about lists of addresses.
\<close>

section \<open>The representation invariant\<close>

record gnode =
  g_addr :: addr        \<comment> \<open>the node itself\<close>
  g_arr :: addr         \<comment> \<open>its pointer array, or \<open>NULL\<close>\<close>
  g_blks :: "addr list" \<comment> \<open>the contents of the array\<close>

fun chain :: "heap \<Rightarrow> addr \<Rightarrow> gnode list \<Rightarrow> addr \<Rightarrow> bool" where
  "chain h p [] r \<longleftrightarrow> p = r"
| "chain h p (g # gs) r \<longleftrightarrow> p \<noteq> NULL \<and> g_addr g = p \<and>
     (case fmlookup (hp_qset h) p of
        None \<Rightarrow> False
      | Some q \<Rightarrow> qs_data q = g_arr g \<and> chain h (qs_next q) gs r)"

definition blk_ok :: "heap \<Rightarrow> scull_dev \<Rightarrow> addr \<Rightarrow> bool" where
  "blk_ok h d b \<longleftrightarrow> (case fmlookup (hp_blk h) b of
      None \<Rightarrow> False
    | Some (al, bs) \<Rightarrow> al = dev_allocator d \<and> nat (quantum d) \<le> length bs)"

definition node_ok :: "heap \<Rightarrow> scull_dev \<Rightarrow> gnode \<Rightarrow> bool" where
  "node_ok h d g \<longleftrightarrow>
     (if g_arr g = NULL then g_blks g = []
      else fmlookup (hp_ptrs h) (g_arr g) = Some (g_blks g) \<and>
           length (g_blks g) = nat (qset d) \<and>
           list_all (\<lambda>b. b = NULL \<or> blk_ok h d b) (g_blks g))"

definition arr_addrs :: "gnode list \<Rightarrow> addr list" where
  "arr_addrs gs = filter (\<lambda>a. a \<noteq> NULL) (map g_arr gs)"

definition blk_addrs :: "gnode list \<Rightarrow> addr list" where
  "blk_addrs gs = filter (\<lambda>a. a \<noteq> NULL) (concat (map g_blks gs))"

definition params_ok :: "scull_dev \<Rightarrow> bool" where
  "params_ok d \<longleftrightarrow> 0 < quantum d \<and> 0 < qset d \<and> quantum d * qset d < 2 ^ 31"

definition dev_inv :: "heap \<Rightarrow> scull_dev \<Rightarrow> gnode list \<Rightarrow> bool" where
  "dev_inv h d gs \<longleftrightarrow>
     params_ok d \<and> chain h (data d) gs NULL \<and> list_all (node_ok h d) gs \<and>
     distinct (arr_addrs gs) \<and> distinct (blk_addrs gs)"

text \<open>The heap without the memory of a device.\<close>

definition without :: "heap \<Rightarrow> gnode list \<Rightarrow> heap" where
  "without h gs =
     \<lparr>hp_qset = fmdrop_set (set (map g_addr gs)) (hp_qset h),
      hp_ptrs = fmdrop_set (set (arr_addrs gs)) (hp_ptrs h),
      hp_blk = fmdrop_set (set (blk_addrs gs)) (hp_blk h)\<rparr>"

definition cache_ready :: "scull_globals \<Rightarrow> scull_dev \<Rightarrow> bool" where
  "cache_ready g d \<longleftrightarrow> (dtype d = scull_type_c \<longrightarrow> scull_cache g \<noteq> None)"

text \<open>
  What \<open>scull_follow\<close> may do to a device's list: append empty nodes in fresh memory. Nothing
  else changes, the link of the last old node apart.
\<close>

definition empty_node :: "addr \<Rightarrow> gnode" where
  "empty_node a = \<lparr>g_addr = a, g_arr = NULL, g_blks = []\<rparr>"

definition grown :: "heap \<Rightarrow> gnode list \<Rightarrow> heap \<Rightarrow> gnode list \<Rightarrow> bool" where
  "grown h gs h' gs' \<longleftrightarrow>
     (\<exists>as. gs' = gs @ map empty_node as \<and> set as \<inter> allocated h = {}) \<and>
     hp_ptrs h' = hp_ptrs h \<and> hp_blk h' = hp_blk h \<and> allocated h \<subseteq> allocated h' \<and>
     (\<forall>a. a \<notin> set (map g_addr gs') \<longrightarrow> fmlookup (hp_qset h') a = fmlookup (hp_qset h) a)"

section \<open>Lists of nodes on the heap\<close>

lemma chain_append:
  "chain h p (as @ bs) r \<longleftrightarrow> (\<exists>m. chain h p as m \<and> chain h m bs r)"
  by (induction as arbitrary: p) (auto split: option.splits)

lemma chain_NULL [simp]: "chain h NULL gs r \<longleftrightarrow> gs = [] \<and> r = NULL"
  by (cases gs) auto

lemma chain_nonNULL:
  "p \<noteq> NULL \<Longrightarrow> chain h p gs NULL \<longleftrightarrow>
   (\<exists>g gs' q. gs = g # gs' \<and> g_addr g = p \<and> fmlookup (hp_qset h) p = Some q \<and>
      qs_data q = g_arr g \<and> chain h (qs_next q) gs' NULL)"
  by (cases gs) (auto split: option.splits)

lemma chain_unique:
  "chain h p gs NULL \<Longrightarrow> chain h p gs' NULL \<Longrightarrow> map g_addr gs = map g_addr gs'"
proof (induction gs arbitrary: p gs')
  case (Cons g gs)
  from Cons.prems obtain q where p: "p \<noteq> NULL" "g_addr g = p" "fmlookup (hp_qset h) p = Some q"
    and rest: "chain h (qs_next q) gs NULL"
    by (auto split: option.splits)
  from Cons.prems(2) p obtain g' gs'' where "gs' = g' # gs''" "g_addr g' = p"
    "chain h (qs_next q) gs'' NULL"
    by (auto simp: chain_nonNULL)
  with Cons.IH [OF rest] p show ?case by simp
qed simp

lemma chain_distinct: "chain h p gs NULL \<Longrightarrow> distinct (map g_addr gs)"
proof (induction gs arbitrary: p)
  case (Cons g gs)
  from Cons.prems obtain q where p: "p \<noteq> NULL" "g_addr g = p" "fmlookup (hp_qset h) p = Some q"
    and rest: "chain h (qs_next q) gs NULL"
    by (auto split: option.splits)
  have "p \<notin> set (map g_addr gs)"
  proof
    assume "p \<in> set (map g_addr gs)"
    then obtain g1 where "g1 \<in> set gs" and g1: "g_addr g1 = p" by auto
    then obtain as bs where gs: "gs = as @ g1 # bs" by (auto simp: in_set_conv_decomp)
    with rest g1 have "chain h p (g1 # bs) NULL"
      by (auto simp: chain_append split: option.splits)
    from chain_unique [OF this Cons.prems] gs show False by (auto dest: arg_cong [of _ _ length])
  qed
  with Cons.IH [OF rest] p show ?case by simp
qed simp

lemma chain_frame:
  "(\<And>a. a \<in> set (map g_addr gs) \<Longrightarrow> fmlookup (hp_qset h') a = fmlookup (hp_qset h) a) \<Longrightarrow>
   chain h' p gs r \<longleftrightarrow> chain h p gs r"
  by (induction gs arbitrary: p) (auto split: option.splits)

lemma chain_allocated:
  "chain h p gs r \<Longrightarrow> a \<in> set (map g_addr gs) \<Longrightarrow> a \<in> allocated h \<and> a \<noteq> NULL"
  by (induction gs arbitrary: p) (auto simp: allocated_def fmlookup_dom'_iff split: option.splits)

lemma chain_lookup:
  "chain h p gs r \<Longrightarrow> a \<in> set (map g_addr gs) \<Longrightarrow> \<exists>q. fmlookup (hp_qset h) a = Some q"
  by (induction gs arbitrary: p) (auto split: option.splits)

lemma node_ok_frame:
  assumes "g_arr g \<noteq> NULL \<Longrightarrow> fmlookup (hp_ptrs h') (g_arr g) = fmlookup (hp_ptrs h) (g_arr g)"
    and "\<And>b. b \<in> set (g_blks g) \<Longrightarrow> b \<noteq> NULL \<Longrightarrow> fmlookup (hp_blk h') b = fmlookup (hp_blk h) b"
    and "quantum d' = quantum d" "qset d' = qset d" "dev_allocator d' = dev_allocator d"
  shows "node_ok h' d' g \<longleftrightarrow> node_ok h d g"
proof -
  have "b = NULL \<or> blk_ok h' d' b \<longleftrightarrow> b = NULL \<or> blk_ok h d b" if "b \<in> set (g_blks g)" for b
    using assms(2) [OF that] assms(3-5) by (cases "b = NULL") (simp_all add: blk_ok_def split: option.split)
  then show ?thesis
    using assms(1) assms(3-5) by (auto simp: node_ok_def list_all_iff simp del: neq0_conv)
qed

section \<open>scull_trim\<close>

lemma scull_free_ok:
  assumes "cache_ready g d" and "blk_ok h d b" and "b \<noteq> NULL"
  shows "scull_free g d b h = Inr (h\<lparr>hp_blk := fmdrop b (hp_blk h)\<rparr>)"
  using assms by (auto simp: scull_free_def cache_ready_def blk_ok_def dev_allocator_def free_blk_def
      split: scull_type.splits option.splits)

lemma fmdrop_set_insert: "fmdrop_set (insert a A) m = fmdrop_set A (fmdrop a m)"
  by (rule fmap_ext) simp

lemma fmdrop_set_Un: "fmdrop_set (A \<union> B) m = fmdrop_set B (fmdrop_set A m)"
  by (rule fmap_ext) simp

lemma fmdrop_set_empty [simp]: "fmdrop_set {} m = m"
  by (rule fmap_ext) simp

lemma trim_blocks_ok:
  assumes "cache_ready g d" and "fmlookup (hp_ptrs h) arr = Some bl" and "arr \<noteq> NULL"
    and "length bl = nat (qset d)" and "0 \<le> i"
    and "list_all (\<lambda>b. b = NULL \<or> blk_ok h d b) (drop (nat i) bl)"
    and "distinct (filter (\<lambda>b. b \<noteq> NULL) (drop (nat i) bl))"
  shows "trim_blocks g d arr i h =
    Inr (h\<lparr>hp_blk := fmdrop_set (set (drop (nat i) bl) - {NULL}) (hp_blk h)\<rparr>)"
  using assms
proof (induction g d arr i h rule: trim_blocks.induct)
  case (1 g d arr i h)
  show ?case
  proof (cases "i < qset d")
    case False
    with "1.prems" show ?thesis by (subst trim_blocks.simps) simp
  next
    case True
    define b where "b = bl ! nat i"
    define h1 where "h1 = (if b \<noteq> NULL then h\<lparr>hp_blk := fmdrop b (hp_blk h)\<rparr> else h)"
    from True "1.prems" have b: "get_ptr h arr i = Inr b"
      and dr: "drop (nat i) bl = b # drop (nat (i + 1)) bl"
      by (simp_all add: get_ptr_def load_def b_def Cons_nth_drop_Suc nat_add_distrib)
    have step: "(if b \<noteq> NULL then scull_free g d b h else Inr h) = Inr h1"
      using "1.prems"(1,6) dr by (auto simp: h1_def scull_free_ok simp del: neq0_conv)
    have "trim_blocks g d arr (i + 1) h1 =
      Inr (h1\<lparr>hp_blk := fmdrop_set (set (drop (nat (i + 1)) bl) - {NULL}) (hp_blk h1)\<rparr>)"
    proof (rule "1.IH" [OF True b step])
      show "list_all (\<lambda>b. b = NULL \<or> blk_ok h1 d b) (drop (nat (i + 1)) bl)"
        using "1.prems"(6,7) dr
        by (auto simp: list_all_iff h1_def blk_ok_def simp del: neq0_conv split: if_splits)
    qed (use "1.prems" dr in \<open>auto simp: h1_def split: if_splits\<close>)
    with True b step show ?thesis
      by (subst trim_blocks.simps)
        (auto simp: dr h1_def fmdrop_set_insert insert_Diff_if simp del: neq0_conv)
  qed
qed

lemma set_addrs:
  "a \<in> set (arr_addrs gs) \<longleftrightarrow> a \<noteq> NULL \<and> (\<exists>x\<in>set gs. g_arr x = a)"
  "a \<in> set (blk_addrs gs) \<longleftrightarrow> a \<noteq> NULL \<and> (\<exists>x\<in>set gs. a \<in> set (g_blks x))"
  by (auto simp: arr_addrs_def blk_addrs_def)

lemma without_lookup [simp]:
  "fmlookup (hp_qset (without h gs)) a = (if a \<in> set (map g_addr gs) then None else fmlookup (hp_qset h) a)"
  "fmlookup (hp_ptrs (without h gs)) a = (if a \<in> set (arr_addrs gs) then None else fmlookup (hp_ptrs h) a)"
  "fmlookup (hp_blk (without h gs)) a = (if a \<in> set (blk_addrs gs) then None else fmlookup (hp_blk h) a)"
  by (simp_all add: without_def)

lemma without_Cons: "without h (x # gs) = without (without h [x]) gs"
  by (rule heap.equality) (auto intro!: fmap_ext simp: set_addrs)

lemma without_Nil [simp]: "without h [] = h"
  by (simp add: without_def arr_addrs_def blk_addrs_def)

lemma trim_node_ok:
  assumes "cache_ready g d" and "node_ok h d x" and "distinct (blk_addrs [x])"
    and "fmlookup (hp_qset h) (g_addr x) = Some q" and "g_addr x \<noteq> NULL" and "qs_data q = g_arr x"
  shows "trim_node g d (g_addr x) q h = Inr (without h [x])"
proof (cases "g_arr x = NULL")
  case True
  with assms show ?thesis
    by (simp add: trim_node_def kfree_qset_def without_def arr_addrs_def blk_addrs_def node_ok_def
        fmdrop_set_insert)
next
  case False
  have "trim_blocks g d (g_arr x) 0 h =
      Inr (h\<lparr>hp_blk := fmdrop_set (set (drop (nat 0) (g_blks x)) - {NULL}) (hp_blk h)\<rparr>)"
    using False assms by (intro trim_blocks_ok) (simp_all add: node_ok_def blk_addrs_def)
  moreover have "set (g_blks x) - {NULL} = set (blk_addrs [x])"
    by (auto simp: blk_addrs_def)
  ultimately show ?thesis
    using False assms
    by (simp add: trim_node_def kfree_qset_def kfree_ptrs_def without_def arr_addrs_def node_ok_def
        fmdrop_set_insert)
qed

lemma distinct_split:
  "distinct (arr_addrs (x # gs)) \<longleftrightarrow>
     distinct (arr_addrs gs) \<and> (g_arr x \<noteq> NULL \<longrightarrow> g_arr x \<notin> set (arr_addrs gs))"
  "distinct (blk_addrs (x # gs)) \<longleftrightarrow>
     distinct (blk_addrs [x]) \<and> distinct (blk_addrs gs) \<and>
     set (blk_addrs [x]) \<inter> set (blk_addrs gs) = {}"
  by (auto simp: arr_addrs_def blk_addrs_def)

lemma trim_loop_ok:
  "cache_ready g d \<Longrightarrow> chain h p gs NULL \<Longrightarrow> list_all (node_ok h d) gs \<Longrightarrow>
   distinct (arr_addrs gs) \<Longrightarrow> distinct (blk_addrs gs) \<Longrightarrow>
   trim_loop g d p h = Inr (without h gs)"
proof (induction gs arbitrary: p h)
  case Nil
  then show ?case by (subst trim_loop.simps) simp
next
  case (Cons x gs)
  let ?h1 = "without h [x]"
  from Cons.prems(2) obtain q where p: "p \<noteq> NULL" "g_addr x = p"
    and q: "fmlookup (hp_qset h) p = Some q" "qs_data q = g_arr x"
    and rest: "chain h (qs_next q) gs NULL"
    by (auto split: option.splits)
  note dj = Cons.prems(4,5) [unfolded distinct_split [of x gs]]
  have one: "trim_node g d p q h = Inr ?h1"
    using Cons.prems p q dj trim_node_ok [of g d h x q] by simp
  have "chain ?h1 (qs_next q) gs NULL"
    using rest chain_distinct [OF Cons.prems(2)] p
    by (subst chain_frame [of gs ?h1 h]) (auto simp: image_iff)
  moreover have "list_all (node_ok ?h1 d) gs"
    unfolding list_all_iff
  proof
    fix y assume y: "y \<in> set gs"
    with dj have "g_arr y \<noteq> NULL \<Longrightarrow> g_arr x \<noteq> NULL \<Longrightarrow> g_arr y \<noteq> g_arr x"
      by (auto simp: set_addrs)
    moreover from y dj have "b \<in> set (g_blks y) \<Longrightarrow> b \<noteq> NULL \<Longrightarrow> b \<notin> set (blk_addrs [x])" for b
      by (auto simp: set_addrs disjoint_iff)
    ultimately have "node_ok ?h1 d y \<longleftrightarrow> node_ok h d y"
      by (intro node_ok_frame) (auto simp: set_addrs)
    with Cons.prems(3) y show "node_ok ?h1 d y" by (simp add: list_all_iff)
  qed
  ultimately have "trim_loop g d (qs_next q) ?h1 = Inr (without ?h1 gs)"
    using Cons.prems(1) dj by (intro Cons.IH) simp_all
  with p q one show ?case
    by (subst trim_loop.simps) (simp add: get_qset_def load_def without_Cons [of h x gs])
qed

text \<open>
  \<open>scull_trim\<close> on a well-formed device: no fault, and the heap afterwards is the heap without
  exactly the blocks the device owned.
\<close>

lemma scull_trim_ok:
  assumes "dev_inv h d gs" and "cache_ready g d"
  shows "scull_trim g d h =
    Inr (d\<lparr>dsize := 0, data := NULL, qset := scull_qset_n g, quantum := scull_quantum g\<rparr>,
         without h gs)"
  using assms by (simp add: scull_trim_def dev_inv_def trim_loop_ok)

section \<open>scull_follow\<close>

lemma empty_node_simps [simp]:
  "g_addr (empty_node a) = a" "g_arr (empty_node a) = NULL" "g_blks (empty_node a) = []"
  by (simp_all add: empty_node_def)

lemma node_ok_empty [simp]: "node_ok h d (empty_node a)"
  by (simp add: node_ok_def)

lemma grown_refl [simp]: "grown h gs h gs"
  by (auto simp: grown_def intro: exI [of _ "[]"])

lemma grown_trans:
  assumes "grown h gs h1 gs1" and "grown h1 gs1 h2 gs2"
  shows "grown h gs h2 gs2"
proof -
  from assms obtain as bs where as: "gs1 = gs @ map empty_node as" "set as \<inter> allocated h = {}"
    and bs: "gs2 = gs1 @ map empty_node bs" "set bs \<inter> allocated h1 = {}"
    and al: "allocated h \<subseteq> allocated h1" "allocated h1 \<subseteq> allocated h2"
    and q1: "\<And>a. a \<notin> set (map g_addr gs1) \<Longrightarrow> fmlookup (hp_qset h1) a = fmlookup (hp_qset h) a"
    and q2: "\<And>a. a \<notin> set (map g_addr gs2) \<Longrightarrow> fmlookup (hp_qset h2) a = fmlookup (hp_qset h1) a"
    and same: "hp_ptrs h2 = hp_ptrs h" "hp_blk h2 = hp_blk h"
    unfolding grown_def by auto
  have "gs2 = gs @ map empty_node (as @ bs)" "set (as @ bs) \<inter> allocated h = {}"
    using as bs al by auto
  moreover have "fmlookup (hp_qset h2) a = fmlookup (hp_qset h) a"
    if "a \<notin> set (map g_addr gs2)" for a
    using that q1 [of a] q2 [of a] bs by auto
  ultimately show ?thesis
    unfolding grown_def using same al by blast
qed

lemma grown_nth: "grown h gs h' gs' \<Longrightarrow> i < length gs \<Longrightarrow> gs' ! i = gs ! i"
  by (auto simp: grown_def nth_append)

lemma chain_extend:
  assumes c: "chain h p gs NULL" and "gs \<noteq> []" and "a \<noteq> NULL" and a: "a \<notin> allocated h"
    and l: "fmlookup (hp_qset h) (g_addr (last gs)) = Some lq"
  defines "h2 \<equiv> put_qset (put_qset h a \<lparr>qs_data = NULL, qs_next = NULL\<rparr>) (g_addr (last gs)) (lq\<lparr>qs_next := a\<rparr>)"
  shows "chain h2 p (gs @ [empty_node a]) NULL" and "grown h gs h2 (gs @ [empty_node a])"
proof -
  obtain xs x where gs: "gs = xs @ [x]" using \<open>gs \<noteq> []\<close> by (metis rev_exhaust)
  have ne: "b \<noteq> a" if "b \<in> set (map g_addr gs)" for b
    using chain_allocated [OF c that] a by auto
  from c gs l have xs: "chain h p xs (g_addr x)" and x: "g_addr x \<noteq> NULL" "qs_data lq = g_arr x"
    by (auto simp: chain_append split: option.splits)
  have "chain h2 p xs (g_addr x)"
    using xs chain_distinct [OF c] ne
    by (subst chain_frame [of xs h2 h]) (auto simp: h2_def put_qset_def gs)
  then show "chain h2 p (gs @ [empty_node a]) NULL"
    using x \<open>a \<noteq> NULL\<close> ne by (simp add: gs chain_append h2_def put_qset_def)
  show "grown h gs h2 (gs @ [empty_node a])"
    unfolding grown_def
  proof (intro conjI)
    show "\<exists>as. gs @ [empty_node a] = gs @ map empty_node as \<and> set as \<inter> allocated h = {}"
      using a by (intro exI [of _ "[a]"]) simp
  qed (auto simp: h2_def put_qset_def allocated_def gs)
qed

text \<open>
  The outcome of the loop with \<open>n\<close> rounds to go from position \<open>i\<close> of the list
  \<open>gs\<close>: the list has grown to \<open>i + n\<close> nodes at least and the last one visited is returned,
  or the allocation of a node has failed.
\<close>

definition follow_post ::
  "kernel \<Rightarrow> heap \<Rightarrow> addr \<Rightarrow> gnode list \<Rightarrow> nat \<Rightarrow> nat \<Rightarrow> addr \<Rightarrow> (addr \<times> heap) res \<Rightarrow> bool" where
  "follow_post k h p gs i n prev res \<longleftrightarrow>
     (\<exists>r h' gs'. res = Inr (r, h') \<and> chain h' p gs' NULL \<and> grown h gs h' gs' \<and>
        (if n \<noteq> 0 \<and> r = NULL then kmalloc k h' 16 = NULL
         else length gs' = max (length gs) (i + n) \<and>
              r = (if n = 0 then prev else g_addr (gs' ! (i + n - 1)))))"

lemma follow_post_step:
  assumes "follow_post k h2 p gs2 (Suc i) n (g_addr x) res" and "grown h gs h2 gs2"
    and "gs2 ! i = x" and "length gs2 = max (length gs) (Suc i)" and "g_addr x \<noteq> NULL"
  shows "follow_post k h p gs i (Suc n) prev res"
proof -
  from assms(1) obtain r h' gs' where r: "res = Inr (r, h')" "chain h' p gs' NULL" "grown h2 gs2 h' gs'"
    and len: "if n \<noteq> 0 \<and> r = NULL then kmalloc k h' 16 = NULL
      else length gs' = max (length gs2) (Suc i + n) \<and>
        r = (if n = 0 then g_addr x else g_addr (gs' ! (Suc i + n - 1)))"
    unfolding follow_post_def by blast
  have "grown h gs h' gs'" using assms(2) r(3) by (rule grown_trans)
  moreover have "gs' ! i = x" using grown_nth [OF r(3), of i] assms(3,4) by simp
  ultimately show ?thesis
    using r len assms(4,5) unfolding follow_post_def
    by (intro exI [of _ r] exI [of _ h'] exI [of _ gs']) (auto split: if_splits)
qed

lemma follow_loop_alloc:
  assumes "kernel_ok k" and "chain h p as NULL" and "as \<noteq> []" and "prev = g_addr (last as)"
    and a: "a = kmalloc k h 16" "a \<noteq> NULL"
  obtains h2 where "follow_loop k (Suc n) NULL prev h = follow_loop k n NULL a h2"
    and "chain h2 p (as @ [empty_node a]) NULL" and "grown h as h2 (as @ [empty_node a])"
proof -
  have fresh: "a \<notin> allocated h"
    using a kmalloc_fresh [OF assms(1)] by simp
  have "prev \<in> set (map g_addr as)" using assms(3,4) by auto
  then obtain lq where lq: "fmlookup (hp_qset h) prev = Some lq" and "prev \<noteq> NULL" "prev \<noteq> a"
    using chain_allocated [OF assms(2)] fresh chain_lookup [OF assms(2)] by blast
  define h2 where "h2 = put_qset (put_qset h a \<lparr>qs_data = NULL, qs_next = NULL\<rparr>) prev (lq\<lparr>qs_next := a\<rparr>)"
  note ext = chain_extend [OF assms(2,3) a(2) fresh lq [unfolded assms(4)], folded assms(4), folded h2_def]
  have "follow_loop k (Suc n) NULL prev h = follow_loop k n NULL a h2"
    using a lq \<open>prev \<noteq> NULL\<close> \<open>prev \<noteq> a\<close>
    by (simp add: alloc_qset_def get_qset_def load_def h2_def put_qset_def Let_def)
  then show thesis using ext by (rule that)
qed

lemma follow_loop_ok:
  assumes "kernel_ok k" and "chain h p as qs" and "chain h qs bs NULL"
    and "as \<noteq> [] \<Longrightarrow> prev = g_addr (last as)" and "as @ bs \<noteq> []"
  shows "follow_post k h p (as @ bs) (length as) n prev (follow_loop k n qs prev h)"
  using assms(2-)
proof (induction n arbitrary: qs prev h as bs)
  case 0
  then have "chain h p (as @ bs) NULL" by (auto simp: chain_append)
  then show ?case by (auto simp: follow_post_def intro!: exI [of _ "as @ bs"])
next
  case (Suc n)
  show ?case
  proof (cases "qs = NULL")
    case False
    with Suc.prems obtain b bs' q where bs: "bs = b # bs'" "g_addr b = qs"
      and q: "fmlookup (hp_qset h) qs = Some q" "chain h (qs_next q) bs' NULL" "qs_data q = g_arr b"
      by (auto simp: chain_nonNULL)
    have "chain h p (as @ [b]) (qs_next q)"
      using Suc.prems(1) q bs False by (auto simp: chain_append)
    from Suc.IH [OF this q(2), of qs] bs False q show ?thesis
      by (intro follow_post_step [of k h p "as @ bs" _ n b]) (auto simp: get_qset_def load_def)
  next
    case True
    then have bs: "bs = []" using Suc.prems(2) by simp
    with Suc.prems True have as: "chain h p as NULL" "as \<noteq> []" "prev = g_addr (last as)"
      by auto
    show ?thesis
    proof (cases "kmalloc k h 16 = NULL")
      case True
      with \<open>qs = NULL\<close> as bs show ?thesis
        by (auto simp: follow_post_def alloc_qset_def intro!: exI [of _ as])
    next
      case False
      with follow_loop_alloc [OF assms(1) as refl] obtain h2 where
        eq: "follow_loop k (Suc n) NULL prev h = follow_loop k n NULL (kmalloc k h 16) h2"
        and c: "chain h2 p (as @ [empty_node (kmalloc k h 16)]) NULL"
        and g: "grown h as h2 (as @ [empty_node (kmalloc k h 16)])"
        by blast
      from Suc.IH [OF c, of "[]" "kmalloc k h 16"] show ?thesis
        unfolding \<open>qs = NULL\<close> bs eq append_Nil2
        by (intro follow_post_step [where x = "empty_node (kmalloc k h 16)", OF _ g])
          (use False in simp_all)
    qed
  qed
qed

lemma follow_post_item:
  assumes "follow_post k h p gs 0 (nat (item + 1)) prev res" and "0 \<le> item"
  obtains r h' gs' where "res = Inr (r, h')" and "chain h' p gs' NULL" and "grown h gs h' gs'"
    and "if r = NULL then kmalloc k h' 16 = NULL
         else length gs' = max (length gs) (nat item + 1) \<and> r = g_addr (gs' ! nat item)"
  using assms unfolding follow_post_def by (auto simp: nat_add_distrib cong: if_cong)

text \<open>
  \<open>scull_follow\<close> for a non-negative item: the list is at least \<open>item + 1\<close> nodes long
  afterwards and the node of the item is returned, or the kernel was out of memory.
\<close>

lemma scull_follow_ok:
  assumes k: "kernel_ok k" and c: "chain h head gs NULL" and "0 \<le> item"
  obtains r head' h' gs' where "scull_follow k head item h = Inr (r, head', h')"
    and "chain h' head' gs' NULL" and "grown h gs h' gs'"
    and "if r = NULL then kmalloc k h' 16 = NULL
         else length gs' = max (length gs) (nat item + 1) \<and> r = g_addr (gs' ! nat item)"
proof (cases "head = NULL")
  case False
  with c have "gs \<noteq> []" by auto
  with follow_loop_ok [OF k, of h head "[]" head gs NULL "nat (item + 1)"] c
  have "follow_post k h head gs 0 (nat (item + 1)) NULL (follow_loop k (nat (item + 1)) head NULL h)"
    by simp
  then obtain r h' gs' where "follow_loop k (nat (item + 1)) head NULL h = Inr (r, h')"
    "chain h' head gs' NULL" "grown h gs h' gs'"
    "if r = NULL then kmalloc k h' 16 = NULL
     else length gs' = max (length gs) (nat item + 1) \<and> r = g_addr (gs' ! nat item)"
    using \<open>0 \<le> item\<close> by (rule follow_post_item)
  with False show thesis
    by (intro that [of r head h' gs']) (simp_all add: scull_follow_def)
next
  case True
  with c have gs: "gs = []" by simp
  define a where "a = kmalloc k h 16"
  show thesis
  proof (cases "a = NULL")
    case True
    with \<open>head = NULL\<close> c show thesis
      by (auto simp: scull_follow_def alloc_qset_def a_def intro!: that)
  next
    case False
    define h1 where "h1 = put_qset h a \<lparr>qs_data = NULL, qs_next = NULL\<rparr>"
    have fresh: "a \<notin> allocated h" using False kmalloc_fresh [OF k] by (simp add: a_def)
    have c1: "chain h1 a [empty_node a] NULL" using False by (simp add: h1_def put_qset_def)
    have "\<exists>as. [empty_node a] = [] @ map empty_node as \<and> set as \<inter> allocated h = {}"
      using fresh by (intro exI [of _ "[a]"]) simp
    then have g1: "grown h [] h1 [empty_node a]"
      by (auto simp: grown_def h1_def put_qset_def allocated_def)
    from follow_loop_ok [OF k, of h1 a "[]" a "[empty_node a]" NULL "nat (item + 1)"] c1
    have "follow_post k h1 a [empty_node a] 0 (nat (item + 1)) NULL
        (follow_loop k (nat (item + 1)) a NULL h1)"
      by simp
    then obtain r h' gs' where r: "follow_loop k (nat (item + 1)) a NULL h1 = Inr (r, h')"
      "chain h' a gs' NULL" "grown h1 [empty_node a] h' gs'"
      and "if r = NULL then kmalloc k h' 16 = NULL
        else length gs' = max (length [empty_node a]) (nat item + 1) \<and> r = g_addr (gs' ! nat item)"
      using \<open>0 \<le> item\<close> by (rule follow_post_item)
    with False \<open>head = NULL\<close> gs grown_trans [OF g1 r(3)] show thesis
      by (intro that [of r a h' gs'])
        (simp_all add: scull_follow_def alloc_qset_def a_def [symmetric] h1_def [symmetric])
  qed
qed

lemma scull_follow_negative:
  "item < 0 \<Longrightarrow> head \<noteq> NULL \<Longrightarrow> scull_follow k head item h = Inr (NULL, head, h)"
  by (simp add: scull_follow_def)

end
