(* ===== verification/Scull_Device.thy ===== *)
theory Scull_Device
  imports Scull_Chain
begin

text \<open>
  What a scull device stores, and what reading and writing it do. The contents of a device
  are the function \<open>byte_at\<close> from file positions to bytes (a position no block covers holds
  0). The lemmas show, for every branch of \<open>scull_read\<close> and \<open>scull_write\<close>, the value
  returned, the file position, the contents afterwards, that the representation invariant is
  kept, and that memory of others is left alone.
\<close>

section \<open>File positions\<close>

definition isz :: "scull_dev \<Rightarrow> nat" where
  "isz d = nat (quantum d * qset d)"

definition item_of :: "scull_dev \<Rightarrow> nat \<Rightarrow> nat" where
  "item_of d p = p div isz d"

definition slot_of :: "scull_dev \<Rightarrow> nat \<Rightarrow> nat" where
  "slot_of d p = p mod isz d div nat (quantum d)"

definition off_of :: "scull_dev \<Rightarrow> nat \<Rightarrow> nat" where
  "off_of d p = p mod isz d mod nat (quantum d)"

lemma isz_eq: "params_ok d \<Longrightarrow> isz d = nat (qset d) * nat (quantum d)"
  by (simp add: isz_def params_ok_def nat_mult_distrib)

lemma isz_pos: "params_ok d \<Longrightarrow> 0 < isz d"
  by (simp add: isz_eq params_ok_def)

lemma slot_bound: "params_ok d \<Longrightarrow> slot_of d p < nat (qset d)"
  using isz_pos [of d] by (simp add: slot_of_def isz_eq less_mult_imp_div_less)

lemma off_bound: "params_ok d \<Longrightarrow> off_of d p < nat (quantum d)"
  by (simp add: off_of_def params_ok_def)

lemma position_eq: "p = item_of d p * isz d + slot_of d p * nat (quantum d) + off_of d p"
  by (simp add: item_of_def slot_of_def off_of_def flip: add.assoc)

text \<open>Positions of the same block differ by their offsets; a step inside the block keeps the block.\<close>

lemma same_block:
  "item_of d p = item_of d p' \<Longrightarrow> slot_of d p = slot_of d p' \<Longrightarrow> p + off_of d p' = p' + off_of d p"
  using position_eq [of p d] position_eq [of p' d] by simp

lemma step_in_block:
  assumes "params_ok d" and "off_of d p + j < nat (quantum d)"
  shows "item_of d (p + j) = item_of d p" "slot_of d (p + j) = slot_of d p"
    "off_of d (p + j) = off_of d p + j"
proof -
  let ?q = "nat (quantum d)" and ?r = "slot_of d p * nat (quantum d) + (off_of d p + j)"
  have eq: "p + j = item_of d p * isz d + ?r"
    using position_eq [of p d] by simp
  have r: "?r < isz d"
    unfolding isz_eq [OF assms(1)] using slot_bound [OF assms(1)] assms(2) by (rule mult_add_less)
  have "(p + j) div isz d = item_of d p" unfolding eq using r by simp
  then show "item_of d (p + j) = item_of d p" unfolding item_of_def [of d "p + j"] .
  have m: "(p + j) mod isz d = ?r" unfolding eq using r by simp
  show "slot_of d (p + j) = slot_of d p" "off_of d (p + j) = off_of d p + j"
    unfolding slot_of_def [of d "p + j"] off_of_def [of d "p + j"] m using assms(2) by simp_all
qed

lemma position_arith [c_arith]:
  assumes "params_ok d" and "0 \<le> pos" and "pos < 2 ^ 31 * (quantum d * qset d)"
  shows "cdiv pos (s32 (quantum d * qset d)) = Inr (int (item_of d (nat pos)))"
    and "cmod pos (s32 (quantum d * qset d)) = Inr (int (nat pos mod isz d))"
    and "s32 (int (item_of d (nat pos))) = int (item_of d (nat pos))"
    and "cdiv (s32 (int (nat pos mod isz d))) (quantum d) = Inr (int (slot_of d (nat pos)))"
    and "cmod (s32 (int (nat pos mod isz d))) (quantum d) = Inr (int (off_of d (nat pos)))"
proof -
  let ?z = "quantum d * qset d"
  from assms(1) have z: "0 < ?z" "?z < 2 ^ 31" "0 < quantum d" by (simp_all add: params_ok_def)
  then have s: "s32 ?z = ?z" and isz: "int (isz d) = ?z" by (simp_all add: s32_id isz_def)
  show "cdiv pos (s32 ?z) = Inr (int (item_of d (nat pos)))"
    "cmod pos (s32 ?z) = Inr (int (nat pos mod isz d))"
    using assms(2) z by (simp_all add: s cdiv_pos cmod_pos item_of_def isz zdiv_int zmod_int)
  have "(pos div ?z) * ?z \<le> pos"
    using div_mult_mod_eq [of pos ?z] pos_mod_sign [OF z(1), of pos] by linarith
  with assms(3) have "(pos div ?z) * ?z < 2 ^ 31 * ?z" by (rule order_le_less_trans [rotated])
  then have "pos div ?z < 2 ^ 31" using z(1) by (simp only: mult_less_cancel_right_pos)
  then have "int (item_of d (nat pos)) < 2 ^ 31" using assms(2) by (simp add: item_of_def isz zdiv_int)
  then show "s32 (int (item_of d (nat pos))) = int (item_of d (nat pos))" by (intro s32_id) simp_all
  have "int (nat pos mod isz d) < ?z" using z by (simp add: zmod_int isz)
  then have r: "s32 (int (nat pos mod isz d)) = int (nat pos mod isz d)"
    using z by (intro s32_id) simp_all
  show "cdiv (s32 (int (nat pos mod isz d))) (quantum d) = Inr (int (slot_of d (nat pos)))"
    "cmod (s32 (int (nat pos mod isz d))) (quantum d) = Inr (int (off_of d (nat pos)))"
    unfolding r slot_of_def off_of_def using z(3) by (simp_all only: cdiv_nat cmod_nat)
qed

section \<open>Contents\<close>

definition blk_at :: "scull_dev \<Rightarrow> gnode list \<Rightarrow> nat \<Rightarrow> addr" where
  "blk_at d gs p =
     (if item_of d p < length gs \<and> g_arr (gs ! item_of d p) \<noteq> NULL
      then g_blks (gs ! item_of d p) ! slot_of d p else NULL)"

definition byte_at :: "heap \<Rightarrow> scull_dev \<Rightarrow> gnode list \<Rightarrow> nat \<Rightarrow> byte" where
  "byte_at h d gs p =
     (if blk_at d gs p = NULL then 0
      else case fmlookup (hp_blk h) (blk_at d gs p) of
             None \<Rightarrow> 0 | Some (al, bs) \<Rightarrow> bs ! off_of d p)"

definition footprint :: "gnode list \<Rightarrow> addr set" where
  "footprint gs = set (map g_addr gs) \<union> set (arr_addrs gs) \<union> set (blk_addrs gs)"

text \<open>
  How an operation on one device may change memory: what the device owns it keeps, what it
  gains was free, and outside of that nothing changes.
\<close>

definition grows_in ::
  "addr set \<Rightarrow> addr list \<Rightarrow> addr list \<Rightarrow> (addr, 'a) fmap \<Rightarrow> (addr, 'a) fmap \<Rightarrow> bool" where
  "grows_in A as bs m m' \<longleftrightarrow>
     set as \<subseteq> set bs \<and> (set bs - set as) \<inter> A = {} \<and>
     (\<forall>a. a \<notin> set bs \<longrightarrow> fmlookup m' a = fmlookup m a)"

definition framed :: "heap \<Rightarrow> gnode list \<Rightarrow> heap \<Rightarrow> gnode list \<Rightarrow> bool" where
  "framed h gs h' gs' \<longleftrightarrow>
     allocated h \<subseteq> allocated h' \<and>
     grows_in (allocated h) (map g_addr gs) (map g_addr gs') (hp_qset h) (hp_qset h') \<and>
     grows_in (allocated h) (arr_addrs gs) (arr_addrs gs') (hp_ptrs h) (hp_ptrs h') \<and>
     grows_in (allocated h) (blk_addrs gs) (blk_addrs gs') (hp_blk h) (hp_blk h')"

definition same_shape :: "scull_dev \<Rightarrow> scull_dev \<Rightarrow> bool" where
  "same_shape d d' \<longleftrightarrow> quantum d' = quantum d \<and> qset d' = qset d \<and> order d' = order d \<and> dtype d' = dtype d"

text \<open>A block that holds bytes of the file stays where it is.\<close>

definition blocks_kept :: "scull_dev \<Rightarrow> gnode list \<Rightarrow> gnode list \<Rightarrow> bool" where
  "blocks_kept d gs gs' \<longleftrightarrow> (\<forall>p. blk_at d gs p \<noteq> NULL \<longrightarrow> blk_at d gs' p = blk_at d gs p)"

definition evolves :: "heap \<Rightarrow> scull_dev \<Rightarrow> gnode list \<Rightarrow> heap \<Rightarrow> scull_dev \<Rightarrow> gnode list \<Rightarrow> bool" where
  "evolves h d gs h' d' gs' \<longleftrightarrow>
     dev_inv h' d' gs' \<and> same_shape d d' \<and> framed h gs h' gs' \<and> length gs \<le> length gs' \<and>
     blocks_kept d gs gs' \<and> byte_at h' d' gs' = byte_at h d gs"

lemma blocks_kept_refl [simp]: "blocks_kept d gs gs"
  by (simp add: blocks_kept_def)

lemma blocks_kept_trans: "blocks_kept d gs gs1 \<Longrightarrow> blocks_kept d gs1 gs2 \<Longrightarrow> blocks_kept d gs gs2"
  by (simp add: blocks_kept_def)

lemma grows_in_refl [simp]: "grows_in A as as m m"
  by (simp add: grows_in_def)

lemma grows_in_trans:
  assumes 1: "grows_in A as bs m m1" and 2: "grows_in A1 bs cs m1 m2" and "A \<subseteq> A1"
  shows "grows_in A as cs m m2"
  unfolding grows_in_def
proof (intro conjI allI impI)
  show "set as \<subseteq> set cs" using 1 2 unfolding grows_in_def by blast
  show "(set cs - set as) \<inter> A = {}" using 1 2 \<open>A \<subseteq> A1\<close> unfolding grows_in_def by blast
  fix a assume "a \<notin> set cs"
  moreover then have "a \<notin> set bs" using 2 unfolding grows_in_def by blast
  ultimately show "fmlookup m2 a = fmlookup m a" using 1 2 unfolding grows_in_def by simp
qed

lemma framed_refl [simp]: "framed h gs h gs"
  by (simp add: framed_def)

lemma framed_trans: "framed h gs h1 gs1 \<Longrightarrow> framed h1 gs1 h2 gs2 \<Longrightarrow> framed h gs h2 gs2"
  unfolding framed_def by (blast intro: grows_in_trans)

lemma framed_footprint:
  assumes "framed h gs h' gs'"
  shows "footprint gs \<subseteq> footprint gs'" "(footprint gs' - footprint gs) \<inter> allocated h = {}"
    "a \<notin> footprint gs' \<Longrightarrow> fmlookup (hp_qset h') a = fmlookup (hp_qset h) a"
    "a \<notin> footprint gs' \<Longrightarrow> fmlookup (hp_ptrs h') a = fmlookup (hp_ptrs h) a"
    "a \<notin> footprint gs' \<Longrightarrow> fmlookup (hp_blk h') a = fmlookup (hp_blk h) a"
  using assms unfolding framed_def grows_in_def footprint_def by blast+

lemma same_shape_refl [simp]: "same_shape d d"
  by (simp add: same_shape_def)

lemma same_shape_trans: "same_shape d d1 \<Longrightarrow> same_shape d1 d2 \<Longrightarrow> same_shape d d2"
  by (simp add: same_shape_def)

lemma evolves_refl: "dev_inv h d gs \<Longrightarrow> evolves h d gs h d gs"
  by (simp add: evolves_def)

lemma same_shape_positions:
  assumes "same_shape d d'"
  shows "isz d' = isz d" "item_of d' = item_of d" "slot_of d' = slot_of d" "off_of d' = off_of d"
    "params_ok d' = params_ok d"
  using assms
  by (simp_all add: same_shape_def isz_def item_of_def slot_of_def off_of_def params_ok_def fun_eq_iff)

lemma same_shape_contents:
  assumes "same_shape d d'"
  shows "dev_allocator d' = dev_allocator d" "blk_at d' = blk_at d" "byte_at h d' = byte_at h d"
proof -
  show "dev_allocator d' = dev_allocator d"
    using assms by (simp add: same_shape_def dev_allocator_def split: scull_type.split)
  show blk: "blk_at d' = blk_at d"
    unfolding fun_eq_iff blk_at_def same_shape_positions [OF assms] by simp
  show "byte_at h d' = byte_at h d"
    unfolding fun_eq_iff byte_at_def blk same_shape_positions [OF assms] by simp
qed

lemma same_shape_kept: "same_shape d d' \<Longrightarrow> blocks_kept d' = blocks_kept d"
  by (simp add: fun_eq_iff blocks_kept_def same_shape_contents)

lemma evolves_trans:
  "evolves h d gs h1 d1 gs1 \<Longrightarrow> evolves h1 d1 gs1 h2 d2 gs2 \<Longrightarrow> evolves h d gs h2 d2 gs2"
  by (auto simp: evolves_def same_shape_kept intro: framed_trans same_shape_trans blocks_kept_trans)

lemma node_ok_shape: "same_shape d d' \<Longrightarrow> node_ok h d' g \<longleftrightarrow> node_ok h d g"
  by (intro node_ok_frame) (simp_all add: same_shape_contents, simp_all add: same_shape_def)

lemma dev_inv_shape:
  "same_shape d d' \<Longrightarrow> data d' = data d \<Longrightarrow> dev_inv h d' gs = dev_inv h d gs"
  by (simp add: dev_inv_def node_ok_shape same_shape_positions list_all_iff)

text \<open>Semaphore and size play no part in the representation.\<close>

lemma dev_inv_up_down [simp]:
  "dev_inv h (up d) gs = dev_inv h d gs" "dev_inv h (down d) gs = dev_inv h d gs"
  "dev_inv h (d\<lparr>dsize := n\<rparr>) gs = dev_inv h d gs" "dev_inv h (d\<lparr>sem := m\<rparr>) gs = dev_inv h d gs"
  by (rule dev_inv_shape; simp add: up_def down_def same_shape_def)+

lemma dev_invD:
  assumes "dev_inv h d gs"
  shows "params_ok d" "chain h (data d) gs NULL" "\<And>x. x \<in> set gs \<Longrightarrow> node_ok h d x"
    "distinct (arr_addrs gs)" "distinct (blk_addrs gs)"
  using assms by (simp_all add: dev_inv_def list_all_iff)

lemma footprint_allocated:
  assumes "dev_inv h d gs"
  shows "footprint gs \<subseteq> allocated h"
proof
  fix a assume "a \<in> footprint gs"
  then consider "a \<in> set (map g_addr gs)" | "a \<in> set (arr_addrs gs)" | "a \<in> set (blk_addrs gs)"
    by (auto simp: footprint_def)
  then show "a \<in> allocated h"
  proof cases
    case 1 then show ?thesis using chain_allocated [OF dev_invD(2) [OF assms]] by blast
  next
    case 2 then show ?thesis using dev_invD(3) [OF assms]
      by (auto simp: set_addrs node_ok_def allocated_def fmlookup_dom'_iff)
  next
    case 3
    then obtain x where "x \<in> set gs" "a \<in> set (g_blks x)" "a \<noteq> NULL" by (auto simp: set_addrs)
    with dev_invD(3) [OF assms, of x] have "blk_ok h d a"
      by (auto simp: node_ok_def list_all_iff split: if_splits)
    then show ?thesis by (auto simp: blk_ok_def allocated_def fmlookup_dom'_iff split: option.splits)
  qed
qed

lemma blk_at_ok:
  assumes "dev_inv h d gs" and "blk_at d gs p \<noteq> NULL"
  obtains bs where "fmlookup (hp_blk h) (blk_at d gs p) = Some (dev_allocator d, bs)"
    and "nat (quantum d) \<le> length bs" and "blk_at d gs p \<in> set (blk_addrs gs)"
proof -
  let ?x = "gs ! item_of d p"
  from assms(2) have i: "item_of d p < length gs" and a: "g_arr ?x \<noteq> NULL"
    and b: "blk_at d gs p = g_blks ?x ! slot_of d p"
    by (auto simp: blk_at_def split: if_splits)
  from dev_invD(3) [OF assms(1), of ?x] i a have "length (g_blks ?x) = nat (qset d)"
    and ok: "list_all (\<lambda>b. b = NULL \<or> blk_ok h d b) (g_blks ?x)"
    by (auto simp: node_ok_def)
  then have "blk_at d gs p \<in> set (g_blks ?x)"
    using slot_bound [OF dev_invD(1) [OF assms(1)], of p] b by simp
  with ok assms(2) i have "blk_ok h d (blk_at d gs p)" "blk_at d gs p \<in> set (blk_addrs gs)"
    by (auto simp: list_all_iff set_addrs)
  then show thesis by (auto simp: blk_ok_def intro: that split: option.splits)
qed

lemma blk_at_footprint: "dev_inv h d gs \<Longrightarrow> blk_at d gs p \<noteq> NULL \<Longrightarrow> blk_at d gs p \<in> footprint gs"
  by (erule (1) blk_at_ok) (simp add: footprint_def)

section \<open>The stages of an access\<close>

text \<open>Nodes appended by \<open>scull_follow\<close> change neither the contents nor anyone else's memory.\<close>

lemma grown_evolves:
  assumes inv: "dev_inv h d gs" and c: "chain h' head gs' NULL" and g: "grown h gs h' gs'"
  shows "evolves h d gs h' (d\<lparr>data := head\<rparr>) gs'"
proof -
  from g obtain as where gs': "gs' = gs @ map empty_node as" and fresh: "set as \<inter> allocated h = {}"
    and same: "hp_ptrs h' = hp_ptrs h" "hp_blk h' = hp_blk h" and al: "allocated h \<subseteq> allocated h'"
    and q: "\<And>a. a \<notin> set (map g_addr gs') \<Longrightarrow> fmlookup (hp_qset h') a = fmlookup (hp_qset h) a"
    unfolding grown_def by blast
  have addrs: "arr_addrs gs' = arr_addrs gs" "blk_addrs gs' = blk_addrs gs"
    by (simp_all add: gs' arr_addrs_def blk_addrs_def filter_empty_conv)
  have shape: "same_shape d (d\<lparr>data := head\<rparr>)" by (simp add: same_shape_def)
  have ok: "node_ok h' d x \<longleftrightarrow> node_ok h d x" for x
    by (rule node_ok_frame) (simp_all add: same)
  have "dev_inv h' (d\<lparr>data := head\<rparr>) gs'"
    using inv c by (simp add: dev_inv_def addrs node_ok_shape [OF shape] same_shape_positions [OF shape]
        list_all_iff ok) (auto simp: gs')
  moreover have "framed h gs h' gs'"
    using fresh al q unfolding framed_def addrs same by (auto simp: grows_in_def gs')
  moreover have "blk_at d gs' p = blk_at d gs p" for p
    by (auto simp: blk_at_def gs' nth_append)
  then have "byte_at h' d gs' = byte_at h d gs"
    by (simp add: fun_eq_iff byte_at_def same)
  moreover have "blocks_kept d gs gs'" by (simp add: blocks_kept_def \<open>\<And>p. blk_at d gs' p = blk_at d gs p\<close>)
  ultimately show ?thesis
    by (simp add: evolves_def shape same_shape_contents [OF shape] gs')
qed

text \<open>Replacing one node's array and blocks by larger ones in fresh memory.\<close>

lemma addrs_split:
  "arr_addrs (as @ x # bs) = arr_addrs as @ arr_addrs [x] @ arr_addrs bs"
  "blk_addrs (as @ x # bs) = blk_addrs as @ blk_addrs [x] @ blk_addrs bs"
  by (simp_all add: arr_addrs_def blk_addrs_def)

lemma chain_replace:
  assumes c: "chain h p (as @ x # bs) NULL" and "g_addr x' = g_addr x"
    and q: "fmlookup (hp_qset h) (g_addr x) = Some q"
    and q': "fmlookup (hp_qset h') (g_addr x) = Some (q\<lparr>qs_data := g_arr x'\<rparr>)"
    and others: "\<And>a. a \<noteq> g_addr x \<Longrightarrow> fmlookup (hp_qset h') a = fmlookup (hp_qset h) a"
  shows "chain h' p (as @ x' # bs) NULL"
proof -
  from c obtain m where as: "chain h p as m" and x: "chain h m (x # bs) NULL"
    by (auto simp: chain_append)
  have d: "g_addr x \<notin> set (map g_addr as)" "g_addr x \<notin> set (map g_addr bs)"
    using chain_distinct [OF c] by auto
  have "chain h' p as m" using as by (subst chain_frame [of as h' h]) (use others d in metis)+
  moreover have "chain h' r bs NULL \<longleftrightarrow> chain h r bs NULL" for r
    by (rule chain_frame) (use others d in metis)
  ultimately show ?thesis
    using x q q' assms(2) by (auto simp: chain_append)
qed

text \<open>
  \<open>swapped\<close>: node \<open>x\<close> of the list has become \<open>x'\<close> at the same address, with an array
  and blocks that contain the old ones and otherwise lie in memory that was free.
\<close>

definition swapped ::
  "heap \<Rightarrow> scull_dev \<Rightarrow> gnode list \<Rightarrow> gnode \<Rightarrow> gnode list \<Rightarrow> heap \<Rightarrow> gnode \<Rightarrow> bool" where
  "swapped h d as x bs h' x' \<longleftrightarrow>
     dev_inv h d (as @ x # bs) \<and> g_addr x' = g_addr x \<and>
     chain h' (data d) (as @ x' # bs) NULL \<and> node_ok h' d x' \<and> allocated h \<subseteq> allocated h' \<and>
     (\<forall>a. a \<noteq> g_addr x \<longrightarrow> fmlookup (hp_qset h') a = fmlookup (hp_qset h) a) \<and>
     (\<forall>a. a \<notin> set (arr_addrs [x']) \<longrightarrow> fmlookup (hp_ptrs h') a = fmlookup (hp_ptrs h) a) \<and>
     (\<forall>a. a \<notin> set (blk_addrs [x']) - set (blk_addrs [x]) \<longrightarrow>
        fmlookup (hp_blk h') a = fmlookup (hp_blk h) a) \<and>
     set (arr_addrs [x]) \<subseteq> set (arr_addrs [x']) \<and> set (blk_addrs [x]) \<subseteq> set (blk_addrs [x']) \<and>
     (set (arr_addrs [x']) - set (arr_addrs [x])) \<inter> allocated h = {} \<and>
     (set (blk_addrs [x']) - set (blk_addrs [x])) \<inter> allocated h = {} \<and>
     distinct (blk_addrs [x'])"

lemma distinct_mid:
  "distinct (arr_addrs (as @ x # bs)) \<longleftrightarrow>
     distinct (arr_addrs (as @ bs)) \<and> set (arr_addrs [x]) \<inter> set (arr_addrs (as @ bs)) = {}"
  "distinct (blk_addrs (as @ x # bs)) \<longleftrightarrow>
     distinct (blk_addrs (as @ bs)) \<and> distinct (blk_addrs [x]) \<and>
     set (blk_addrs [x]) \<inter> set (blk_addrs (as @ bs)) = {}"
  by (auto simp: arr_addrs_def blk_addrs_def)

lemma swapped_apart:
  assumes "swapped h d as x bs h' x'"
  shows "set (arr_addrs [x']) \<inter> set (arr_addrs (as @ bs)) = {}"
    "set (blk_addrs [x']) \<inter> set (blk_addrs (as @ bs)) = {}"
    "(set (blk_addrs [x']) - set (blk_addrs [x])) \<inter> footprint (as @ x # bs) = {}"
proof -
  from assms have inv: "dev_inv h d (as @ x # bs)"
    and fresh: "(set (arr_addrs [x']) - set (arr_addrs [x])) \<inter> allocated h = {}"
      "(set (blk_addrs [x']) - set (blk_addrs [x])) \<inter> allocated h = {}"
    by (simp_all add: swapped_def)
  have "set (arr_addrs (as @ bs)) \<subseteq> footprint (as @ x # bs)"
    "set (blk_addrs (as @ bs)) \<subseteq> footprint (as @ x # bs)"
    by (auto simp: footprint_def set_addrs)
  moreover have "set (arr_addrs [x]) \<inter> set (arr_addrs (as @ bs)) = {}"
    "set (blk_addrs [x]) \<inter> set (blk_addrs (as @ bs)) = {}"
    using dev_invD(4,5) [OF inv] unfolding distinct_mid by blast+
  ultimately show "set (arr_addrs [x']) \<inter> set (arr_addrs (as @ bs)) = {}"
    "set (blk_addrs [x']) \<inter> set (blk_addrs (as @ bs)) = {}"
    "(set (blk_addrs [x']) - set (blk_addrs [x])) \<inter> footprint (as @ x # bs) = {}"
    using fresh footprint_allocated [OF inv] by blast+
qed

lemma swapped_inv:
  assumes s: "swapped h d as x bs h' x'"
  shows "dev_inv h' d (as @ x' # bs)"
proof -
  note other = swapped_apart [OF s]
  have inv: "dev_inv h d (as @ x # bs)" using s by (simp add: swapped_def)
  have nodes: "node_ok h' d y" if "y \<in> set (as @ bs)" for y
  proof -
    have "g_arr y \<noteq> NULL \<Longrightarrow> g_arr y \<notin> set (arr_addrs [x'])"
      using that other(1) by (force simp: set_addrs)
    moreover have "b \<in> set (g_blks y) \<Longrightarrow> b \<noteq> NULL \<Longrightarrow> b \<notin> set (blk_addrs [x'])" for b
      using that other(2) by (force simp: set_addrs)
    ultimately have "node_ok h' d y \<longleftrightarrow> node_ok h d y"
      using s by (intro node_ok_frame) (simp_all add: swapped_def)
    with that dev_invD(3) [OF inv, of y] show ?thesis by auto
  qed
  have "distinct (arr_addrs (as @ x' # bs))" "distinct (blk_addrs (as @ x' # bs))"
    using dev_invD(4,5) [OF inv] other(1,2) s unfolding distinct_mid swapped_def by simp_all
  with s nodes show ?thesis
    by (auto simp: dev_inv_def swapped_def list_all_iff)
qed

lemma swapped_framed:
  assumes s: "swapped h d as x bs h' x'"
  shows "framed h (as @ x # bs) h' (as @ x' # bs)"
  unfolding framed_def grows_in_def addrs_split
proof (intro conjI allI impI)
  show "allocated h \<subseteq> allocated h'" using s by (simp add: swapped_def)
qed (use s in \<open>auto simp: swapped_def\<close>)

lemma swapped_evolves:
  assumes s: "swapped h d as x bs h' x'"
    and same: "\<And>p. item_of d p = length as \<Longrightarrow>
        byte_at h' d (as @ x' # bs) p = byte_at h d (as @ x # bs) p"
    and kept: "\<And>p. item_of d p = length as \<Longrightarrow> blk_at d (as @ x # bs) p \<noteq> NULL \<Longrightarrow>
        blk_at d (as @ x' # bs) p = blk_at d (as @ x # bs) p"
  shows "evolves h d (as @ x # bs) h' d (as @ x' # bs)"
proof -
  have other: "blk_at d (as @ x' # bs) p = blk_at d (as @ x # bs) p" if "item_of d p \<noteq> length as" for p
    using that by (auto simp: blk_at_def nth_append nth_Cons')
  have "byte_at h' d (as @ x' # bs) p = byte_at h d (as @ x # bs) p" for p
  proof (cases "item_of d p = length as")
    case False
    then have eq: "blk_at d (as @ x' # bs) p = blk_at d (as @ x # bs) p" by (rule other)
    have "fmlookup (hp_blk h') (blk_at d (as @ x # bs) p) = fmlookup (hp_blk h) (blk_at d (as @ x # bs) p)"
      if "blk_at d (as @ x # bs) p \<noteq> NULL"
    proof -
      from s have inv: "dev_inv h d (as @ x # bs)" by (simp add: swapped_def)
      have "blk_at d (as @ x # bs) p \<in> footprint (as @ x # bs)"
        using inv that by (rule blk_at_footprint)
      with swapped_apart(3) [OF s] s show ?thesis unfolding swapped_def by blast
    qed
    then show ?thesis by (simp add: byte_at_def eq)
  qed (rule same)
  moreover have "blocks_kept d (as @ x # bs) (as @ x' # bs)" unfolding blocks_kept_def using other kept by metis
  ultimately show ?thesis
    using swapped_inv [OF s] swapped_framed [OF s] by (simp add: evolves_def fun_eq_iff)
qed

subsection \<open>The pointer array of a node\<close>

lemma array_size: "params_ok d \<Longrightarrow> u64 (8 * qset d) div 8 = nat (qset d)"
proof -
  assume "params_ok d"
  then have "0 < qset d" "1 * qset d \<le> quantum d * qset d" "quantum d * qset d < 2 ^ 31"
    by (auto simp: params_ok_def intro: mult_right_mono simp del: mult_1)
  then have "qset d < 2 ^ 31" by linarith
  with \<open>0 < qset d\<close> show ?thesis by (simp add: u64_id nat_mult_distrib)
qed

lemma split_at: "i < length gs \<Longrightarrow> \<exists>as bs. gs = as @ gs ! i # bs \<and> length as = i"
  by (metis id_take_nth_drop length_take less_imp_le_nat min.absorb2)

lemma chain_node:
  assumes "chain h p (as @ x # bs) NULL"
  obtains q where "fmlookup (hp_qset h) (g_addr x) = Some q" and "g_addr x \<noteq> NULL"
    and "qs_data q = g_arr x"
  using assms by (auto simp: chain_append split: option.splits)

lemma new_array_swapped:
  assumes inv: "dev_inv h d (as @ x # bs)" and "g_arr x = NULL"
    and a: "a \<noteq> NULL" "a \<notin> allocated h" and q: "fmlookup (hp_qset h) (g_addr x) = Some q"
  shows "swapped h d as x bs
    (put_qset (h\<lparr>hp_ptrs := fmupd a (replicate (nat (qset d)) NULL) (hp_ptrs h)\<rparr>)
       (g_addr x) (q\<lparr>qs_data := a\<rparr>))
    (x\<lparr>g_arr := a, g_blks := replicate (nat (qset d)) NULL\<rparr>)"
    (is "swapped h d as x bs ?h' ?x'")
proof -
  have "g_blks x = []"
    using dev_invD(3) [OF inv, of x] assms(2) by (simp add: node_ok_def)
  then have blks: "blk_addrs [x] = []" "blk_addrs [?x'] = []" "arr_addrs [x] = []" "arr_addrs [?x'] = [a]"
    using assms(2) a by (simp_all add: blk_addrs_def arr_addrs_def)
  have "chain ?h' (data d) (as @ ?x' # bs) NULL"
    by (rule chain_replace [OF dev_invD(2) [OF inv] _ q]) (simp_all add: put_qset_def)
  moreover have "node_ok ?h' d ?x'"
    using a by (simp add: node_ok_def put_qset_def list_all_iff)
  ultimately show ?thesis
    using inv a unfolding swapped_def blks by (auto simp: put_qset_def allocated_def)
qed

lemma ensure_array_ok:
  assumes k: "kernel_ok k" and inv: "dev_inv h d gs" and i: "i < length gs"
  obtains arr h' gs' where "ensure_array k (qset d) (g_addr (gs ! i)) h = Inr (arr, h')"
    and "evolves h d gs h' d gs'" and "length gs' = length gs"
    and "if arr = NULL then kmalloc k h (u64 (8 * qset d)) = NULL else g_arr (gs' ! i) = arr"
proof -
  define x where "x = gs ! i"
  obtain as bs where gs: "gs = as @ x # bs" and "length as = i" using split_at [OF i] x_def by blast
  note inv' = inv [unfolded gs]
  obtain q where q: "fmlookup (hp_qset h) (g_addr x) = Some q" "g_addr x \<noteq> NULL" "qs_data q = g_arr x"
    using chain_node [OF dev_invD(2) [OF inv']] by blast
  define a where "a = kmalloc k h (u64 (8 * qset d))"
  consider "g_arr x \<noteq> NULL" | "g_arr x = NULL" "a = NULL" | "g_arr x = NULL" "a \<noteq> NULL" by blast
  then show thesis
  proof cases
    case 1
    with q evolves_refl [OF inv] show thesis
      by (intro that [of "g_arr x" h gs]) (simp_all add: ensure_array_def get_qset_def load_def x_def)
  next
    case 2
    then have "put_qset h (g_addr x) (q\<lparr>qs_data := NULL\<rparr>) = h"
      using q by (simp add: put_qset_def fmupd_same)
    with 2 q evolves_refl [OF inv] show thesis
      by (intro that [of NULL h gs])
        (simp_all add: ensure_array_def get_qset_def load_def alloc_ptrs_def a_def x_def)
  next
    case 3
    let ?x' = "x\<lparr>g_arr := a, g_blks := replicate (nat (qset d)) NULL\<rparr>"
    let ?h' = "put_qset (h\<lparr>hp_ptrs := fmupd a (replicate (nat (qset d)) NULL) (hp_ptrs h)\<rparr>)
      (g_addr x) (q\<lparr>qs_data := a\<rparr>)"
    have "a \<notin> allocated h" using 3 kmalloc_fresh [OF k] by (simp add: a_def)
    note sw = new_array_swapped [OF inv' 3(1,2) this q(1)]
    have "blk_at d (as @ ?x' # bs) p = NULL" "blk_at d (as @ x # bs) p = NULL" if "item_of d p = length as" for p
      using that 3 slot_bound [OF dev_invD(1) [OF inv], of p] by (simp_all add: blk_at_def)
    then have "evolves h d gs ?h' d (as @ ?x' # bs)"
      unfolding gs by (intro swapped_evolves [OF sw]) (simp_all add: byte_at_def)
    moreover have "length gs = length (as @ ?x' # bs)" by (subst gs) simp
    ultimately show thesis
      using q 3 \<open>length as = i\<close> array_size [OF dev_invD(1) [OF inv]]
      by (intro that [of a ?h' "as @ ?x' # bs"])
        (simp_all add: ensure_array_def get_qset_def load_def alloc_ptrs_def a_def [symmetric]
          x_def [symmetric] Let_def nth_append)
  qed
qed

subsection \<open>The block of a slot\<close>

text \<open>
  \<open>alloc_fits\<close>: a block the device's allocator hands out is large enough for a quantum. For
  \<^verbatim>\<open>kmalloc\<close> it always is; for the slab cache and for whole pages it depends on how
  the module was set up.
\<close>

definition alloc_fits :: "kernel \<Rightarrow> scull_globals \<Rightarrow> scull_dev \<Rightarrow> bool" where
  "alloc_fits k g d \<longleftrightarrow> (case dtype d of
      scull_type_basic \<Rightarrow> True
    | scull_type_c \<Rightarrow> (case scull_cache g of None \<Rightarrow> False | Some n \<Rightarrow> quantum d \<le> int n)
    | scull_type_p \<Rightarrow> quantum d \<le> int (page_size k * 2 ^ order d))"

definition blk_source :: "kernel \<Rightarrow> scull_dev \<Rightarrow> heap \<Rightarrow> addr" where
  "blk_source k d h = (case dtype d of
      scull_type_basic \<Rightarrow> kmalloc k h (u64 (quantum d))
    | scull_type_c \<Rightarrow> kmem_cache_alloc k h
    | scull_type_p \<Rightarrow> get_free_pages k h (order d))"

lemma params_bounds:
  assumes "params_ok d"
  shows "0 < quantum d" "0 < qset d" "quantum d < 2 ^ 31" "qset d < 2 ^ 31"
proof -
  from assms have pos: "0 < quantum d" "0 < qset d" and z: "quantum d * qset d < 2 ^ 31"
    by (simp_all add: params_ok_def)
  show "0 < quantum d" "0 < qset d" by fact+
  have "quantum d * 1 \<le> quantum d * qset d" "1 * qset d \<le> quantum d * qset d"
    using pos by (simp_all del: mult_1 mult_1_right)
  with z show "quantum d < 2 ^ 31" "qset d < 2 ^ 31" by linarith+
qed

lemma u64_quantum: "params_ok d \<Longrightarrow> u64 (quantum d) = nat (quantum d)"
  using params_bounds [of d] by (simp add: u64_id)

lemma scull_alloc_ok:
  assumes "alloc_fits k g d" and "params_ok d"
  obtains n where "scull_alloc k g d h = Inr (new_blk k (dev_allocator d) n (blk_source k d h) h)"
    and "nat (quantum d) \<le> n"
  using assms
  by (auto simp: scull_alloc_def alloc_fits_def blk_source_def dev_allocator_def u64_quantum Let_def nat_le_iff
      split: scull_type.splits option.splits intro!: that)

lemma blk_source_fresh:
  "kernel_ok k \<Longrightarrow> blk_source k d h \<noteq> NULL \<Longrightarrow> blk_source k d h \<notin> allocated h"
  by (auto simp: blk_source_def kmalloc_fresh cache_fresh pages_fresh split: scull_type.splits)

lemma filter_update:
  assumes "s < length bl" and "bl ! s = NULL" and "a \<noteq> NULL" and "a \<notin> set bl"
    and "distinct (filter (\<lambda>b. b \<noteq> NULL) bl)"
  shows "set (filter (\<lambda>b. b \<noteq> NULL) (bl[s := a])) = insert a (set (filter (\<lambda>b. b \<noteq> NULL) bl))"
    and "distinct (filter (\<lambda>b. b \<noteq> NULL) (bl[s := a]))"
proof -
  obtain l1 l2 where bl: "bl = l1 @ NULL # l2" "length l1 = s"
    using split_at [OF assms(1)] assms(2) by metis
  then have "bl[s := a] = l1 @ a # l2" by (simp add: list_update_append)
  with bl assms(3-5) show "set (filter (\<lambda>b. b \<noteq> NULL) (bl[s := a])) = insert a (set (filter (\<lambda>b. b \<noteq> NULL) bl))"
    "distinct (filter (\<lambda>b. b \<noteq> NULL) (bl[s := a]))"
    by auto
qed

lemma new_block_swapped:
  assumes inv: "dev_inv h d (as @ x # bs)" and arr: "g_arr x \<noteq> NULL"
    and s: "s < nat (qset d)" "g_blks x ! s = NULL" and a: "a \<noteq> NULL" "a \<notin> allocated h"
    and len: "nat (quantum d) \<le> length ys"
  shows "swapped h d as x bs
    (h\<lparr>hp_ptrs := fmupd (g_arr x) ((g_blks x)[s := a]) (hp_ptrs h),
       hp_blk := fmupd a (dev_allocator d, ys) (hp_blk h)\<rparr>)
    (x\<lparr>g_blks := (g_blks x)[s := a]\<rparr>)"
    (is "swapped h d as x bs ?h' ?x'")
proof -
  have ok: "node_ok h d x" using dev_invD(3) [OF inv, of x] by simp
  have l: "s < length (g_blks x)" using ok arr s by (simp add: node_ok_def)
  have "a \<in> set (g_blks x) \<Longrightarrow> a \<in> footprint (as @ x # bs)"
    using a by (auto simp: footprint_def set_addrs)
  then have an: "a \<notin> set (g_blks x)" using a(2) footprint_allocated [OF inv] by blast
  have D: "distinct (filter (\<lambda>b. b \<noteq> NULL) (g_blks x))"
    using dev_invD(5) [OF inv] unfolding distinct_mid by (simp add: blk_addrs_def)
  note fu = filter_update [OF l s(2) a(1) an D]
  have blks: "set (blk_addrs [?x']) = insert a (set (blk_addrs [x]))" "distinct (blk_addrs [?x'])"
    "arr_addrs [?x'] = arr_addrs [x]"
    using fu by (simp_all add: blk_addrs_def arr_addrs_def)
  have "a \<notin> set (blk_addrs [x])" using an by (simp add: blk_addrs_def)
  moreover have "chain ?h' (data d) (as @ ?x' # bs) NULL"
    using dev_invD(2) [OF inv] by (simp add: chain_append chain_frame [of _ ?h' h] split: option.splits)
  moreover have "node_ok ?h' d ?x'"
    using ok arr len by (auto simp: node_ok_def list_all_iff blk_ok_def split: option.splits
        dest!: set_update_subset_insert [THEN subsetD])
  ultimately show ?thesis
    using inv a arr unfolding swapped_def by (auto simp: blks allocated_def arr_addrs_def)
qed

lemma ensure_block_fresh:
  assumes fits: "alloc_fits k g d" and k: "kernel_ok k" and inv: "dev_inv h d (as @ x # bs)"
    and arr: "g_arr x \<noteq> NULL" and s: "s < nat (qset d)" "g_blks x ! s = NULL"
  obtains (nomem) "blk_source k d h = NULL" "ensure_block k g d (quantum d) (g_arr x) (int s) h = Inr (NULL, h)"
  | (block) a ys where "a \<noteq> NULL" "a \<notin> allocated h" "nat (quantum d) \<le> length ys"
      "take (nat (quantum d)) ys = replicate (nat (quantum d)) 0"
      "ensure_block k g d (quantum d) (g_arr x) (int s) h =
         Inr (a, h\<lparr>hp_ptrs := fmupd (g_arr x) ((g_blks x)[s := a]) (hp_ptrs h),
                   hp_blk := fmupd a (dev_allocator d, ys) (hp_blk h)\<rparr>)"
proof -
  have par: "params_ok d" using inv by (simp add: dev_inv_def)
  have "node_ok h d x" using dev_invD(3) [OF inv, of x] by simp
  with arr have p: "fmlookup (hp_ptrs h) (g_arr x) = Some (g_blks x)" and l: "s < length (g_blks x)"
    using s by (simp_all add: node_ok_def)
  have same: "(g_blks x)[s := NULL] = g_blks x" using s(2) by (metis list_update_id)
  obtain n where n: "scull_alloc k g d h = Inr (new_blk k (dev_allocator d) n (blk_source k d h) h)"
    "nat (quantum d) \<le> n"
    using scull_alloc_ok [OF fits par] by blast
  show thesis
  proof (cases "blk_source k d h = NULL")
    case True
    with n p l s(2) same arr have "ensure_block k g d (quantum d) (g_arr x) (int s) h = Inr (NULL, h)"
      by (simp add: ensure_block_def get_ptr_def set_ptr_def load_def new_blk_def fmupd_same)
    with True show thesis by (rule nomem)
  next
    case False
    define ys where "ys = overwrite (uninit k n) 0 (replicate (nat (quantum d)) 0)"
    have len: "length ys = n" "take (nat (quantum d)) ys = replicate (nat (quantum d)) 0"
      using n(2) k by (simp_all add: ys_def length_uninit, simp add: overwrite_def)
    have fm: "fmupd a u (fmupd a v m) = fmupd a u m" for a u v and m :: "(addr, allocator \<times> byte list) fmap"
      by (rule fmap_ext) simp
    have "ensure_block k g d (quantum d) (g_arr x) (int s) h =
      Inr (blk_source k d h, h\<lparr>hp_ptrs := fmupd (g_arr x) ((g_blks x)[s := blk_source k d h]) (hp_ptrs h),
        hp_blk := fmupd (blk_source k d h) (dev_allocator d, ys) (hp_blk h)\<rparr>)"
      using False n p l s(2) arr k
      by (simp add: ensure_block_def get_ptr_def set_ptr_def load_def new_blk_def write_blk_def poke_def
          u64_quantum [OF par] length_uninit ys_def fm)
    with False blk_source_fresh [OF k False] len n(2) show thesis
      by (intro block [of "blk_source k d h" ys]) simp_all
  qed
qed

text \<open>A slot that gets a zeroed block reads as it did when it had none.\<close>

lemma new_block_bytes:
  assumes inv: "dev_inv h d gs" and a: "a \<noteq> NULL" "a \<notin> allocated h"
    and ys: "nat (quantum d) \<le> length ys" "take (nat (quantum d)) ys = replicate (nat (quantum d)) 0"
    and hole: "s = slot_of d p' \<Longrightarrow> blk_at d gs p' = NULL"
    and at: "blk_at d gs' p' = (if slot_of d p' = s then a else blk_at d gs p')"
    and blk: "hp_blk h' = fmupd a (dev_allocator d, ys) (hp_blk h)"
  shows "byte_at h' d gs' p' = byte_at h d gs p'"
proof (cases "slot_of d p' = s")
  case True
  have off: "off_of d p' < nat (quantum d)" using off_bound dev_invD(1) [OF inv] by blast
  then have "ys ! off_of d p' = take (nat (quantum d)) ys ! off_of d p'" by simp
  also have "\<dots> = 0" using off by (simp add: ys)
  finally show ?thesis using True at hole a by (simp add: byte_at_def blk)
next
  case False
  have "blk_at d gs p' \<noteq> a" if "blk_at d gs p' \<noteq> NULL"
    using blk_at_footprint [OF inv that] footprint_allocated [OF inv] a(2) by blast
  then show ?thesis using False at by (auto simp: byte_at_def blk)
qed

lemma ensure_block_ok:
  assumes k: "kernel_ok k" and inv: "dev_inv h d gs" and fits: "alloc_fits k g d"
    and i: "item_of d p < length gs" and arr: "g_arr (gs ! item_of d p) \<noteq> NULL"
  obtains b h' gs' where
    "ensure_block k g d (quantum d) (g_arr (gs ! item_of d p)) (int (slot_of d p)) h = Inr (b, h')"
    and "evolves h d gs h' d gs'" and "if b = NULL then blk_source k d h = NULL else blk_at d gs' p = b"
proof -
  define x where "x = gs ! item_of d p"
  obtain as bs where gs: "gs = as @ x # bs" and las: "length as = item_of d p"
    using split_at [OF i] x_def by blast
  note inv' = inv [unfolded gs] and arr' = arr [folded x_def]
  have s: "slot_of d p' < nat (qset d)" for p' using slot_bound dev_invD(1) [OF inv] by blast
  have "node_ok h d x" using dev_invD(3) [OF inv', of x] by simp
  with arr' have pt: "fmlookup (hp_ptrs h) (g_arr x) = Some (g_blks x)" "length (g_blks x) = nat (qset d)"
    by (simp_all add: node_ok_def)
  show thesis
  proof (cases "g_blks x ! slot_of d p = NULL")
    case False
    have "blk_at d gs p = g_blks x ! slot_of d p"
      using i arr by (simp add: blk_at_def x_def)
    moreover have "ensure_block k g d (quantum d) (g_arr x) (int (slot_of d p)) h =
        Inr (g_blks x ! slot_of d p, h)"
      using False pt arr' s by (simp add: ensure_block_def get_ptr_def load_def)
    ultimately show thesis
      using evolves_refl [OF inv] False by (intro that [of "g_blks x ! slot_of d p" h gs]) (simp_all add: x_def)
  next
    case True
    show thesis
    proof (rule ensure_block_fresh [OF fits k inv' arr' s True])
      assume "blk_source k d h = NULL"
        "ensure_block k g d (quantum d) (g_arr x) (int (slot_of d p)) h = Inr (NULL, h)"
      with evolves_refl [OF inv] show thesis by (intro that [of NULL h gs]) (simp_all add: x_def)
    next
      fix a ys
      assume a: "a \<noteq> NULL" "a \<notin> allocated h" and ys: "nat (quantum d) \<le> length ys"
          "take (nat (quantum d)) ys = replicate (nat (quantum d)) 0"
        and eq: "ensure_block k g d (quantum d) (g_arr x) (int (slot_of d p)) h =
         Inr (a, h\<lparr>hp_ptrs := fmupd (g_arr x) ((g_blks x)[slot_of d p := a]) (hp_ptrs h),
                   hp_blk := fmupd a (dev_allocator d, ys) (hp_blk h)\<rparr>)" (is "_ = Inr (a, ?h')")
      let ?x' = "x\<lparr>g_blks := (g_blks x)[slot_of d p := a]\<rparr>"
      note sw = new_block_swapped [OF inv' arr' s True a ys(1)]
      have at: "blk_at d (as @ ?x' # bs) p' = (if slot_of d p' = slot_of d p then a else blk_at d gs p')"
        if "item_of d p' = length as" for p'
        using that arr' s pt(2) by (simp add: blk_at_def gs nth_list_update)
      have "byte_at ?h' d (as @ ?x' # bs) p' = byte_at h d gs p'" if "item_of d p' = length as" for p'
        using that True arr' by (intro new_block_bytes [OF inv a ys _ at]) (simp_all add: blk_at_def gs)
      moreover have "blk_at d gs p' \<noteq> NULL \<Longrightarrow> slot_of d p' \<noteq> slot_of d p" if "item_of d p' = length as" for p'
        using that True arr' by (auto simp: blk_at_def gs)
      ultimately have "evolves h d gs ?h' d (as @ ?x' # bs)"
        using swapped_evolves [OF sw] at unfolding gs by presburger
      with eq at [of p] las a show thesis by (intro that [of a ?h' "as @ ?x' # bs"]) (simp_all add: x_def)
    qed
  qed
qed

subsection \<open>Storing into a block\<close>

text \<open>No block of a device serves two places of its file.\<close>

lemma blk_at_inject:
  assumes inv: "dev_inv h d gs" and eq: "blk_at d gs p' = blk_at d gs p" and "blk_at d gs p \<noteq> NULL"
  shows "item_of d p' = item_of d p \<and> slot_of d p' = slot_of d p"
proof -
  let ?xss = "map g_blks gs"
  have len: "length (g_blks (gs ! i)) = nat (qset d)" if "i < length gs" "g_arr (gs ! i) \<noteq> NULL" for i
    using dev_invD(3) [OF inv, of "gs ! i"] that by (auto simp: node_ok_def)
  have at: "item_of d q < length gs" "slot_of d q < length (g_blks (gs ! item_of d q))"
    "blk_at d gs q = ?xss ! item_of d q ! slot_of d q" if "blk_at d gs q \<noteq> NULL" for q
    using that len slot_bound [OF dev_invD(1) [OF inv], of q] by (auto simp: blk_at_def split: if_splits)
  have "distinct (filter (\<lambda>b. b \<noteq> NULL) (concat ?xss))"
    using dev_invD(5) [OF inv] by (simp add: blk_addrs_def)
  then show ?thesis
    using at [of p] at [of p'] assms
    by (intro distinct_concat_nth [of "\<lambda>b. b \<noteq> NULL" ?xss]) simp_all
qed

lemma store_inv:
  assumes inv: "dev_inv h d gs" and "b \<in> set (blk_addrs gs)"
    and "fmlookup (hp_blk h) b = Some (al, bs)" and "length bs' = length bs"
  shows "dev_inv (h\<lparr>hp_blk := fmupd b (al, bs') (hp_blk h)\<rparr>) d gs"
    and "framed h gs (h\<lparr>hp_blk := fmupd b (al, bs') (hp_blk h)\<rparr>) gs"
proof -
  let ?h' = "h\<lparr>hp_blk := fmupd b (al, bs') (hp_blk h)\<rparr>"
  have "blk_ok h d a \<Longrightarrow> blk_ok ?h' d a" for a
    using assms(3,4) by (auto simp: blk_ok_def split: option.splits)
  then have "node_ok h d x \<Longrightarrow> node_ok ?h' d x" for x
    unfolding node_ok_def by (auto elim!: list.pred_mono_strong)
  moreover have "chain ?h' p gs NULL \<longleftrightarrow> chain h p gs NULL" for p
    by (rule chain_frame) simp
  ultimately show "dev_inv ?h' d gs"
    using inv by (auto simp: dev_inv_def list_all_iff)
  show "framed h gs ?h' gs"
    using assms(2,3) by (auto simp: framed_def grows_in_def allocated_def)
qed

lemma store_bytes:
  assumes inv: "dev_inv h d gs" and nn: "blk_at d gs p \<noteq> NULL"
    and b: "fmlookup (hp_blk h) (blk_at d gs p) = Some (al, bs)"
    and fit: "off_of d p + length new \<le> nat (quantum d)"
    and h': "hp_blk h' = fmupd (blk_at d gs p) (al, overwrite bs (off_of d p) new) (hp_blk h)"
  shows "byte_at h' d gs p' = (if p \<le> p' \<and> p' < p + length new then new ! (p' - p) else byte_at h d gs p')"
proof (cases "item_of d p' = item_of d p \<and> slot_of d p' = slot_of d p")
  case True
  have par: "params_ok d" using inv by (simp add: dev_inv_def)
  have len: "nat (quantum d) \<le> length bs" using blk_at_ok [OF inv nn] b by auto
  have at: "blk_at d gs p' = blk_at d gs p" using True by (simp add: blk_at_def)
  have "p' + off_of d p = p + off_of d p'" using True by (intro same_block) auto
  then have off: "off_of d p \<le> off_of d p' \<and> off_of d p' < off_of d p + length new \<longleftrightarrow>
      p \<le> p' \<and> p' < p + length new" "off_of d p \<le> off_of d p' \<Longrightarrow> off_of d p' - off_of d p = p' - p"
    by auto
  have "overwrite bs (off_of d p) new ! off_of d p' =
      (if p \<le> p' \<and> p' < p + length new then new ! (p' - p) else bs ! off_of d p')"
    using fit len off off_bound [OF par, of p'] by (subst nth_overwrite) auto
  with at nn b show ?thesis by (simp add: byte_at_def h')
next
  case False
  then have ne: "blk_at d gs p' \<noteq> blk_at d gs p" using blk_at_inject [OF inv _ nn] by blast
  have "\<not> (p \<le> p' \<and> p' < p + length new)"
  proof
    assume "p \<le> p' \<and> p' < p + length new"
    then have "p' = p + (p' - p)" "off_of d p + (p' - p) < nat (quantum d)" using fit by auto
    with step_in_block [OF dev_invD(1) [OF inv], of p "p' - p"] False show False by simp
  qed
  with ne show ?thesis by (auto simp: byte_at_def h')
qed

end
