(* ===== verification/Scull_Halves.thy ===== *)
theory Scull_Halves
  imports Scull_Base
begin

text \<open>
  \<open>scull_read\<close> and \<open>scull_write\<close> cut in two at the moment they have found their block. Run one after the other,
  the halves are the handler; the second half starts by loading the block again, as the C code does, so that it can be
  asked what happens when something runs in between.
\<close>

section \<open>The handlers in two halves\<close>

text \<open>
  The first halves run with the semaphore held and return the node, the slot and the offset (\<open>None\<close>: the
  handler leaves through \<open>out\<close>); the second halves load \<open>dptr->data[s_pos]\<close> again.
\<close>

definition read_locate ::
  "kernel \<Rightarrow> scull_dev \<Rightarrow> scull_dev \<Rightarrow> heap \<Rightarrow> int \<Rightarrow> ((addr \<times> int \<times> int) option \<times> scull_dev \<times> heap) res" where
  "read_locate k d0 d h pos =
     (let itemsize = s32 (quantum d0 * qset d0) in
      bindE (cdiv pos itemsize) (\<lambda>item.
      bindE (cmod pos itemsize) (\<lambda>rest.
      bindE (cdiv (s32 rest) (quantum d0)) (\<lambda>s_pos.
      bindE (cmod (s32 rest) (quantum d0)) (\<lambda>q_pos.
      bindE (scull_follow k (data d) (s32 item) h) (\<lambda>(dptr, head, h1).
      let d = d\<lparr>data := head\<rparr> in
      if dptr = NULL then Inr (None, d, h1)
      else bindE (get_qset h1 dptr) (\<lambda>q.
      if qs_data q = NULL then Inr (None, d, h1)
      else bindE (get_ptr h1 (qs_data q) s_pos) (\<lambda>blk.
      if blk = NULL then Inr (None, d, h1) else Inr (Some (dptr, s_pos, q_pos), d, h1)))))))))"

definition read_rest ::
  "kernel \<Rightarrow> int \<Rightarrow> int \<Rightarrow> addr \<Rightarrow> int \<Rightarrow> int \<Rightarrow> nat \<Rightarrow> int \<Rightarrow> scull_dev \<Rightarrow> heap \<Rightarrow> io_result res" where
  "read_rest k left quant dptr s_pos q_pos count pos d h =
     bindE (get_qset h dptr) (\<lambda>q.
     bindE (get_ptr h (qs_data q) s_pos) (\<lambda>blk. read_block k left quant q_pos count pos blk d h))"

definition write_locate ::
  "kernel \<Rightarrow> scull_globals \<Rightarrow> scull_dev \<Rightarrow> scull_dev \<Rightarrow> heap \<Rightarrow> int \<Rightarrow> ((addr \<times> int \<times> int) option \<times> scull_dev \<times> heap) res" where
  "write_locate k g d0 d h pos =
     (let qset_size = s32 (qset d0 * quantum d0) in
      bindE (cdiv pos qset_size) (\<lambda>item.
      bindE (cmod pos qset_size) (\<lambda>rest.
      bindE (cdiv (s32 rest) (quantum d0)) (\<lambda>s_pos.
      bindE (cmod (s32 rest) (quantum d0)) (\<lambda>q_pos.
      bindE (scull_follow k (data d) (s32 item) h) (\<lambda>(dptr, head, h1).
      let d = d\<lparr>data := head\<rparr> in
      if dptr = NULL then Inr (None, d, h1)
      else bindE (ensure_array k (qset d0) dptr h1) (\<lambda>(arr, h2).
      if arr = NULL then Inr (None, d, h2)
      else bindE (ensure_block k g d (quantum d0) arr s_pos h2) (\<lambda>(blk, h3).
      if blk = NULL then Inr (None, d, h3) else Inr (Some (dptr, s_pos, q_pos), d, h3)))))))))"

definition write_rest ::
  "kernel \<Rightarrow> addr \<Rightarrow> int \<Rightarrow> int \<Rightarrow> byte list \<Rightarrow> nat \<Rightarrow> int \<Rightarrow> scull_dev \<Rightarrow> heap \<Rightarrow> io_result res" where
  "write_rest k dptr s_pos q_pos ubuf count pos d h =
     bindE (get_qset h dptr) (\<lambda>q.
     bindE (get_ptr h (qs_data q) s_pos) (\<lambda>blk. write_block k q_pos ubuf count pos blk d h))"

text \<open>The second load of the block finds what the first has found or stored.\<close>

lemma reload_read:
  "bindE (get_qset h dptr) (\<lambda>q. if qs_data q = NULL then stop
     else bindE (get_ptr h (qs_data q) s_pos) (\<lambda>blk. if blk = NULL then stop else go blk)) =
   bindE (get_qset h dptr) (\<lambda>q. if qs_data q = NULL then stop
     else bindE (get_ptr h (qs_data q) s_pos) (\<lambda>blk. if blk = NULL then stop
       else bindE (get_qset h dptr) (\<lambda>q. bindE (get_ptr h (qs_data q) s_pos) go)))"
  by (intro bindE_cong [OF refl]) (auto intro: bindE_cong [OF refl])

lemma ensure_array_stored:
  assumes "ensure_array k n dptr h = Inr (arr, h')"
  obtains q where "get_qset h' dptr = Inr q" and "qs_data q = arr"
  using assms by (auto simp: ensure_array_def get_qset_def put_qset_def split: if_splits prod.splits)

lemma scull_alloc_frame: "scull_alloc k g d h = Inr (b, h') \<Longrightarrow> hp_qset h' = hp_qset h \<and> hp_ptrs h' = hp_ptrs h"
  by (auto simp: scull_alloc_def new_blk_def Let_def split: scull_type.splits option.splits if_splits)

lemma set_ptr_frame: "set_ptr h a i v = Inr h' \<Longrightarrow> hp_qset h' = hp_qset h \<and> get_ptr h' a i = Inr v"
  by (clarsimp simp: set_ptr_def split: if_splits) (simp add: get_ptr_def load_def)

lemma write_blk_frame: "write_blk h a i bs = Inr h' \<Longrightarrow> hp_qset h' = hp_qset h \<and> get_ptr h' = get_ptr h"
  by (auto simp: write_blk_def get_ptr_def fun_eq_iff)

lemma ensure_block_stored:
  assumes "ensure_block k g d n arr s_pos h = Inr (blk, h')"
  shows "hp_qset h' = hp_qset h \<and> get_ptr h' arr s_pos = Inr blk"
proof -
  from assms obtain b where b: "get_ptr h arr s_pos = Inr b" by (auto simp: ensure_block_def)
  show ?thesis
  proof (cases "b = NULL")
    case True
    with assms b obtain h1 h2 where "scull_alloc k g d h = Inr (blk, h1)" "set_ptr h1 arr s_pos blk = Inr h2"
      and h': "h' = h2 \<or> write_blk h2 blk 0 (replicate (u64 n) 0) = Inr h'"
      by (auto simp: ensure_block_def split: if_splits)
    then have "hp_qset h2 = hp_qset h" "get_ptr h2 arr s_pos = Inr blk"
      by (auto dest!: scull_alloc_frame set_ptr_frame)
    with h' show ?thesis by (auto dest: write_blk_frame)
  qed (use assms b in \<open>simp add: ensure_block_def\<close>)
qed

lemma reload_write:
  assumes "ensure_array k n dptr h = Inr (arr, h1)" and "ensure_block k g d m arr s_pos h1 = Inr (blk, h2)"
  shows "bindE (get_qset h2 dptr) (\<lambda>q. bindE (get_ptr h2 (qs_data q) s_pos) go) = go blk"
proof -
  obtain q where q: "get_qset h1 dptr = Inr q" "qs_data q = arr" by (rule ensure_array_stored [OF assms(1)])
  moreover from this have "get_qset h2 dptr = Inr q" using ensure_block_stored [OF assms(2)] by (simp add: get_qset_def)
  ultimately show ?thesis using ensure_block_stored [OF assms(2)] by simp
qed

lemma scull_read_halves:
  "scull_read k False d0 d h count pos =
     (if pos \<ge> dsize d then Inr \<lparr>ret = 0, pos' = pos, out = [], dev' = up (down d), heap' = h\<rparr>
      else bindE (read_locate k d0 (down d) h pos) (\<lambda>(r, d1, h1). case r of
        None \<Rightarrow> Inr \<lparr>ret = 0, pos' = pos, out = [], dev' = up d1, heap' = h1\<rparr>
      | Some (dptr, s_pos, q_pos) \<Rightarrow>
          read_rest k (s64 (dsize d0 - pos)) (quantum d0) dptr s_pos q_pos count pos d1 h1))"
proof (cases "pos \<ge> dsize d")
  case True
  then show ?thesis by (simp add: scull_read_def down_def)
next
  case False
  then have "\<not> pos \<ge> dsize (down d)" by (simp add: down_def)
  with False show ?thesis
    unfolding scull_read_def read_locate_def Let_def bindE_assoc if_False read_rest_def
    by (subst reload_read) (simp add: bindE_assoc if_distrib [where f = "\<lambda>m. bindE m f" for f] split_def
        cong: if_cong)
qed

lemma reload_write_stages:
  "bindE (ensure_array k n dptr h) (\<lambda>(arr, h1). if arr = NULL then stop h1
     else bindE (ensure_block k g d m arr s_pos h1) (\<lambda>(blk, h2). if blk = NULL then stop h2 else go blk h2)) =
   bindE (ensure_array k n dptr h) (\<lambda>(arr, h1). if arr = NULL then stop h1
     else bindE (ensure_block k g d m arr s_pos h1) (\<lambda>(blk, h2). if blk = NULL then stop h2
       else bindE (get_qset h2 dptr) (\<lambda>q. bindE (get_ptr h2 (qs_data q) s_pos) (\<lambda>blk. go blk h2))))"
  by (intro bindE_cong [OF refl]) (auto simp: reload_write intro!: bindE_cong [OF refl])

lemma scull_write_halves:
  "scull_write k g False d0 d h ubuf count pos =
     bindE (write_locate k g d0 (down d) h pos) (\<lambda>(r, d1, h1). case r of
        None \<Rightarrow> Inr \<lparr>ret = - ENOMEM, pos' = pos, out = [], dev' = up d1, heap' = h1\<rparr>
      | Some (dptr, s_pos, q_pos) \<Rightarrow> write_rest k dptr s_pos q_pos ubuf count pos d1 h1)"
  unfolding scull_write_def write_locate_def Let_def bindE_assoc if_False write_rest_def
  by (subst reload_write_stages) (simp add: bindE_assoc if_distrib [where f = "\<lambda>m. bindE m f" for f] split_def
      cong: if_cong)

end
