(* ===== verification/Scull_IO.thy ===== *)
theory Scull_IO
  imports Scull_Device Scull_Halves
begin

text \<open>
  \<open>scull_write\<close> and \<open>scull_read\<close> as a whole: every branch of the two handlers, on a device
  that satisfies its invariant.
\<close>

section \<open>Writing\<close>

definition chunk :: "scull_dev \<Rightarrow> nat \<Rightarrow> nat \<Rightarrow> nat" where
  \<comment> \<open>how much of a transfer of \<open>count\<close> bytes at \<open>p\<close> stays within the block of \<open>p\<close>\<close>
  "chunk d p count = min count (nat (quantum d) - off_of d p)"

definition out_of_memory :: "kernel \<Rightarrow> scull_dev \<Rightarrow> bool" where
  "out_of_memory k d \<longleftrightarrow>
     (\<exists>h. kmalloc k h 16 = NULL \<or> kmalloc k h (u64 (8 * qset d)) = NULL \<or> blk_source k d h = NULL)"

text \<open>The three ways a write can end, for \<open>n\<close> bytes at \<open>pos\<close>.\<close>

definition write_done ::
  "scull_dev \<Rightarrow> gnode list \<Rightarrow> heap \<Rightarrow> byte list \<Rightarrow> nat \<Rightarrow> int \<Rightarrow> io_result \<Rightarrow> gnode list \<Rightarrow> bool" where
  "write_done d gs h ubuf n pos r gs' \<longleftrightarrow>
     ret r = int n \<and> pos' r = pos + int n \<and> dsize (dev' r) = dsize d + int n \<and> n \<le> length ubuf \<and>
     blk_at d gs' (nat pos) \<noteq> NULL \<and>
     (\<forall>p. byte_at (heap' r) (dev' r) gs' p =
        (if nat pos \<le> p \<and> p < nat pos + n then ubuf ! (p - nat pos) else byte_at h d gs p))"

definition write_faulted ::
  "scull_dev \<Rightarrow> gnode list \<Rightarrow> heap \<Rightarrow> nat \<Rightarrow> int \<Rightarrow> io_result \<Rightarrow> gnode list \<Rightarrow> bool" where
  "write_faulted d gs h n pos r gs' \<longleftrightarrow>
     ret r = - EFAULT \<and> pos' r = pos \<and> dsize (dev' r) = dsize d \<and>
     (\<forall>p. \<not> (nat pos \<le> p \<and> p < nat pos + n) \<longrightarrow>
        byte_at (heap' r) (dev' r) gs' p = byte_at h d gs p)"

definition write_nomem ::
  "scull_dev \<Rightarrow> gnode list \<Rightarrow> heap \<Rightarrow> int \<Rightarrow> io_result \<Rightarrow> gnode list \<Rightarrow> bool" where
  "write_nomem d gs h pos r gs' \<longleftrightarrow>
     ret r = - ENOMEM \<and> pos' r = pos \<and> dsize (dev' r) = dsize d \<and>
     byte_at (heap' r) (dev' r) gs' = byte_at h d gs"

text \<open>What every ending has in common: the device is still well-formed and nobody else's memory changed.\<close>

definition io_frame ::
  "scull_dev \<Rightarrow> gnode list \<Rightarrow> heap \<Rightarrow> io_result \<Rightarrow> gnode list \<Rightarrow> bool" where
  "io_frame d gs h r gs' \<longleftrightarrow>
     dev_inv (heap' r) (dev' r) gs' \<and> same_shape d (dev' r) \<and> sem (dev' r) = sem d \<and>
     framed h gs (heap' r) gs' \<and> blocks_kept d gs gs'"

definition in_range :: "scull_dev \<Rightarrow> int \<Rightarrow> nat \<Rightarrow> bool" where
  "in_range d pos count \<longleftrightarrow>
     0 \<le> pos \<and> pos < 2 ^ 31 * (quantum d * qset d) \<and> pos + int count < 2 ^ 63 \<and>
     0 \<le> dsize d \<and> dsize d + int count < 2 ^ 63"

lemma follow_stage:
  assumes k: "kernel_ok k" and inv: "dev_inv h d gs"
  obtains r head h1 gs1 where "scull_follow k (data d) (int i) h = Inr (r, head, h1)"
    and "evolves h d gs h1 (d\<lparr>data := head\<rparr>) gs1"
    and "if r = NULL then kmalloc k h1 16 = NULL else i < length gs1 \<and> r = g_addr (gs1 ! i)"
proof -
  obtain r head h1 gs1 where f: "scull_follow k (data d) (int i) h = Inr (r, head, h1)"
    "chain h1 head gs1 NULL" "grown h gs h1 gs1"
    "if r = NULL then kmalloc k h1 16 = NULL
     else length gs1 = max (length gs) (nat (int i) + 1) \<and> r = g_addr (gs1 ! nat (int i))"
    by (rule scull_follow_ok [OF k dev_invD(2) [OF inv], of "int i"]) simp_all
  then have "if r = NULL then kmalloc k h1 16 = NULL else i < length gs1 \<and> r = g_addr (gs1 ! i)"
    by (auto split: if_splits)
  with f(1) grown_evolves [OF inv f(2,3)] show thesis by (rule that)
qed

lemma write_block_ok:
  assumes k: "kernel_ok k" and inv: "dev_inv h d gs" and nn: "blk_at d gs (nat pos) \<noteq> NULL"
    and rng: "in_range d pos count"
  defines "n \<equiv> chunk d (nat pos) count"
  obtains r where "write_block k (int (off_of d (nat pos))) ubuf count pos (blk_at d gs (nat pos)) d h = Inr r"
    and "dev_inv (heap' r) (dev' r) gs" and "same_shape d (dev' r)" and "sem (dev' r) = sem d + 1"
    and "framed h gs (heap' r) gs"
    and "if fst (copy_from_user k ubuf n) = 0 then write_done d gs h ubuf n pos r gs
         else write_faulted d gs h n pos r gs"
proof -
  let ?b = "blk_at d gs (nat pos)" and ?o = "off_of d (nat pos)"
  obtain bs where b: "fmlookup (hp_blk h) ?b = Some (dev_allocator d, bs)" "nat (quantum d) \<le> length bs"
    "?b \<in> set (blk_addrs gs)"
    using blk_at_ok [OF inv nn] by blast
  have par: "params_ok d" using inv by (simp add: dev_inv_def)
  have off: "?o < nat (quantum d)" using off_bound [OF par] .
  obtain l new where c: "copy_from_user k ubuf n = (l, new)" by (cases "copy_from_user k ubuf n")
  have len: "length new = n" and all: "l = 0 \<Longrightarrow> new = take n ubuf"
    using length_copied [OF k, of ubuf n] copied_all [OF k, of ubuf n] c by simp_all
  have "u64 (quantum d - int ?o) = nat (quantum d) - ?o"
    using off params_bounds(3) [OF par] by (simp add: u64_id nat_diff_distrib')
  then have n: "(if count > u64 (quantum d - int ?o) then u64 (quantum d - int ?o) else count) = n"
    by (simp add: n_def chunk_def min_def)
  have fit: "?o + length new \<le> nat (quantum d)" using off by (simp add: len n_def chunk_def)
  define h1 where "h1 = h\<lparr>hp_blk := fmupd ?b (dev_allocator d, overwrite bs ?o new) (hp_blk h)\<rparr>"
  have w: "write_blk h ?b (int ?o) new = Inr h1"
    using b nn fit by (simp add: write_blk_def load_def poke_def h1_def)
  have inv1: "dev_inv h1 d gs" "framed h gs h1 gs"
    unfolding h1_def using fit b by (intro store_inv [OF inv b(3,1)]; simp)+
  have bytes: "byte_at h1 d gs p = (if nat pos \<le> p \<and> p < nat pos + n then new ! (p - nat pos) else byte_at h d gs p)" for p
    unfolding len [symmetric] by (rule store_bytes [OF inv nn b(1) fit]) (simp add: h1_def)
  have nc: "n \<le> count" by (simp add: n_def chunk_def)
  have r64: "s64 (int n) = int n" "s64 (pos + int n) = pos + int n" "s64 (dsize d + int n) = dsize d + int n"
    using rng nc by (auto intro!: s64_id simp: in_range_def)
  have sh: "same_shape d (up d)" "same_shape d (up (d\<lparr>dsize := z\<rparr>))" for z
    by (simp_all add: same_shape_def up_def)
  show thesis
  proof (cases "l = 0")
    case True
    have "n \<le> length ubuf" using len all [OF True] by simp
    then have "write_done d gs h ubuf n pos
      \<lparr>ret = int n, pos' = pos + int n, out = [], dev' = up (d\<lparr>dsize := dsize d + int n\<rparr>), heap' = h1\<rparr> gs"
      using nn by (simp add: write_done_def same_shape_contents [OF sh(2)] bytes all [OF True])
        (auto simp: up_def)
    with True show thesis
      using inv1 c by (intro that) (simp_all add: write_block_def n w r64 Let_def up_def same_shape_def)
  next
    case False
    have "write_faulted d gs h n pos \<lparr>ret = - EFAULT, pos' = pos, out = [], dev' = up d, heap' = h1\<rparr> gs"
      by (simp add: write_faulted_def same_shape_contents [OF sh(1)] bytes) (simp add: up_def)
    with False show thesis
      using inv1 c by (intro that) (simp_all add: write_block_def n w Let_def up_def same_shape_def)
  qed
qed


text \<open>Where a write stands once the semaphore is held and the list head may have been set.\<close>

definition write_outcome ::
  "kernel \<Rightarrow> scull_dev \<Rightarrow> gnode list \<Rightarrow> heap \<Rightarrow> byte list \<Rightarrow> nat \<Rightarrow> int \<Rightarrow> io_result \<Rightarrow> gnode list \<Rightarrow> bool" where
  "write_outcome k d gs h ubuf n pos r gs' \<longleftrightarrow>
     io_frame d gs h r gs' \<and>
     (fst (copy_from_user k ubuf n) = 0 \<and> write_done d gs h ubuf n pos r gs' \<or>
      fst (copy_from_user k ubuf n) \<noteq> 0 \<and> write_faulted d gs h n pos r gs' \<or>
      out_of_memory k d \<and> write_nomem d gs h pos r gs')"

lemma held_shape: "same_shape d ((down d)\<lparr>data := head\<rparr>)"
  by (simp add: same_shape_def down_def)

lemma write_outcome_nomem:
  assumes ev: "evolves h (down d) gs h' ((down d)\<lparr>data := head\<rparr>) gs'" and oom: "out_of_memory k d"
  shows "write_outcome k d gs h ubuf n pos
    \<lparr>ret = - ENOMEM, pos' = pos, out = [], dev' = up ((down d)\<lparr>data := head\<rparr>), heap' = h'\<rparr> gs'"
proof -
  have 1: "same_shape d (down d)" and 2: "same_shape d (up ((down d)\<lparr>data := head\<rparr>))"
    by (simp_all add: same_shape_def down_def up_def)
  from ev have "byte_at h' (up ((down d)\<lparr>data := head\<rparr>)) gs' = byte_at h d gs"
    unfolding evolves_def same_shape_contents [OF 1] same_shape_contents [OF 2] same_shape_contents [OF held_shape]
    by blast
  with ev oom show ?thesis
    by (simp add: write_outcome_def io_frame_def write_nomem_def evolves_def 2 same_shape_kept [OF 1]) (simp add: up_def down_def)
qed

lemma same_shape_accesses:
  assumes "same_shape d d'"
  shows "chunk d' = chunk d" "out_of_memory k d' = out_of_memory k d" "alloc_fits k g d' = alloc_fits k g d"
proof -
  from assms have eqs: "quantum d' = quantum d" "qset d' = qset d" "order d' = order d" "dtype d' = dtype d"
    by (simp_all add: same_shape_def)
  show "chunk d' = chunk d" "out_of_memory k d' = out_of_memory k d" "alloc_fits k g d' = alloc_fits k g d"
    unfolding fun_eq_iff chunk_def out_of_memory_def alloc_fits_def blk_source_def eqs
      same_shape_positions [OF assms] by simp_all
qed

lemma write_outcome_block:
  assumes k: "kernel_ok k" and ev: "evolves h (down d) gs h' ((down d)\<lparr>data := head\<rparr>) gs'"
    and at: "blk_at d gs' (nat pos) \<noteq> NULL" and rng: "in_range d pos count"
  obtains r where "write_block k (int (off_of d (nat pos))) ubuf count pos (blk_at d gs' (nat pos))
      ((down d)\<lparr>data := head\<rparr>) h' = Inr r"
    and "write_outcome k d gs h ubuf (chunk d (nat pos) count) pos r gs'"
proof -
  let ?d = "(down d)\<lparr>data := head\<rparr>"
  have dn: "same_shape d (down d)" by (simp add: same_shape_def down_def)
  note sh = same_shape_contents [OF held_shape] same_shape_positions [OF held_shape]
    same_shape_accesses [OF held_shape]
  from ev have inv: "dev_inv h' ?d gs'" and fr: "framed h gs h' gs'"
    and same: "byte_at h' d gs' = byte_at h d gs" and kept: "blocks_kept d gs gs'"
    by (simp_all add: evolves_def sh same_shape_contents [OF dn] same_shape_kept [OF dn])
  have rng': "in_range ?d pos count"
    using rng by (simp add: in_range_def down_def)
  obtain r where r: "write_block k (int (off_of ?d (nat pos))) ubuf count pos (blk_at ?d gs' (nat pos)) ?d h' = Inr r"
    "dev_inv (heap' r) (dev' r) gs'" "same_shape ?d (dev' r)" "sem (dev' r) = sem ?d + 1"
    "framed h' gs' (heap' r) gs'"
    "if fst (copy_from_user k ubuf (chunk ?d (nat pos) count)) = 0
     then write_done ?d gs' h' ubuf (chunk ?d (nat pos) count) pos r gs'
     else write_faulted ?d gs' h' (chunk ?d (nat pos) count) pos r gs'"
    using write_block_ok [OF k inv _ rng'] at unfolding sh by metis
  have "io_frame d gs h r gs'"
    using r same_shape_trans [OF held_shape r(3)] framed_trans [OF fr r(5)] kept by (simp add: io_frame_def down_def)
  moreover have sz: "dsize ?d = dsize d" by (simp add: down_def)
  ultimately have "write_outcome k d gs h ubuf (chunk d (nat pos) count) pos r gs'"
    using r(6) by (auto simp: write_outcome_def write_done_def write_faulted_def same sh split: if_splits)
  with r(1) show thesis unfolding sh by (rule that)
qed

text \<open>The array and the block of the node of position \<open>p\<close>: one of them cannot be allocated, or both are there.\<close>

lemma block_stage:
  assumes k: "kernel_ok k" and inv: "dev_inv h d gs" and fits: "alloc_fits k g d" and i: "item_of d p < length gs"
  obtains (array) h' gs' where "ensure_array k (qset d) (g_addr (gs ! item_of d p)) h = Inr (NULL, h')"
      and "out_of_memory k d" and "evolves h d gs h' d gs'"
  | (block) arr h1 h' gs' where "ensure_array k (qset d) (g_addr (gs ! item_of d p)) h = Inr (arr, h1)" and "arr \<noteq> NULL"
      and "ensure_block k g d (quantum d) arr (int (slot_of d p)) h1 = Inr (NULL, h')"
      and "out_of_memory k d" and "evolves h d gs h' d gs'"
  | (found) arr h1 h' gs' where "ensure_array k (qset d) (g_addr (gs ! item_of d p)) h = Inr (arr, h1)" and "arr \<noteq> NULL"
      and "ensure_block k g d (quantum d) arr (int (slot_of d p)) h1 = Inr (blk_at d gs' p, h')"
      and "blk_at d gs' p \<noteq> NULL" and "evolves h d gs h' d gs'"
proof -
  obtain arr h1 gs1 where a: "ensure_array k (qset d) (g_addr (gs ! item_of d p)) h = Inr (arr, h1)"
    "evolves h d gs h1 d gs1" "length gs1 = length gs"
    "if arr = NULL then kmalloc k h (u64 (8 * qset d)) = NULL else g_arr (gs1 ! item_of d p) = arr"
    by (rule ensure_array_ok [OF k inv i])
  show thesis
  proof (cases "arr = NULL")
    case True
    then have "out_of_memory k d" using a(4) by (auto simp: out_of_memory_def)
    with a(1,2) True show thesis by (intro array) auto
  next
    case False
    then have "g_arr (gs1 ! item_of d p) = arr" "g_arr (gs1 ! item_of d p) \<noteq> NULL" using a(4) by simp_all
    moreover have "dev_inv h1 d gs1" using a(2) by (simp add: evolves_def)
    ultimately obtain blk h' gs' where b: "ensure_block k g d (quantum d) arr (int (slot_of d p)) h1 = Inr (blk, h')"
      "evolves h1 d gs1 h' d gs'" "if blk = NULL then blk_source k d h1 = NULL else blk_at d gs' p = blk"
      using ensure_block_ok [OF k _ fits, of h1 gs1 p] i a(3) by metis
    note ev = evolves_trans [OF a(2) b(2)]
    show thesis
    proof (cases "blk = NULL")
      case True
      then have "out_of_memory k d" using b(3) by (auto simp: out_of_memory_def)
      with a(1) b(1) False True show thesis by (intro block [OF _ _ _ _ ev]) simp_all
    qed (use a(1) b(1,3) False in \<open>intro found [OF _ _ _ _ ev]; simp\<close>)
  qed
qed

lemma write_locate_ok:
  assumes k: "kernel_ok k" and inv: "dev_inv h d gs" and fits: "alloc_fits k g d" and rng: "in_range d pos count"
  obtains (nomem) head h1 gs1 where "write_locate k g d (down d) h pos = Inr (None, (down d)\<lparr>data := head\<rparr>, h1)"
      and "out_of_memory k d" and "evolves h (down d) gs h1 ((down d)\<lparr>data := head\<rparr>) gs1"
  | (found) dptr head h1 gs1 where
      "write_locate k g d (down d) h pos = Inr (Some (dptr, int (slot_of d (nat pos)), int (off_of d (nat pos))), (down d)\<lparr>data := head\<rparr>, h1)"
      and "evolves h (down d) gs h1 ((down d)\<lparr>data := head\<rparr>) gs1" and "dptr \<in> set (map g_addr gs1)" and "dptr \<noteq> NULL"
      and "blk_at d gs1 (nat pos) \<noteq> NULL"
      and "\<And>go :: addr \<Rightarrow> io_result res. bindE (get_qset h1 dptr) (\<lambda>q. bindE (get_ptr h1 (qs_data q) (int (slot_of d (nat pos)))) go) = go (blk_at d gs1 (nat pos))"
proof -
  let ?p = "nat pos" and ?i = "item_of d (nat pos)"
  have pos: "0 \<le> pos" "pos < 2 ^ 31 * (quantum d * qset d)" using rng by (simp_all add: in_range_def)
  note ar = position_arith [OF dev_invD(1) [OF inv] pos, unfolded mult.commute [of "quantum d"]]
  have inv1: "dev_inv h (down d) gs" using inv by simp
  obtain dptr head h1 gs1 where f: "scull_follow k (data (down d)) (int ?i) h = Inr (dptr, head, h1)"
    "evolves h (down d) gs h1 ((down d)\<lparr>data := head\<rparr>) gs1"
    "if dptr = NULL then kmalloc k h1 16 = NULL else ?i < length gs1 \<and> dptr = g_addr (gs1 ! ?i)"
    by (rule follow_stage [OF k inv1])
  let ?d = "(down d)\<lparr>data := head\<rparr>"
  have inv2: "dev_inv h1 ?d gs1" using f(2) by (simp add: evolves_def)
  have q: "quantum ?d = quantum d" "qset ?d = qset d" by (simp_all add: down_def)
  note sh = same_shape_contents [OF held_shape [of d head]] same_shape_positions [OF held_shape [of d head]]
    same_shape_accesses [OF held_shape [of d head]]
  note W = write_locate_def [of k g d "down d" h pos] Let_def ar f(1)
  show thesis
  proof (cases "dptr = NULL")
    case True
    then have "out_of_memory k d" using f(3) by (auto simp: out_of_memory_def)
    with True f(2) show thesis by (intro nomem) (auto simp: W)
  next
    case False
    with f(3) have i: "?i < length gs1" and dptr: "dptr = g_addr (gs1 ! ?i)" by auto
    have "alloc_fits k g ?d" "item_of ?d ?p < length gs1" using fits i by (simp_all only: sh)
    from block_stage [OF k inv2 this, unfolded sh q, folded dptr] show thesis
    proof cases
      case (1 h' gs')
      with False show thesis by (intro nomem [OF _ _ evolves_trans [OF f(2)]]) (auto simp: W)
    next
      case (2 arr h2 h' gs')
      with False show thesis by (intro nomem [OF _ _ evolves_trans [OF f(2)]]) (auto simp: W)
    next
      case (3 arr h2 h' gs')
      note found = this
      have "framed h1 gs1 h' gs'" using found(5) by (simp add: evolves_def)
      then have "dptr \<in> set (map g_addr gs')" using i dptr by (auto simp: framed_def grows_in_def)
      with False found reload_write [OF found(1,3)] show thesis
        by (intro that(2) [OF _ evolves_trans [OF f(2) found(5)]]) (auto simp: W)
    qed
  qed
qed

lemma scull_write_cases:
  assumes k: "kernel_ok k" and inv: "dev_inv h d gs" and fits: "alloc_fits k g d"
    and rng: "in_range d pos count"
  obtains r gs' where "scull_write k g False d d h ubuf count pos = Inr r"
    and "write_outcome k d gs h ubuf (chunk d (nat pos) count) pos r gs'"
proof (cases rule: write_locate_ok [OF k inv fits rng])
  case (1 head h1 gs1)
  from write_outcome_nomem [OF 1(3,2)] 1(1) show thesis by (intro that) (simp_all add: scull_write_halves)
next
  case (2 dptr head h1 gs1)
  from write_outcome_block [OF k 2(2,5) rng] obtain r where
    "write_block k (int (off_of d (nat pos))) ubuf count pos (blk_at d gs1 (nat pos)) ((down d)\<lparr>data := head\<rparr>) h1 = Inr r"
    "write_outcome k d gs h ubuf (chunk d (nat pos) count) pos r gs1" by metis
  with 2(1,6) show thesis by (intro that) (simp_all add: scull_write_halves write_rest_def)
qed

section \<open>Reading\<close>

text \<open>A node that is there is found without touching memory; a node that is not is a hole.\<close>

lemma follow_loop_hit:
  "chain h p gs NULL \<Longrightarrow> n \<le> length gs \<Longrightarrow>
   follow_loop k n p prev h = Inr (if n = 0 then prev else g_addr (gs ! (n - 1)), h)"
proof (induction n arbitrary: p gs prev)
  case (Suc n)
  then obtain g gs1 q where "gs = g # gs1" "g_addr g = p" "p \<noteq> NULL" "fmlookup (hp_qset h) p = Some q"
    "chain h (qs_next q) gs1 NULL"
    by (cases gs) (auto split: option.splits)
  with Suc.IH [of "qs_next q" gs1 p] Suc.prems show ?case
    by (auto simp: get_qset_def load_def nth_Cons split: nat.splits)
qed simp

lemma scull_follow_hit:
  "chain h p gs NULL \<Longrightarrow> i < length gs \<Longrightarrow> scull_follow k p (int i) h = Inr (g_addr (gs ! i), p, h)"
  using follow_loop_hit [of h p gs "Suc i" k NULL]
  by (auto simp: scull_follow_def nat_add_distrib simp del: follow_loop.simps)

lemma located:
  assumes inv: "dev_inv h d gs" and i: "item_of d p < length gs"
  obtains q where "scull_follow k (data d) (int (item_of d p)) h = Inr (g_addr (gs ! item_of d p), data d, h)"
    and "get_qset h (g_addr (gs ! item_of d p)) = Inr q" and "g_addr (gs ! item_of d p) \<noteq> NULL"
    and "if qs_data q = NULL then blk_at d gs p = NULL
         else get_ptr h (qs_data q) (int (slot_of d p)) = Inr (blk_at d gs p)"
proof -
  define x where "x = gs ! item_of d p"
  obtain as bs where "gs = as @ x # bs" using split_at [OF i] by (auto simp: x_def)
  then obtain q where q: "fmlookup (hp_qset h) (g_addr x) = Some q" "g_addr x \<noteq> NULL" "qs_data q = g_arr x"
    using chain_node dev_invD(2) [OF inv] by metis
  have "if g_arr x = NULL then blk_at d gs p = NULL
    else get_ptr h (g_arr x) (int (slot_of d p)) = Inr (blk_at d gs p)"
    using i dev_invD(3) [OF inv, of x] slot_bound [OF dev_invD(1) [OF inv], of p]
    by (simp add: blk_at_def get_ptr_def load_def node_ok_def x_def)
  with q scull_follow_hit [OF dev_invD(2) [OF inv] i, of k] show thesis
    by (intro that [of q]) (auto simp: x_def get_qset_def)
qed

lemma scull_follow_miss:
  assumes k: "kernel_ok k" and c: "chain h p gs NULL" and i: "length gs \<le> i"
  obtains r head h' gs' where "scull_follow k p (int i) h = Inr (r, head, h')"
    and "chain h' head gs' NULL" and "grown h gs h' gs'"
    and "if r = NULL then kmalloc k h' 16 = NULL else \<exists>q. fmlookup (hp_qset h') r = Some q \<and> qs_data q = NULL"
proof -
  obtain r head h' gs' where f: "scull_follow k p (int i) h = Inr (r, head, h')"
    "chain h' head gs' NULL" "grown h gs h' gs'"
    "if r = NULL then kmalloc k h' 16 = NULL
     else length gs' = max (length gs) (nat (int i) + 1) \<and> r = g_addr (gs' ! nat (int i))"
    by (rule scull_follow_ok [OF k c, of "int i"]) simp_all
  have "\<exists>q. fmlookup (hp_qset h') r = Some q \<and> qs_data q = NULL" if "r \<noteq> NULL"
  proof -
    from that f(4) have i': "i < length gs'" and r: "r = g_addr (gs' ! i)" by auto
    from f(3) obtain as where "gs' = gs @ map empty_node as" by (auto simp: grown_def)
    with i' i have "g_arr (gs' ! i) = NULL" by (auto simp: nth_append)
    moreover obtain xs ys where gs': "gs' = xs @ gs' ! i # ys" using split_at [OF i'] by blast
    then have "chain h' head (xs @ gs' ! i # ys) NULL" using f(2) by simp
    ultimately show ?thesis using chain_node r by metis
  qed
  with f show thesis by (intro that) (auto split: if_splits)
qed

definition read_outcome ::
  "kernel \<Rightarrow> scull_dev \<Rightarrow> gnode list \<Rightarrow> heap \<Rightarrow> nat \<Rightarrow> int \<Rightarrow> io_result \<Rightarrow> gnode list \<Rightarrow> bool" where
  "read_outcome k d gs h count pos r gs' \<longleftrightarrow>
     io_frame d gs h r gs' \<and> dsize (dev' r) = dsize d \<and>
     byte_at (heap' r) (dev' r) gs' = byte_at h d gs \<and>
     (if pos \<ge> dsize d \<or> blk_at d gs (nat pos) = NULL
      then ret r = 0 \<and> pos' r = pos \<and> out r = []
      else let n = min (chunk d (nat pos) count) (nat (dsize d - pos)) in
           out r = map (byte_at h d gs) [nat pos ..< nat pos + n] \<and>
           (if copy_to_user k (out r) = 0 then ret r = int n \<and> pos' r = pos + int n
            else ret r = - EFAULT \<and> pos' r = pos))"

text \<open>The same for a read that has a limit of its own for the count.\<close>

definition read_upto ::
  "nat \<Rightarrow> kernel \<Rightarrow> scull_dev \<Rightarrow> gnode list \<Rightarrow> heap \<Rightarrow> nat \<Rightarrow> int \<Rightarrow> io_result \<Rightarrow> gnode list \<Rightarrow> bool" where
  "read_upto limit k d gs h count pos r gs' \<longleftrightarrow>
     io_frame d gs h r gs' \<and> dsize (dev' r) = dsize d \<and>
     byte_at (heap' r) (dev' r) gs' = byte_at h d gs \<and>
     (if pos \<ge> dsize d \<or> blk_at d gs (nat pos) = NULL
      then ret r = 0 \<and> pos' r = pos \<and> out r = []
      else let n = min (chunk d (nat pos) count) limit in
           out r = map (byte_at h d gs) [nat pos ..< nat pos + n] \<and>
           (if copy_to_user k (out r) = 0 then ret r = int n \<and> pos' r = pos + int n
            else ret r = - EFAULT \<and> pos' r = pos))"

lemma read_outcome_upto: "read_outcome k d gs h count pos = read_upto (nat (dsize d - pos)) k d gs h count pos"
  by (simp add: fun_eq_iff read_outcome_def read_upto_def)

lemma read_stop:
  assumes ev: "evolves h (down d) gs h' ((down d)\<lparr>data := head\<rparr>) gs'"
    and "pos \<ge> dsize d \<or> blk_at d gs (nat pos) = NULL"
  shows "read_upto limit k d gs h count pos
    \<lparr>ret = 0, pos' = pos, out = [], dev' = up ((down d)\<lparr>data := head\<rparr>), heap' = h'\<rparr> gs'"
proof -
  have 1: "same_shape d (down d)" and 2: "same_shape d (up ((down d)\<lparr>data := head\<rparr>))"
    by (simp_all add: same_shape_def down_def up_def)
  from ev have "byte_at h' (up ((down d)\<lparr>data := head\<rparr>)) gs' = byte_at h d gs"
    unfolding evolves_def same_shape_contents [OF 1] same_shape_contents [OF 2] same_shape_contents [OF held_shape]
    by blast
  with ev assms(2) show ?thesis
    by (simp add: read_upto_def io_frame_def evolves_def 2 same_shape_kept [OF 1]) (simp add: up_def down_def)
qed

lemma block_bytes:
  assumes inv: "dev_inv h d gs" and nn: "blk_at d gs p \<noteq> NULL" and n: "off_of d p + n \<le> nat (quantum d)"
  shows "read_blk h (blk_at d gs p) (int (off_of d p)) n = Inr (map (byte_at h d gs) [p ..< p + n])"
proof -
  obtain bs where b: "fmlookup (hp_blk h) (blk_at d gs p) = Some (dev_allocator d, bs)"
    "nat (quantum d) \<le> length bs"
    using blk_at_ok [OF inv nn] by blast
  have "byte_at h d gs (p + j) = bs ! (off_of d p + j)" if "j < n" for j
  proof -
    have "blk_at d gs (p + j) = blk_at d gs p" "off_of d (p + j) = off_of d p + j"
      using step_in_block [OF dev_invD(1) [OF inv], of p j] that n by (simp_all add: blk_at_def)
    with b nn show ?thesis by (simp add: byte_at_def)
  qed
  then have "take n (drop (off_of d p) bs) = map (byte_at h d gs) [p ..< p + n]"
    using b(2) n by (intro nth_equalityI) simp_all
  with b nn n show ?thesis by (simp add: read_blk_def load_def peek_def)
qed

lemma read_block_ok:
  assumes inv: "dev_inv h d gs" and nn: "blk_at d gs (nat pos) \<noteq> NULL" and rng: "in_range d pos count"
    and le: "pos < dsize d"
  obtains r where "read_block k left (quantum d) (int (off_of d (nat pos))) count pos (blk_at d gs (nat pos)) (down d) h = Inr r"
    and "read_upto (u64 left) k d gs h count pos r gs"
proof -
  let ?o = "off_of d (nat pos)"
  define n where "n = min (chunk d (nat pos) count) (u64 left)"
  have par: "params_ok d" using inv by (simp add: dev_inv_def)
  have off: "?o < nat (quantum d)" using off_bound [OF par] .
  from rng have r: "0 \<le> pos" "pos + int count < 2 ^ 63" by (simp_all add: in_range_def)
  have o: "u64 (quantum d - int ?o) = nat (quantum d) - ?o"
    using off params_bounds(3) [OF par] by (simp add: u64_id nat_diff_distrib')
  have n2: "(if (if count > u64 left then u64 left else count) > u64 (quantum d - int ?o)
      then u64 (quantum d - int ?o) else (if count > u64 left then u64 left else count)) = n"
    by (simp add: o n_def chunk_def min_def)
  have "n \<le> nat (quantum d) - ?o" by (simp add: n_def chunk_def)
  then have "?o + n \<le> nat (quantum d)" using off by linarith
  note rb = block_bytes [OF inv nn this]
  have "n \<le> count" by (simp add: n_def chunk_def)
  then have s: "s64 (int n) = int n" "s64 (pos + int n) = pos + int n"
    using r by (auto intro!: s64_id)
  have sh: "up (down d) = d" by (simp add: up_def down_def)
  define bs where "bs = map (byte_at h d gs) [nat pos ..< nat pos + n]"
  let ?r = "if copy_to_user k bs \<noteq> 0
    then \<lparr>ret = - EFAULT, pos' = pos, out = bs, dev' = d, heap' = h\<rparr>
    else \<lparr>ret = int n, pos' = pos + int n, out = bs, dev' = d, heap' = h\<rparr>"
  have "read_block k left (quantum d) (int ?o) count pos (blk_at d gs (nat pos)) (down d) h = Inr ?r"
    unfolding read_block_def Let_def n2 rb sh bs_def [symmetric] by (simp add: s)
  moreover have "read_upto (u64 left) k d gs h count pos ?r gs"
    using nn le inv by (simp add: read_upto_def io_frame_def n_def bs_def Let_def)
  ultimately show thesis by (rule that)
qed

text \<open>The device may be older when the parameters are read than when the semaphore is taken.\<close>

lemma scull_read_stale:
  assumes k: "kernel_ok k" and inv: "dev_inv h d gs" and rng: "in_range d pos count" and sh: "quantum d0 = quantum d" "qset d0 = qset d"
  obtains r gs' where "scull_read k False d0 d h count pos = Inr r"
    and "read_upto (u64 (s64 (dsize d0 - pos))) k d gs h count pos r gs'"
proof -
  let ?p = "nat pos" and ?i = "item_of d (nat pos)"
  have pos: "0 \<le> pos" "pos < 2 ^ 31 * (quantum d * qset d)" using rng by (simp_all add: in_range_def)
  note ar = position_arith [OF dev_invD(1) [OF inv] pos]
  note R = scull_read_def [of k False d0 d h count pos] sh Let_def ar
  have inv1: "dev_inv h (down d) gs" and sz: "dsize (down d) = dsize d" and hd: "data (down d) = data d"
    using inv by (simp_all, simp_all add: down_def)
  have id: "(down d)\<lparr>data := data d\<rparr> = down d" by (simp add: down_def)
  have ev: "evolves h (down d) gs h ((down d)\<lparr>data := data d\<rparr>) gs" using evolves_refl [OF inv1] by (simp add: id)
  consider "pos \<ge> dsize d" | "pos < dsize d" "?i < length gs" | "pos < dsize d" "length gs \<le> ?i" by linarith
  then show thesis
  proof cases
    case 1
    with read_stop [OF ev] show thesis unfolding id by (intro that) (auto simp: R sz)
  next
    case 2
    obtain q where q: "scull_follow k (data d) (int ?i) h = Inr (g_addr (gs ! ?i), data d, h)"
      "get_qset h (g_addr (gs ! ?i)) = Inr q" "g_addr (gs ! ?i) \<noteq> NULL"
      "if qs_data q = NULL then blk_at d gs ?p = NULL else get_ptr h (qs_data q) (int (slot_of d ?p)) = Inr (blk_at d gs ?p)"
      by (rule located [OF inv 2(2)])
    show thesis
    proof (cases "blk_at d gs ?p = NULL")
      case True
      with read_stop [OF ev, of pos] 2 q show thesis unfolding id
        by (intro that) (auto simp: R sz hd id split: if_splits)
    next
      case False
      obtain r where "read_block k (s64 (dsize d0 - pos)) (quantum d) (int (off_of d ?p)) count pos (blk_at d gs ?p) (down d) h = Inr r"
        "read_upto (u64 (s64 (dsize d0 - pos))) k d gs h count pos r gs"
        by (rule read_block_ok [OF inv False rng 2(1)])
      with False 2 q show thesis by (intro that [of r gs]) (simp_all add: R sz hd id split: if_splits)
    qed
  next
    case 3
    then have hole: "blk_at d gs ?p = NULL" by (simp add: blk_at_def)
    obtain dptr head h1 gs1 where f: "scull_follow k (data (down d)) (int ?i) h = Inr (dptr, head, h1)"
      "chain h1 head gs1 NULL" "grown h gs h1 gs1"
      "if dptr = NULL then kmalloc k h1 16 = NULL else \<exists>q. fmlookup (hp_qset h1) dptr = Some q \<and> qs_data q = NULL"
      by (rule scull_follow_miss [OF k dev_invD(2) [OF inv1] 3(2)])
    then have "dptr = NULL \<or> (\<exists>q. fmlookup (hp_qset h1) dptr = Some q \<and> qs_data q = NULL)" by metis
    with read_stop [OF grown_evolves [OF inv1 f(2,3)], of pos] hole 3 f(1) show thesis
      by (intro that) (auto simp: R sz get_qset_def load_def)
  qed
qed

lemma scull_read_cases:
  assumes k: "kernel_ok k" and inv: "dev_inv h d gs" and rng: "in_range d pos count"
  obtains r gs' where "scull_read k False d d h count pos = Inr r"
    and "read_outcome k d gs h count pos r gs'"
proof -
  obtain r gs' where r: "scull_read k False d d h count pos = Inr r" "read_upto (u64 (s64 (dsize d - pos))) k d gs h count pos r gs'"
    by (rule scull_read_stale [OF k inv rng refl refl])
  have "u64 (s64 (dsize d - pos)) = nat (dsize d - pos)" if "pos < dsize d"
    using that rng by (simp add: in_range_def s64_id u64_id)
  with r(2) have "read_outcome k d gs h count pos r gs'" unfolding read_outcome_upto by (auto simp: read_upto_def Let_def)
  with r(1) show thesis by (rule that)
qed

end
