(* ===== verification/Scull_Correct.thy ===== *)
theory Scull_Correct
  imports Scull_IO
begin

text \<open>
  What \<^verbatim>\<open>base_scull.c\<close> guarantees to its users: the theorems on \<open>scull_read\<close>,
  \<open>scull_write\<close>, \<open>scull_follow\<close> and \<open>scull_trim\<close>, on sequences of accesses, and on
  several devices that share one kernel heap. Each theorem with hypotheses is followed by an
  instance on a small concrete device.
\<close>

section \<open>Sequences of accesses to one device\<close>

datatype access = Rd bool nat int | Wr bool "byte list" nat int

fun access_count :: "access \<Rightarrow> nat" where
  "access_count (Rd intr count pos) = count"
| "access_count (Wr intr ubuf count pos) = count"

fun access_pos :: "access \<Rightarrow> int" where
  "access_pos (Rd intr count pos) = pos"
| "access_pos (Wr intr ubuf count pos) = pos"

fun access_step :: "kernel \<Rightarrow> scull_globals \<Rightarrow> access \<Rightarrow> scull_dev \<times> heap \<Rightarrow> (scull_dev \<times> heap) res" where
  "access_step k g (Rd intr count pos) (d, h) =
     bindE (scull_read k intr d d h count pos) (\<lambda>r. Inr (dev' r, heap' r))"
| "access_step k g (Wr intr ubuf count pos) (d, h) =
     bindE (scull_write k g intr d d h ubuf count pos) (\<lambda>r. Inr (dev' r, heap' r))"

fun run_accesses :: "kernel \<Rightarrow> scull_globals \<Rightarrow> access list \<Rightarrow> scull_dev \<times> heap \<Rightarrow> (scull_dev \<times> heap) res" where
  "run_accesses k g [] s = Inr s"
| "run_accesses k g (a # as) s = bindE (access_step k g a s) (run_accesses k g as)"

definition accesses_ok :: "scull_dev \<Rightarrow> access list \<Rightarrow> bool" where
  "accesses_ok d as \<longleftrightarrow>
     list_all (\<lambda>a. 0 \<le> access_pos a \<and> access_pos a < 2 ^ 31 * (quantum d * qset d) \<and>
                   access_pos a + int (access_count a) < 2 ^ 63) as \<and>
     0 \<le> dsize d \<and> dsize d + int (sum_list (map access_count as)) < 2 ^ 63"

section \<open>Shared facts\<close>

lemma alloc_fits_cache: "alloc_fits k g d \<Longrightarrow> cache_ready g d"
  by (auto simp: alloc_fits_def cache_ready_def split: option.splits)

lemma grows_in_drop:
  assumes g: "grows_in A as bs m m'" and none: "\<And>a. a \<notin> A \<Longrightarrow> fmlookup m a = None"
  shows "fmdrop_set (set bs) m' = fmdrop_set (set as) m"
proof (rule fmap_ext)
  fix a
  have "a \<in> set bs \<Longrightarrow> a \<notin> set as \<Longrightarrow> fmlookup m a = None"
    using g by (intro none) (auto simp: grows_in_def)
  then show "fmlookup (fmdrop_set (set bs) m') a = fmlookup (fmdrop_set (set as) m) a"
    using g unfolding grows_in_def by (cases "a \<in> set bs"; cases "a \<in> set as") auto
qed

lemma without_framed:
  assumes fr: "framed h gs h' gs'"
  shows "without h' gs' = without h gs"
proof -
  have "fmdrop_set (set (map g_addr gs')) (hp_qset h') = fmdrop_set (set (map g_addr gs)) (hp_qset h)"
    using fr by (intro grows_in_drop [of "allocated h"] not_allocatedD(1)) (simp_all add: framed_def)
  moreover have "fmdrop_set (set (arr_addrs gs')) (hp_ptrs h') = fmdrop_set (set (arr_addrs gs)) (hp_ptrs h)"
    using fr by (intro grows_in_drop [of "allocated h"] not_allocatedD(2)) (simp_all add: framed_def)
  moreover have "fmdrop_set (set (blk_addrs gs')) (hp_blk h') = fmdrop_set (set (blk_addrs gs)) (hp_blk h)"
    using fr by (intro grows_in_drop [of "allocated h"] not_allocatedD(3)) (simp_all add: framed_def)
  ultimately show ?thesis by (simp only: without_def)
qed

text \<open>What one device does is invisible to a device with other memory.\<close>

lemma same_memory:
  assumes inv: "dev_inv h e es"
    and same: "\<And>a. a \<in> footprint es \<Longrightarrow> fmlookup (hp_qset h') a = fmlookup (hp_qset h) a"
      "\<And>a. a \<in> footprint es \<Longrightarrow> fmlookup (hp_ptrs h') a = fmlookup (hp_ptrs h) a"
      "\<And>a. a \<in> footprint es \<Longrightarrow> fmlookup (hp_blk h') a = fmlookup (hp_blk h) a"
  shows "dev_inv h' e es" "byte_at h' e es = byte_at h e es"
proof -
  have "chain h' (data e) es NULL"
    using dev_invD(2) [OF inv] by (subst chain_frame) (simp_all add: same footprint_def)
  moreover have "node_ok h' e x \<longleftrightarrow> node_ok h e x" if "x \<in> set es" for x
    using that by (intro node_ok_frame same) (auto simp: footprint_def set_addrs)
  ultimately show "dev_inv h' e es" using inv by (simp add: dev_inv_def list_all_iff)
  show "byte_at h' e es = byte_at h e es"
    using blk_at_footprint [OF inv] same(3) by (auto simp: byte_at_def fun_eq_iff)
qed

lemma framed_other:
  assumes fr: "framed h gs h' gs'" and inv: "dev_inv h e es" and dj: "footprint es \<inter> footprint gs = {}"
  shows "dev_inv h' e es" "byte_at h' e es = byte_at h e es" "footprint es \<inter> footprint gs' = {}"
proof -
  show dj': "footprint es \<inter> footprint gs' = {}"
    using framed_footprint(2) [OF fr] footprint_allocated [OF inv] dj by blast
  have out: "a \<in> footprint es \<Longrightarrow> a \<notin> footprint gs'" for a using dj' by blast
  show "dev_inv h' e es" "byte_at h' e es = byte_at h e es"
    using same_memory [OF inv framed_footprint(3-5) [OF fr out]] by blast+
qed

lemma without_other:
  assumes inv: "dev_inv h e es" and dj: "footprint es \<inter> footprint gs = {}"
  shows "dev_inv (without h gs) e es" "byte_at (without h gs) e es = byte_at h e es"
proof -
  have "a \<notin> set (map g_addr gs)" "a \<notin> set (arr_addrs gs)" "a \<notin> set (blk_addrs gs)" if "a \<in> footprint es" for a
    using that dj by (auto simp: footprint_def)
  then show "dev_inv (without h gs) e es" "byte_at (without h gs) e es = byte_at h e es"
    by (auto intro!: same_memory [OF inv])
qed

lemma write_interrupted:
  "scull_write k g True d0 d h ubuf count pos =
     Inr \<lparr>ret = - ERESTARTSYS, pos' = pos, out = [], dev' = d, heap' = h\<rparr>"
  by (simp add: scull_write_def Let_def)

lemma read_interrupted:
  "scull_read k True d0 d h count pos =
     Inr \<lparr>ret = - ERESTARTSYS, pos' = pos, out = [], dev' = d, heap' = h\<rparr>"
  by (simp add: scull_read_def Let_def)

lemma write_dsize:
  "write_outcome k d gs h ubuf (chunk d p count) pos r gs' \<Longrightarrow>
   dsize d \<le> dsize (dev' r) \<and> dsize (dev' r) \<le> dsize d + int count"
  by (auto simp: write_outcome_def write_done_def write_faulted_def write_nomem_def chunk_def)

lemma in_range_mono: "in_range d pos count \<Longrightarrow> n \<le> count \<Longrightarrow> in_range d pos n"
  by (auto simp: in_range_def)

lemma access_step_ok:
  assumes k: "kernel_ok k" and inv: "dev_inv h d gs" and fits: "alloc_fits k g d"
    and rng: "in_range d (access_pos a) (access_count a)"
  obtains d' h' gs' where "access_step k g a (d, h) = Inr (d', h')" "dev_inv h' d' gs'"
    "same_shape d d'" "sem d' = sem d" "framed h gs h' gs'"
    "dsize d \<le> dsize d'" "dsize d' \<le> dsize d + int (access_count a)"
proof (cases a)
  case (Rd intr count pos)
  show thesis
  proof (cases intr)
    case True
    with Rd inv show thesis by (intro that [of d h gs]) (simp_all add: read_interrupted)
  next
    case False
    have "in_range d pos count" using rng Rd by simp
    then obtain r gs' where "scull_read k False d d h count pos = Inr r" "read_outcome k d gs h count pos r gs'"
      by (rule scull_read_cases [OF k inv])
    with Rd False show thesis by (intro that [of "dev' r" "heap' r" gs']) (simp_all add: read_outcome_def io_frame_def)
  qed
next
  case (Wr intr ubuf count pos)
  show thesis
  proof (cases intr)
    case True
    with Wr inv show thesis by (intro that [of d h gs]) (simp_all add: write_interrupted)
  next
    case False
    have "in_range d pos count" using rng Wr by simp
    then obtain r gs' where r: "scull_write k g False d d h ubuf count pos = Inr r"
      "write_outcome k d gs h ubuf (chunk d (nat pos) count) pos r gs'"
      by (rule scull_write_cases [OF k inv fits])
    with Wr False write_dsize [OF r(2)] show thesis
      by (intro that [of "dev' r" "heap' r" gs']) (simp_all add: write_outcome_def io_frame_def)
  qed
qed

lemma run_accesses_ok:
  assumes "kernel_ok k" and "dev_inv h d gs" and "alloc_fits k g d" and "accesses_ok d as"
  shows "\<exists>d' h' gs'. run_accesses k g as (d, h) = Inr (d', h') \<and> dev_inv h' d' gs' \<and>
    same_shape d d' \<and> sem d' = sem d \<and> framed h gs h' gs'"
  using assms(2-)
proof (induction as arbitrary: d h gs)
  case Nil
  then show ?case by (auto intro: exI [of _ gs])
next
  case (Cons a as)
  have "in_range d (access_pos a) (access_count a)"
    using Cons.prems(3) by (auto simp: accesses_ok_def in_range_def)
  then obtain d1 h1 gs1 where 1: "access_step k g a (d, h) = Inr (d1, h1)" "dev_inv h1 d1 gs1"
    "same_shape d d1" "sem d1 = sem d" "framed h gs h1 gs1"
    "dsize d \<le> dsize d1" "dsize d1 \<le> dsize d + int (access_count a)"
    by (rule access_step_ok [OF assms(1) Cons.prems(1,2)])
  have "alloc_fits k g d1" using Cons.prems(2) same_shape_accesses [OF 1(3)] by simp
  moreover have "accesses_ok d1 as"
    using Cons.prems(3) 1(3,6,7) by (auto simp: accesses_ok_def same_shape_def)
  ultimately obtain d2 h2 gs2 where "run_accesses k g as (d1, h1) = Inr (d2, h2)" "dev_inv h2 d2 gs2"
    "same_shape d1 d2" "sem d2 = sem d1" "framed h1 gs1 h2 gs2"
    using Cons.IH [OF 1(2)] by blast
  with 1 same_shape_trans framed_trans show ?case
    by (intro exI [of _ d2] exI [of _ h2] exI [of _ gs2]) (simp; blast)
qed


section \<open>A small device\<close>

text \<open>Quantum 4, two pointers per node; the first block holds the bytes 1 to 4, the second is a hole.\<close>

definition demo_dev :: scull_dev where
  "demo_dev = \<lparr>data = 1, quantum = 4, qset = 2, sem = 1, dsize = 4, order = 0, dtype = scull_type_basic\<rparr>"

definition demo_nodes :: "gnode list" where
  "demo_nodes = [\<lparr>g_addr = 1, g_arr = 2, g_blks = [3, 0]\<rparr>]"

definition demo_heap :: heap where
  "demo_heap =
     \<lparr>hp_qset = fmupd 1 \<lparr>qs_data = 2, qs_next = 0\<rparr> fmempty, hp_ptrs = fmupd 2 [3, 0] fmempty,
      hp_blk = fmupd 3 (By_kmalloc, [1, 2, 3, 4]) fmempty\<rparr>"

lemma demo_inv: "dev_inv demo_heap demo_dev demo_nodes"
  by (simp add: dev_inv_def params_ok_def demo_dev_def demo_heap_def demo_nodes_def node_ok_def blk_ok_def
      dev_allocator_def arr_addrs_def blk_addrs_def)

lemma demo_fits: "alloc_fits k g demo_dev"
  by (simp add: alloc_fits_def demo_dev_def)

lemma demo_range: "0 \<le> pos \<Longrightarrow> pos < 16 \<Longrightarrow> count < 1000 \<Longrightarrow> in_range demo_dev pos count"
  by (simp add: in_range_def demo_dev_def)

lemma simple_copies [simp]: "copy_to_user simple_kernel bs = 0"
  "fst (copy_from_user simple_kernel u n) = n - length u"
  by (simp_all add: simple_kernel_def)

lemmas demo_eval = scull_write_def scull_read_def write_block_def read_block_def ensure_array_def
  ensure_block_def scull_follow_def get_qset_def get_ptr_def write_blk_def read_blk_def load_def poke_def
  peek_def cdiv_def cmod_def signed_divide_int_def signed_modulo_int_def s32_def s64_def u64_def down_def up_def
  overwrite_def Let_def demo_dev_def demo_heap_def simple_kernel_def scull_globals_init_def

text \<open>One byte stored at position 1 of the small device, whatever its size is said to be.\<close>

definition demo_written :: "int \<Rightarrow> io_result" where
  "demo_written n =
     \<lparr>ret = 1, pos' = 2, out = [], dev' = demo_dev\<lparr>dsize := n + 1\<rparr>,
      heap' = demo_heap\<lparr>hp_blk := fmupd 3 (By_kmalloc, [1, 9, 3, 4]) fmempty\<rparr>\<rparr>"

lemma demo_write:
  assumes "0 \<le> n" "n < 100"
  shows "scull_write simple_kernel scull_globals_init False (demo_dev\<lparr>dsize := n\<rparr>) (demo_dev\<lparr>dsize := n\<rparr>)
    demo_heap [9] 1 1 = Inr (demo_written n)"
proof -
  have "fmupd 3 (By_kmalloc, [1, 9, 3, 4]) (fmupd 3 (By_kmalloc, [1, 2, 3, 4]) fmempty) =
      fmupd (3::addr) (By_kmalloc, [1, 9, 3, 4 :: byte]) fmempty"
    by (rule fmap_ext) simp
  with assms show ?thesis by (simp add: demo_eval demo_written_def)
qed

text \<open>A second device on the same heap, still empty.\<close>

definition demo_second :: scull_dev where
  "demo_second = \<lparr>data = NULL, quantum = 1024, qset = 1000, sem = 1, dsize = 0, order = 0, dtype = scull_type_basic\<rparr>"

section \<open>Theorems\<close>

text \<open>
  C1. \<open>scull_write\<close> on a well-formed device never faults and ends in one of three ways. With the
  user's bytes readable it stores the part of them that fits into the block at the file position,
  returns how many, moves the position and the size by that number and leaves every other byte of
  the device as it was. With an unreadable buffer it returns \<open>-EFAULT\<close> with position and size as
  before and no byte changed outside the range of the write. Out of memory it returns
  \<open>-ENOMEM\<close> and all contents are as before. In each case the device is
  well-formed, the semaphore is released and no memory of others has changed.
\<close>

theorem scull_write_correct:
  assumes "kernel_ok k" and "dev_inv h d gs" and "alloc_fits k g d" and "in_range d pos count"
  shows "\<exists>r gs'. scull_write k g False d d h ubuf count pos = Inr r \<and>
    write_outcome k d gs h ubuf (chunk d (nat pos) count) pos r gs'"
  by (rule scull_write_cases [OF assms]) blast

theorem scull_write_correct_witness:
  "\<exists>r gs'. scull_write simple_kernel scull_globals_init False demo_dev demo_dev demo_heap [7, 8, 9] 3 5 = Inr r \<and>
    write_outcome simple_kernel demo_dev demo_nodes demo_heap [7, 8, 9] (chunk demo_dev (nat 5) 3) 5 r gs'"
  by (rule scull_write_correct [OF simple_kernel_ok demo_inv demo_fits demo_range]) simp_all

text \<open>
  C2. \<open>scull_read\<close> on a well-formed device never faults, changes nothing of what the device
  stores and releases the semaphore. At or past the end of the device, and in a hole, it returns
  0. Elsewhere it hands the user the stored bytes from the file position up to the
  end of the block, the size of the device or the count asked for, whichever comes first, and
  returns their number and advances the position, or returns \<open>-EFAULT\<close> with the position
  as before if they cannot be copied.
\<close>

theorem scull_read_correct:
  assumes "kernel_ok k" and "dev_inv h d gs" and "in_range d pos count"
  shows "\<exists>r gs'. scull_read k False d d h count pos = Inr r \<and> read_outcome k d gs h count pos r gs'"
  by (rule scull_read_cases [OF assms]) blast

theorem scull_read_correct_witness:
  "\<exists>r gs'. scull_read simple_kernel False demo_dev demo_dev demo_heap 2 1 = Inr r \<and>
    read_outcome simple_kernel demo_dev demo_nodes demo_heap 2 1 r gs'"
  by (rule scull_read_correct [OF simple_kernel_ok demo_inv demo_range]) simp_all

text \<open>After a write the device is well-formed and its size at most the count larger, so it can be read.\<close>

lemma read_after_write:
  assumes "kernel_ok k" and "dev_inv h d gs" and "alloc_fits k g d" and "in_range d pos (2 * count)"
    and "scull_write k g False d d h ubuf count pos = Inr r"
  obtains gs' r2 gs2 where "write_outcome k d gs h ubuf (chunk d (nat pos) count) pos r gs'"
    and "scull_read k False (dev' r) (dev' r) (heap' r) count pos = Inr r2"
    and "read_outcome k (dev' r) gs' (heap' r) count pos r2 gs2"
    and "dsize d \<le> dsize (dev' r)" and "dsize (dev' r) \<le> dsize d + int count"
proof -
  have rng: "in_range d pos count" using assms(4) by (rule in_range_mono) simp
  obtain gs' where w: "write_outcome k d gs h ubuf (chunk d (nat pos) count) pos r gs'"
    using scull_write_cases [OF assms(1-3) rng, of ubuf] assms(5) by auto
  have sz: "dsize d \<le> dsize (dev' r)" "dsize (dev' r) \<le> dsize d + int count"
    using write_dsize [OF w] by simp_all
  have fr: "io_frame d gs h r gs'" using w by (simp add: write_outcome_def)
  then have "in_range (dev' r) pos count"
    using assms(4) sz by (auto simp: in_range_def io_frame_def same_shape_def)
  then obtain r2 gs2 where "scull_read k False (dev' r) (dev' r) (heap' r) count pos = Inr r2"
    "read_outcome k (dev' r) gs' (heap' r) count pos r2 gs2"
    using fr by (auto simp: io_frame_def elim: scull_read_cases [OF assms(1)])
  with w sz show thesis by (intro that)
qed

lemma write_read_inside:
  assumes "kernel_ok k" and "dev_inv h d gs" and "alloc_fits k g d" and "in_range d pos (2 * count)"
    and "pos \<le> dsize d" and "\<forall>bs. copy_to_user k bs = 0"
    and "scull_write k g False d d h ubuf count pos = Inr r" and "ret r > 0"
  shows "\<exists>r2. scull_read k False (dev' r) (dev' r) (heap' r) count pos = Inr r2 \<and>
    out r2 = take (nat (ret r)) ubuf \<and> ret r2 = ret r \<and> pos' r2 = pos' r"
proof -
  let ?n = "chunk d (nat pos) count"
  obtain gs' r2 gs2 where w: "write_outcome k d gs h ubuf ?n pos r gs'"
    and r2: "scull_read k False (dev' r) (dev' r) (heap' r) count pos = Inr r2"
      "read_outcome k (dev' r) gs' (heap' r) count pos r2 gs2"
    by (rule read_after_write [OF assms(1-4,7)])
  from w assms(8) have fr: "io_frame d gs h r gs'" and dn: "write_done d gs h ubuf ?n pos r gs'"
    by (auto simp: write_outcome_def write_faulted_def write_nomem_def)
  have sh: "same_shape d (dev' r)" using fr by (simp add: io_frame_def)
  have dn': "ret r = int ?n" "pos' r = pos + int ?n" "dsize (dev' r) = dsize d + int ?n" "?n \<le> length ubuf"
    "blk_at d gs' (nat pos) \<noteq> NULL"
    using dn by (simp_all add: write_done_def)
  have min: "min ?n (nat (dsize (dev' r) - pos)) = ?n" using dn'(3) assms(5) by simp
  have "pos < dsize (dev' r)" using dn' assms(5,8) by simp
  then have o: "out r2 = map (byte_at (heap' r) (dev' r) gs') [nat pos ..< nat pos + ?n]"
    "ret r2 = int ?n" "pos' r2 = pos + int ?n"
    using r2(2) dn'(5) assms(6) min unfolding read_outcome_def same_shape_accesses [OF sh] same_shape_contents [OF sh]
    by (simp_all add: Let_def)
  have "map (byte_at (heap' r) (dev' r) gs') [nat pos ..< nat pos + ?n] = take ?n ubuf"
    using dn dn'(4) by (intro nth_equalityI) (simp_all add: write_done_def)
  with o r2(1) dn' show ?thesis by simp
qed

text \<open>
  C6. Histories of accesses: any sequence of reads and writes (interrupted
  or not, failing or not) that keeps to the file-position range runs without a fault, leaves the
  device well-formed and its semaphore free, and trimming afterwards gives back every block: the heap is
  the one before without what the device owned then. A second device with disjoint memory stays
  well-formed, keeps its contents, and the two keep disjoint memory.
\<close>

theorem accesses_then_trim:
  assumes "kernel_ok k" and "dev_inv h d gs" and "alloc_fits k g d" and "accesses_ok d as"
  shows "\<exists>d' h' gs'. run_accesses k g as (d, h) = Inr (d', h') \<and> dev_inv h' d' gs' \<and> sem d' = sem d \<and>
    scull_trim g d' h' =
      Inr (d'\<lparr>dsize := 0, data := NULL, qset := scull_qset_n g, quantum := scull_quantum g\<rparr>, without h gs) \<and>
    (\<forall>e es. dev_inv h e es \<and> footprint es \<inter> footprint gs = {} \<longrightarrow>
       dev_inv h' e es \<and> byte_at h' e es = byte_at h e es \<and> footprint es \<inter> footprint gs' = {})"
proof -
  obtain d' h' gs' where r: "run_accesses k g as (d, h) = Inr (d', h')" "dev_inv h' d' gs'"
    "same_shape d d'" "sem d' = sem d" "framed h gs h' gs'"
    using run_accesses_ok [OF assms] by blast
  have "cache_ready g d'" using alloc_fits_cache [OF assms(3)] r(3) by (simp add: cache_ready_def same_shape_def)
  moreover have "dev_inv h' e es \<and> byte_at h' e es = byte_at h e es \<and> footprint es \<inter> footprint gs' = {}"
    if "dev_inv h e es \<and> footprint es \<inter> footprint gs = {}" for e es
    using framed_other [OF r(5)] that by blast
  ultimately show ?thesis using scull_trim_ok [OF r(2)] r without_framed [OF r(5)] by metis
qed

theorem accesses_then_trim_witness:
  "(\<exists>d' h' gs'. run_accesses simple_kernel scull_globals_init [Wr False [1, 2] 2 9, Rd False 4 0] (demo_dev, demo_heap) = Inr (d', h') \<and>
     dev_inv h' d' gs' \<and>
     scull_trim scull_globals_init d' h' =
       Inr (d'\<lparr>dsize := 0, data := NULL, qset := scull_qset_n scull_globals_init,
               quantum := scull_quantum scull_globals_init\<rparr>, without demo_heap demo_nodes)) \<and>
   (\<exists>d' h'. run_accesses simple_kernel scull_globals_init [Wr False [5] 1 5000000] (demo_second, demo_heap) = Inr (d', h') \<and>
     dev_inv h' demo_dev demo_nodes \<and> byte_at h' demo_dev demo_nodes = byte_at demo_heap demo_dev demo_nodes)"
proof
  have "accesses_ok demo_dev [Wr False [1, 2] 2 9, Rd False 4 0]" by (simp add: accesses_ok_def demo_dev_def)
  from accesses_then_trim [OF simple_kernel_ok demo_inv demo_fits this]
  show "\<exists>d' h' gs'. run_accesses simple_kernel scull_globals_init [Wr False [1, 2] 2 9, Rd False 4 0] (demo_dev, demo_heap) = Inr (d', h') \<and>
     dev_inv h' d' gs' \<and>
     scull_trim scull_globals_init d' h' =
       Inr (d'\<lparr>dsize := 0, data := NULL, qset := scull_qset_n scull_globals_init,
               quantum := scull_quantum scull_globals_init\<rparr>, without demo_heap demo_nodes)" by blast
  have "dev_inv demo_heap demo_second []" "alloc_fits simple_kernel scull_globals_init demo_second"
    "accesses_ok demo_second [Wr False [5] 1 5000000]" "footprint demo_nodes \<inter> footprint [] = {}"
    by (simp_all add: demo_second_def dev_inv_def params_ok_def alloc_fits_def accesses_ok_def footprint_def arr_addrs_def blk_addrs_def)
  from accesses_then_trim [OF simple_kernel_ok this(1-3)] this(4) demo_inv
  show "\<exists>d' h'. run_accesses simple_kernel scull_globals_init [Wr False [5] 1 5000000] (demo_second, demo_heap) = Inr (d', h') \<and>
     dev_inv h' demo_dev demo_nodes \<and> byte_at h' demo_dev demo_nodes = byte_at demo_heap demo_dev demo_nodes" by blast
qed

lemma write_read_beyond:
  assumes "kernel_ok k" and "dev_inv h d gs" and "alloc_fits k g d" and "in_range d pos (2 * count)"
    and "dsize d + int count \<le> pos" and "scull_write k g False d d h ubuf count pos = Inr r"
  shows "\<exists>r2. scull_read k False (dev' r) (dev' r) (heap' r) count pos = Inr r2 \<and> ret r2 = 0 \<and> out r2 = []"
  by (rule read_after_write [OF assms(1-4,6)]) (use assms(5) in \<open>auto simp: read_outcome_def\<close>)

text \<open>
  C5. Round trip: what a write that starts inside the device, or right at its end, has stored is
  what a read of the same count at the same position delivers. But the size is a sum of the counts written, not the
  end of the data: what is written beyond the old size plus the bytes written cannot be read back, a read
  there returns 0. (A write over existing data enlarges the size as well.)
\<close>

theorem scull_write_read:
  assumes "kernel_ok k" and "dev_inv h d gs" and "alloc_fits k g d" and "in_range d pos (2 * count)"
    and "\<forall>bs. copy_to_user k bs = 0" and "scull_write k g False d d h ubuf count pos = Inr r"
  shows "\<exists>r2. scull_read k False (dev' r) (dev' r) (heap' r) count pos = Inr r2 \<and>
    (pos \<le> dsize d \<and> 0 < ret r \<longrightarrow> out r2 = take (nat (ret r)) ubuf \<and> ret r2 = ret r \<and> pos' r2 = pos' r) \<and>
    (dsize d + int count \<le> pos \<longrightarrow> ret r2 = 0 \<and> out r2 = [])"
proof -
  have "\<exists>r2. scull_read k False (dev' r) (dev' r) (heap' r) count pos = Inr r2"
    by (rule read_after_write [OF assms(1-4,6)]) auto
  with write_read_inside [OF assms(1-4) _ assms(5,6)] write_read_beyond [OF assms(1-4) _ assms(6)] show ?thesis by fastforce
qed

theorem scull_write_read_witness:
  "(\<exists>r2. scull_read simple_kernel False (dev' (demo_written 4)) (dev' (demo_written 4)) (heap' (demo_written 4)) 1 1 = Inr r2 \<and>
      out r2 = take (nat (ret (demo_written 4))) [9]) \<and>
   (\<exists>r2. scull_read simple_kernel False (dev' (demo_written 0)) (dev' (demo_written 0)) (heap' (demo_written 0)) 1 1 = Inr r2 \<and>
      ret r2 = 0 \<and> out r2 = [])"
proof -
  have w: "scull_write simple_kernel scull_globals_init False (demo_dev\<lparr>dsize := z\<rparr>) (demo_dev\<lparr>dsize := z\<rparr>)
      demo_heap [9] 1 1 = Inr (demo_written z)" if "z = 0 \<or> z = 4" for z
    by (rule demo_write) (use that in auto)
  have ok: "dev_inv demo_heap (demo_dev\<lparr>dsize := z\<rparr>) demo_nodes" "alloc_fits k g (demo_dev\<lparr>dsize := z\<rparr>)" for z k g
    by (simp_all add: demo_inv, simp add: alloc_fits_def demo_dev_def)
  have rng: "in_range (demo_dev\<lparr>dsize := z\<rparr>) 1 (2 * 1)" if "z = 0 \<or> z = 4" for z
    using that by (auto simp: in_range_def demo_dev_def)
  from scull_write_read [OF simple_kernel_ok ok rng _ w, of 4] scull_write_read [OF simple_kernel_ok ok rng _ w, of 0]
  show ?thesis by (auto simp: demo_written_def)
qed

end
