(* ===== verification/Scull_Ioctl.thy ===== *)
theory Scull_Ioctl
  imports Scull_Base
begin

text \<open>
  \<open>scull_ioctl\<close>: the encoding of the command numbers, the dispatch and the fourteen cases.
  The handler works on the file-scope parameters \<open>scull_quantum\<close> and \<open>scull_qset_n\<close> and
  on the caller's memory, which it reaches through \<open>access_ok\<close>, \<open>__get_user\<close> and
  \<open>__put_user\<close>; these and \<open>capable\<close> are parameters. The specification \<open>ioc_spec\<close> says
  what each request does to one parameter; the handler implements it for both parameters, one
  request apart.
\<close>

unbundle bit_operations_syntax

section \<open>Command numbers\<close>

definition IOC :: "32 word \<Rightarrow> 32 word \<Rightarrow> 32 word \<Rightarrow> 32 word \<Rightarrow> 32 word" where
  "IOC dir ty nr sz = push_bit 30 dir OR push_bit 8 ty OR nr OR push_bit 16 sz"

definition IOC_TYPE :: "32 word \<Rightarrow> 32 word" where "IOC_TYPE cmd = drop_bit 8 cmd AND 0xff"
definition IOC_NR :: "32 word \<Rightarrow> 32 word" where "IOC_NR cmd = cmd AND 0xff"
definition IOC_SIZE :: "32 word \<Rightarrow> 32 word" where "IOC_SIZE cmd = drop_bit 16 cmd AND 0x3fff"

definition SCULL_IOC_MAGIC :: "32 word" where "SCULL_IOC_MAGIC = 0x6b"
definition SCULL_IOC_MAXNR :: "32 word" where "SCULL_IOC_MAXNR = 14"

definition IO :: "32 word \<Rightarrow> 32 word" where "IO nr = IOC 0 SCULL_IOC_MAGIC nr 0"
definition IOW :: "32 word \<Rightarrow> 32 word" where "IOW nr = IOC 1 SCULL_IOC_MAGIC nr 4"
definition IOR :: "32 word \<Rightarrow> 32 word" where "IOR nr = IOC 2 SCULL_IOC_MAGIC nr 4"
definition IOWR :: "32 word \<Rightarrow> 32 word" where "IOWR nr = IOC 3 SCULL_IOC_MAGIC nr 4"

definition SCULL_IOCRESET :: "32 word" where "SCULL_IOCRESET = IO 0"
definition SCULL_IOCSQUANTUM :: "32 word" where "SCULL_IOCSQUANTUM = IOW 1"
definition SCULL_IOCSQSET :: "32 word" where "SCULL_IOCSQSET = IOW 2"
definition SCULL_IOCTQUANTUM :: "32 word" where "SCULL_IOCTQUANTUM = IO 3"
definition SCULL_IOCTQSET :: "32 word" where "SCULL_IOCTQSET = IO 4"
definition SCULL_IOCGQUANTUM :: "32 word" where "SCULL_IOCGQUANTUM = IOR 5"
definition SCULL_IOCGQSET :: "32 word" where "SCULL_IOCGQSET = IOR 6"
definition SCULL_IOCQQUANTUM :: "32 word" where "SCULL_IOCQQUANTUM = IO 7"
definition SCULL_IOCQQSET :: "32 word" where "SCULL_IOCQQSET = IO 8"
definition SCULL_IOCXQUANTUM :: "32 word" where "SCULL_IOCXQUANTUM = IOWR 9"
definition SCULL_IOCXQSET :: "32 word" where "SCULL_IOCXQSET = IOWR 10"
definition SCULL_IOCHQUANTUM :: "32 word" where "SCULL_IOCHQUANTUM = IO 11"
definition SCULL_IOCHQSET :: "32 word" where "SCULL_IOCHQSET = IO 12"
definition SCULL_P_IOCTSIZE :: "32 word" where "SCULL_P_IOCTSIZE = IO 13"
definition SCULL_P_IOCQSIZE :: "32 word" where "SCULL_P_IOCQSIZE = IO 14"

section \<open>User memory\<close>

text \<open>
  \<open>get_user u p\<close> is the return value and the value stored in the variable, \<open>put_user u p v\<close>
  the return value and the user memory afterwards. Documented: both return 0 or
  \<open>-EFAULT\<close>, \<open>__get_user\<close> sets the variable to 0 on an error, and what \<open>__put_user\<close> has
  stored is what \<open>__get_user\<close> finds.
\<close>

record 'u uaccess =
  access_ok :: "'u \<Rightarrow> 64 word \<Rightarrow> nat \<Rightarrow> bool"
  get_user :: "'u \<Rightarrow> 64 word \<Rightarrow> int \<times> int"
  put_user :: "'u \<Rightarrow> 64 word \<Rightarrow> int \<Rightarrow> int \<times> 'u"

definition uaccess_ok :: "'u uaccess \<Rightarrow> bool" where
  "uaccess_ok a \<longleftrightarrow>
     (\<forall>u p. fst (get_user a u p) \<in> {0, - EFAULT} \<and>
            (fst (get_user a u p) \<noteq> 0 \<longrightarrow> snd (get_user a u p) = 0)) \<and>
     (\<forall>u p v. fst (put_user a u p v) \<in> {0, - EFAULT} \<and>
            (fst (put_user a u p v) = 0 \<longrightarrow> get_user a (snd (put_user a u p v)) p = (0, v)))"

definition mapped_user :: "(64 word \<Rightarrow> int option) uaccess" where
  "mapped_user =
     \<lparr>access_ok = (\<lambda>u p n. uint p + int n < 2 ^ 47),
      get_user = (\<lambda>u p. case u p of None \<Rightarrow> (- EFAULT, 0) | Some v \<Rightarrow> (0, v)),
      put_user = (\<lambda>u p v. case u p of None \<Rightarrow> (- EFAULT, u) | Some w \<Rightarrow> (0, u(p \<mapsto> v)))\<rparr>"

section \<open>scull_ioctl\<close>

definition int_of_arg :: "64 word \<Rightarrow> int" where
  \<comment> \<open>\<open>unsigned long\<close> stored into an \<open>int\<close>\<close>
  "int_of_arg arg = s32 (uint arg)"

definition scull_ioctl ::
  "'u uaccess \<Rightarrow> bool \<Rightarrow> 32 word \<Rightarrow> 64 word \<Rightarrow> scull_globals \<Rightarrow> 'u \<Rightarrow> int \<times> scull_globals \<times> 'u" where
  "scull_ioctl a cap cmd arg g u =
     (if IOC_TYPE cmd \<noteq> SCULL_IOC_MAGIC then (- ENOTTY, g, u)
      else if IOC_NR cmd > SCULL_IOC_MAXNR then (- ENOTTY, g, u)
      else if \<not> access_ok a u arg (unat (IOC_SIZE cmd)) then (- EFAULT, g, u)
      else if cmd = SCULL_IOCRESET then
        (0, g\<lparr>scull_quantum := QUANTUM_SIZE, scull_qset_n := QSET_SIZE\<rparr>, u)
      else if cmd = SCULL_IOCSQUANTUM then
        (if \<not> cap then (- EPERM, g, u)
         else case get_user a u arg of (r, v) \<Rightarrow> (r, g\<lparr>scull_quantum := v\<rparr>, u))
      else if cmd = SCULL_IOCTQUANTUM then
        (if \<not> cap then (- EPERM, g, u) else (0, g\<lparr>scull_quantum := int_of_arg arg\<rparr>, u))
      else if cmd = SCULL_IOCGQUANTUM then
        (case put_user a u arg (scull_quantum g) of (r, u') \<Rightarrow> (r, g, u'))
      else if cmd = SCULL_IOCQQUANTUM then (scull_quantum g, g, u)
      else if cmd = SCULL_IOCXQUANTUM then
        (let tmp = scull_quantum g in
         if \<not> cap then (- EPERM, g, u)
         else case get_user a u arg of (r, v) \<Rightarrow>
           let g' = g\<lparr>scull_quantum := v\<rparr> in
           if r = 0 then (case put_user a u arg tmp of (r', u') \<Rightarrow> (r', g', u')) else (r, g', u))
      else if cmd = SCULL_IOCHQUANTUM then
        (let tmp = scull_quantum g in
         if \<not> cap then (- EPERM, g, u) else (tmp, g\<lparr>scull_quantum := int_of_arg arg\<rparr>, u))
      else if cmd = SCULL_IOCSQSET then
        (if \<not> cap then (- EPERM, g, u)
         else case get_user a u arg of (r, v) \<Rightarrow> (r, g\<lparr>scull_qset_n := v\<rparr>, u))
      else if cmd = SCULL_IOCTQSET then
        (if \<not> cap then (- EPERM, g, u) else (0, g\<lparr>scull_qset_n := int_of_arg arg\<rparr>, u))
      else if cmd = SCULL_IOCGQSET then
        (case put_user a u arg (scull_qset_n g) of (r, u') \<Rightarrow> (r, g, u'))
      else if cmd = SCULL_IOCQQSET then (scull_qset_n g, g, u)
      else if cmd = SCULL_IOCXQSET then
        (if \<not> cap then (- EPERM, g, u)
         else case get_user a u arg of (r, v) \<Rightarrow>
           let g' = g\<lparr>scull_qset_n := v\<rparr> in
           if r = 0 then (case put_user a u arg (scull_qset_n g') of (r', u') \<Rightarrow> (r', g', u'))
           else (r, g', u))
      else if cmd = SCULL_IOCHQSET then
        (let tmp = scull_qset_n g in
         if \<not> cap then (- EPERM, g, u) else (tmp, g\<lparr>scull_qset_n := int_of_arg arg\<rparr>, u))
      else (- ENOTTY, g, u))"

section \<open>Specification\<close>

text \<open>The requests, each on one of the two parameters, and what a request should do.\<close>

datatype ioc_param = P_quantum | P_qset
datatype ioc_req = R_set | R_tell | R_get | R_query | R_exchange | R_shift

fun ioc_cmd :: "ioc_req \<Rightarrow> ioc_param \<Rightarrow> 32 word" where
  "ioc_cmd R_set P_quantum = SCULL_IOCSQUANTUM"
| "ioc_cmd R_set P_qset = SCULL_IOCSQSET"
| "ioc_cmd R_tell P_quantum = SCULL_IOCTQUANTUM"
| "ioc_cmd R_tell P_qset = SCULL_IOCTQSET"
| "ioc_cmd R_get P_quantum = SCULL_IOCGQUANTUM"
| "ioc_cmd R_get P_qset = SCULL_IOCGQSET"
| "ioc_cmd R_query P_quantum = SCULL_IOCQQUANTUM"
| "ioc_cmd R_query P_qset = SCULL_IOCQQSET"
| "ioc_cmd R_exchange P_quantum = SCULL_IOCXQUANTUM"
| "ioc_cmd R_exchange P_qset = SCULL_IOCXQSET"
| "ioc_cmd R_shift P_quantum = SCULL_IOCHQUANTUM"
| "ioc_cmd R_shift P_qset = SCULL_IOCHQSET"

fun get_param :: "ioc_param \<Rightarrow> scull_globals \<Rightarrow> int" where
  "get_param P_quantum g = scull_quantum g"
| "get_param P_qset g = scull_qset_n g"

fun set_param :: "ioc_param \<Rightarrow> int \<Rightarrow> scull_globals \<Rightarrow> scull_globals" where
  "set_param P_quantum v g = g\<lparr>scull_quantum := v\<rparr>"
| "set_param P_qset v g = g\<lparr>scull_qset_n := v\<rparr>"

fun needs_cap :: "ioc_req \<Rightarrow> bool" where
  "needs_cap R_get = False"
| "needs_cap R_query = False"
| "needs_cap _ = True"

fun ioc_spec ::
  "'u uaccess \<Rightarrow> ioc_req \<Rightarrow> ioc_param \<Rightarrow> 64 word \<Rightarrow> scull_globals \<Rightarrow> 'u \<Rightarrow> int \<times> scull_globals \<times> 'u" where
  "ioc_spec a R_set p arg g u = (fst (get_user a u arg), set_param p (snd (get_user a u arg)) g, u)"
| "ioc_spec a R_tell p arg g u = (0, set_param p (int_of_arg arg) g, u)"
| "ioc_spec a R_get p arg g u =
     (fst (put_user a u arg (get_param p g)), g, snd (put_user a u arg (get_param p g)))"
| "ioc_spec a R_query p arg g u = (get_param p g, g, u)"
| "ioc_spec a R_exchange p arg g u =
     (if fst (get_user a u arg) = 0
      then (fst (put_user a u arg (get_param p g)), set_param p (snd (get_user a u arg)) g,
            snd (put_user a u arg (get_param p g)))
      else (fst (get_user a u arg), set_param p (snd (get_user a u arg)) g, u))"
| "ioc_spec a R_shift p arg g u = (get_param p g, set_param p (int_of_arg arg) g, u)"

section \<open>Lemmas\<close>

lemmas ioc_number_defs = IOC_def IO_def IOW_def IOR_def IOWR_def SCULL_IOC_MAGIC_def SCULL_IOCRESET_def
  SCULL_IOCSQUANTUM_def SCULL_IOCSQSET_def SCULL_IOCTQUANTUM_def SCULL_IOCTQSET_def SCULL_IOCGQUANTUM_def
  SCULL_IOCGQSET_def SCULL_IOCQQUANTUM_def SCULL_IOCQQSET_def SCULL_IOCXQUANTUM_def SCULL_IOCXQSET_def
  SCULL_IOCHQUANTUM_def SCULL_IOCHQSET_def SCULL_P_IOCTSIZE_def SCULL_P_IOCQSIZE_def

text \<open>The command numbers, computed.\<close>

lemma ioc_numbers:
  "SCULL_IOCRESET = 0x6b00" "SCULL_IOCSQUANTUM = 0x40046b01" "SCULL_IOCSQSET = 0x40046b02"
  "SCULL_IOCTQUANTUM = 0x6b03" "SCULL_IOCTQSET = 0x6b04" "SCULL_IOCGQUANTUM = 0x80046b05"
  "SCULL_IOCGQSET = 0x80046b06" "SCULL_IOCQQUANTUM = 0x6b07" "SCULL_IOCQQSET = 0x6b08"
  "SCULL_IOCXQUANTUM = 0xc0046b09" "SCULL_IOCXQSET = 0xc0046b0a" "SCULL_IOCHQUANTUM = 0x6b0b"
  "SCULL_IOCHQSET = 0x6b0c" "SCULL_P_IOCTSIZE = 0x6b0d" "SCULL_P_IOCQSIZE = 0x6b0e"
  by (simp_all add: ioc_number_defs push_bit_eq_mult)

lemma ioc_decode:
  "IOC_TYPE (ioc_cmd q p) = SCULL_IOC_MAGIC" "IOC_NR (ioc_cmd q p) \<le> SCULL_IOC_MAXNR"
  by (cases q; cases p; simp add: ioc_numbers IOC_TYPE_def IOC_NR_def SCULL_IOC_MAGIC_def SCULL_IOC_MAXNR_def)+


lemma mapped_user_ok: "uaccess_ok mapped_user"
  by (auto simp: uaccess_ok_def mapped_user_def split: option.splits)

lemma known_commands:
  "cmd \<in> range (\<lambda>(q, p). ioc_cmd q p) \<longleftrightarrow>
   cmd \<in> {SCULL_IOCSQUANTUM, SCULL_IOCSQSET, SCULL_IOCTQUANTUM, SCULL_IOCTQSET, SCULL_IOCGQUANTUM,
     SCULL_IOCGQSET, SCULL_IOCQQUANTUM, SCULL_IOCQQSET, SCULL_IOCXQUANTUM, SCULL_IOCXQSET,
     SCULL_IOCHQUANTUM, SCULL_IOCHQSET}"
proof
  assume "cmd \<in> range (\<lambda>(q, p). ioc_cmd q p)"
  then obtain q p where "cmd = ioc_cmd q p" by auto
  then show "cmd \<in> {SCULL_IOCSQUANTUM, SCULL_IOCSQSET, SCULL_IOCTQUANTUM, SCULL_IOCTQSET, SCULL_IOCGQUANTUM,
     SCULL_IOCGQSET, SCULL_IOCQQUANTUM, SCULL_IOCQQSET, SCULL_IOCXQUANTUM, SCULL_IOCXQSET,
     SCULL_IOCHQUANTUM, SCULL_IOCHQSET}"
    by (cases q; cases p) simp_all
next
  have "ioc_cmd q p \<in> range (\<lambda>(q, p). ioc_cmd q p)" for q p by (rule image_eqI [of _ _ "(q, p)"]) simp_all
  note this [of R_set P_quantum] this [of R_set P_qset] this [of R_tell P_quantum] this [of R_tell P_qset]
    this [of R_get P_quantum] this [of R_get P_qset] this [of R_query P_quantum] this [of R_query P_qset]
    this [of R_exchange P_quantum] this [of R_exchange P_qset] this [of R_shift P_quantum] this [of R_shift P_qset]
  then show "cmd \<in> range (\<lambda>(q, p). ioc_cmd q p)"
    if "cmd \<in> {SCULL_IOCSQUANTUM, SCULL_IOCSQSET, SCULL_IOCTQUANTUM, SCULL_IOCTQSET, SCULL_IOCGQUANTUM,
     SCULL_IOCGQSET, SCULL_IOCQQUANTUM, SCULL_IOCQQSET, SCULL_IOCXQUANTUM, SCULL_IOCXQSET,
     SCULL_IOCHQUANTUM, SCULL_IOCHQSET}"
    using that by (simp only: ioc_cmd.simps insert_iff empty_iff) blast
qed

text \<open>A dispatched request, once the two checks at the top have passed.\<close>

lemma ioctl_dispatch:
  assumes "access_ok a u arg (unat (IOC_SIZE (ioc_cmd q p)))"
  shows "scull_ioctl a cap (ioc_cmd q p) arg g u =
    (if needs_cap q \<and> \<not> cap then (- EPERM, g, u)
     else if q = R_exchange \<and> p = P_qset then
       (case get_user a u arg of (r, v) \<Rightarrow>
          if r = 0 then (fst (put_user a u arg v), g\<lparr>scull_qset_n := v\<rparr>, snd (put_user a u arg v))
          else (r, g\<lparr>scull_qset_n := v\<rparr>, u))
     else ioc_spec a q p arg g u)"
  using assms
  by (cases q; cases p; simp add: scull_ioctl_def ioc_numbers Let_def IOC_TYPE_def IOC_NR_def
      SCULL_IOC_MAGIC_def SCULL_IOC_MAXNR_def split: prod.split)

lemma ioctl_request:
  assumes "\<not> (q = R_exchange \<and> p = P_qset)"
  shows "scull_ioctl a cap (ioc_cmd q p) arg g u =
    (if \<not> access_ok a u arg (unat (IOC_SIZE (ioc_cmd q p))) then (- EFAULT, g, u)
     else if needs_cap q \<and> \<not> cap then (- EPERM, g, u)
     else ioc_spec a q p arg g u)"
proof (cases "access_ok a u arg (unat (IOC_SIZE (ioc_cmd q p)))")
  case True
  show ?thesis unfolding ioctl_dispatch [OF True] by (simp only: assms True simp_thms if_False)
next
  case False
  with ioc_decode [of q p] show ?thesis by (simp add: scull_ioctl_def)
qed

section \<open>Theorems\<close>

lemma ioctl_commands:
  "(\<forall>q p. \<not> (q = R_exchange \<and> p = P_qset) \<longrightarrow> scull_ioctl a cap (ioc_cmd q p) arg g u =
      (if \<not> access_ok a u arg (unat (IOC_SIZE (ioc_cmd q p))) then (- EFAULT, g, u)
       else if needs_cap q \<and> \<not> cap then (- EPERM, g, u)
       else ioc_spec a q p arg g u)) \<and>
   scull_ioctl a cap SCULL_IOCRESET arg g u =
      (if \<not> access_ok a u arg 0 then (- EFAULT, g, u)
       else (0, g\<lparr>scull_quantum := QUANTUM_SIZE, scull_qset_n := QSET_SIZE\<rparr>, u)) \<and>
   (\<forall>cmd. cmd \<noteq> SCULL_IOCRESET \<and> cmd \<notin> range (\<lambda>(q, p). ioc_cmd q p) \<longrightarrow>
      fst (scull_ioctl a cap cmd arg g u) \<in> {- ENOTTY, - EFAULT} \<and> snd (scull_ioctl a cap cmd arg g u) = (g, u))"
proof (intro conjI allI impI)
  show "scull_ioctl a cap SCULL_IOCRESET arg g u =
      (if \<not> access_ok a u arg 0 then (- EFAULT, g, u)
       else (0, g\<lparr>scull_quantum := QUANTUM_SIZE, scull_qset_n := QSET_SIZE\<rparr>, u))"
    by (simp add: scull_ioctl_def ioc_numbers IOC_TYPE_def IOC_NR_def IOC_SIZE_def SCULL_IOC_MAGIC_def SCULL_IOC_MAXNR_def)
next
  fix cmd
  assume "cmd \<noteq> SCULL_IOCRESET \<and> cmd \<notin> range (\<lambda>(q, p). ioc_cmd q p)"
  then show "fst (scull_ioctl a cap cmd arg g u) \<in> {- ENOTTY, - EFAULT}" "snd (scull_ioctl a cap cmd arg g u) = (g, u)"
    unfolding known_commands by (simp_all add: scull_ioctl_def)
qed (rule ioctl_request)

lemma ioctl_exchange:
  assumes "uaccess_ok a" and "access_ok a u arg 4" and "get_user a u arg = (0, v)"
    and "\<forall>w. fst (put_user a u arg w) = 0"
  shows "(\<exists>g' u'. scull_ioctl a True SCULL_IOCXQUANTUM arg g u = (0, g', u') \<and>
            scull_quantum g' = v \<and> get_user a u' arg = (0, scull_quantum g)) \<and>
         (\<exists>g' u'. scull_ioctl a True SCULL_IOCXQSET arg g u = (0, g', u') \<and>
            scull_qset_n g' = v \<and> get_user a u' arg = (0, v))"
proof -
  have "unat (IOC_SIZE (ioc_cmd R_exchange p)) = 4" for p
    by (cases p) (simp_all add: ioc_numbers IOC_SIZE_def)
  then have D: "access_ok a u arg (unat (IOC_SIZE (ioc_cmd R_exchange p)))" for p using assms(2) by simp
  have put: "get_user a (snd (put_user a u arg w)) arg = (0, w)" for w
    using assms(1,4) by (simp add: uaccess_ok_def)
  from ioctl_dispatch [OF D [of P_quantum], of True g] ioctl_dispatch [OF D [of P_qset], of True g] assms(3,4) put
  show ?thesis by simp
qed

text \<open>
  C10. \<open>scull_ioctl\<close> implements the specification of its requests: for every request and
  parameter except the exchange of \<open>qset\<close>, a bad address gives \<open>-EFAULT\<close>, a
  missing capability \<open>-EPERM\<close> (both without effect), and otherwise the return value, the
  parameter and the caller's memory are those of the specification. \<open>SCULL_IOCRESET\<close> restores both defaults,
  for any caller. Every other command is refused without effect: neither the parameters nor the
  caller's memory change; this includes the two pipe commands that the header declares
  and \<open>SCULL_IOC_MAXNR\<close> admits. The two exchange requests differ: after an exchange of the quantum the caller finds the old
  quantum where the new one was, after an exchange of the qset the value it passed, and the old one is lost.
\<close>

theorem scull_ioctl_refines:
  "(\<forall>q p. \<not> (q = R_exchange \<and> p = P_qset) \<longrightarrow> scull_ioctl a cap (ioc_cmd q p) arg g u =
      (if \<not> access_ok a u arg (unat (IOC_SIZE (ioc_cmd q p))) then (- EFAULT, g, u)
       else if needs_cap q \<and> \<not> cap then (- EPERM, g, u)
       else ioc_spec a q p arg g u)) \<and>
   scull_ioctl a cap SCULL_IOCRESET arg g u =
      (if \<not> access_ok a u arg 0 then (- EFAULT, g, u)
       else (0, g\<lparr>scull_quantum := QUANTUM_SIZE, scull_qset_n := QSET_SIZE\<rparr>, u)) \<and>
   (\<forall>cmd. cmd \<noteq> SCULL_IOCRESET \<and> cmd \<notin> range (\<lambda>(q, p). ioc_cmd q p) \<longrightarrow>
      fst (scull_ioctl a cap cmd arg g u) \<in> {- ENOTTY, - EFAULT} \<and> snd (scull_ioctl a cap cmd arg g u) = (g, u)) \<and>
   (\<forall>v. uaccess_ok a \<and> access_ok a u arg 4 \<and> get_user a u arg = (0, v) \<and> (\<forall>w. fst (put_user a u arg w) = 0) \<longrightarrow>
      (\<exists>g' u'. scull_ioctl a True SCULL_IOCXQUANTUM arg g u = (0, g', u') \<and>
         scull_quantum g' = v \<and> get_user a u' arg = (0, scull_quantum g)) \<and>
      (\<exists>g' u'. scull_ioctl a True SCULL_IOCXQSET arg g u = (0, g', u') \<and>
         scull_qset_n g' = v \<and> get_user a u' arg = (0, v)))"
  using ioctl_commands [of a cap arg g u] ioctl_exchange [of a u arg _ g] by blast

theorem scull_ioctl_refines_witness:
  "scull_ioctl mapped_user True (ioc_cmd R_shift P_quantum) 77 scull_globals_init Map.empty =
     (1024, scull_globals_init\<lparr>scull_quantum := 77\<rparr>, Map.empty) \<and>
   snd (scull_ioctl mapped_user True SCULL_P_IOCQSIZE 0 scull_globals_init Map.empty) = (scull_globals_init, Map.empty) \<and>
   (\<exists>g' u'. scull_ioctl mapped_user True SCULL_IOCXQSET 8 scull_globals_init [8 \<mapsto> 50] = (0, g', u') \<and>
     scull_qset_n g' = 50 \<and> get_user mapped_user u' 8 = (0, 50))"
proof (intro conjI)
  show "scull_ioctl mapped_user True (ioc_cmd R_shift P_quantum) 77 scull_globals_init Map.empty =
     (1024, scull_globals_init\<lparr>scull_quantum := 77\<rparr>, Map.empty)"
    by (subst scull_ioctl_refines [THEN conjunct1, rule_format])
      (simp_all add: mapped_user_def ioc_numbers IOC_SIZE_def int_of_arg_def s32_def scull_globals_init_def QUANTUM_SIZE_def)
  show "snd (scull_ioctl mapped_user True SCULL_P_IOCQSIZE 0 scull_globals_init Map.empty) = (scull_globals_init, Map.empty)"
    by (rule scull_ioctl_refines [THEN conjunct2, THEN conjunct2, THEN conjunct1, rule_format, THEN conjunct2])
      (unfold known_commands, simp add: ioc_numbers)
  have "access_ok mapped_user [8 \<mapsto> 50] 8 4" "get_user mapped_user [8 \<mapsto> 50] 8 = (0, 50)"
    "\<forall>w. fst (put_user mapped_user [8 \<mapsto> 50] 8 w) = 0"
    by (simp_all add: mapped_user_def)
  with scull_ioctl_refines [of mapped_user True 8 scull_globals_init "[8 \<mapsto> 50]"] mapped_user_ok
  show "\<exists>g' u'. scull_ioctl mapped_user True SCULL_IOCXQSET 8 scull_globals_init [8 \<mapsto> 50] = (0, g', u') \<and>
     scull_qset_n g' = 50 \<and> get_user mapped_user u' 8 = (0, 50)" by blast
qed

end
