(* ===== verification/Scull_Pipe.thy ===== *)
theory Scull_Pipe
  imports Kernel
begin

text \<open>
  The pipe device of \<^verbatim>\<open>scull/pipe.c\<close>: a circular buffer with the read and write
  pointers as addresses into one kernel block. This theory has the operations that run with the
  semaphore held (the transfer of \<open>scull_p_read\<close> and \<open>scull_p_write\<close>, \<open>spacefree\<close>,
  \<open>scull_p_poll\<close>, \<open>scull_p_open\<close>, \<open>scull_p_release\<close>), the invariant of the buffer, and the
  contract of a bounded byte queue as a locale, interpreted on the transfer operations.
  \<^verbatim>\<open>Scull_Pipe_Sys\<close> adds sleeping, waking and interleaving.
\<close>

section \<open>State\<close>

record scull_pipe =
  p_buffer :: addr
  p_end :: addr
  p_buffersize :: int
  p_rp :: addr
  p_wp :: addr
  p_nreaders :: int
  p_nwriters :: int
  p_async :: bool    \<comment> \<open>\<open>async_queue\<close> is not empty\<close>
  p_sem :: int

definition p_up :: "scull_pipe \<Rightarrow> scull_pipe" where
  "p_up d = d\<lparr>p_sem := p_sem d + 1\<rparr>"

definition p_down :: "scull_pipe \<Rightarrow> scull_pipe" where
  "p_down d = d\<lparr>p_sem := p_sem d - 1\<rparr>"

section \<open>Operations\<close>

definition spacefree :: "scull_pipe \<Rightarrow> int res" where
  "spacefree d =
     (if p_wp d = p_rp d then Inr (s32 (p_buffersize d - 1))
      else bindE (cmod (int (p_rp d) + p_buffersize d - int (p_wp d)) (p_buffersize d))
             (\<lambda>m. Inr (s32 (m - 1))))"

definition clamp :: "nat \<Rightarrow> nat \<Rightarrow> nat" where
  \<comment> \<open>\<open>(count > limit) ? limit : count\<close>\<close>
  "clamp limit count = (if count > limit then limit else count)"

text \<open>
  The transfers, entered with the semaphore held and leaving it released: \<open>Inl\<close> an error
  number, or \<open>Inr\<close> the count. A pointer into the buffer is accessed as an offset of the
  block \<open>buffer\<close> points to.
\<close>

definition p_read_body ::
  "kernel \<Rightarrow> nat \<Rightarrow> scull_pipe \<Rightarrow> heap \<Rightarrow> ((int + nat) \<times> byte list \<times> scull_pipe) res" where
  "p_read_body k count d h =
     (let count = (if p_rp d < p_wp d then clamp (u64 (int (p_wp d) - int (p_rp d))) count
                   else clamp (u64 (int (p_end d) - int (p_rp d))) count)
      in bindE (read_blk h (p_buffer d) (int (p_rp d) - int (p_buffer d)) count) (\<lambda>bs.
         if copy_to_user k bs \<noteq> 0 then Inr (Inl (- EFAULT), bs, p_up d)
         else let d' = (if p_rp d + count = p_end d then d\<lparr>p_rp := p_buffer d\<rparr>
                        else d\<lparr>p_rp := p_rp d + count\<rparr>)
              in Inr (Inr count, bs, p_up d')))"

definition p_write_body ::
  "kernel \<Rightarrow> byte list \<Rightarrow> nat \<Rightarrow> scull_pipe \<Rightarrow> heap \<Rightarrow> ((int + nat) \<times> scull_pipe \<times> heap) res" where
  "p_write_body k ubuf count d h =
     bindE (spacefree d) (\<lambda>free.
     let count = (if p_rp d > p_wp d then clamp (u64 (int (p_rp d) - int (p_wp d))) count
                  else clamp (u64 (int (p_end d) - int (p_wp d))) count);
         count = clamp (u64 free) count
     in case copy_from_user k ubuf count of (left, bs) \<Rightarrow>
        bindE (write_blk h (p_buffer d) (int (p_wp d) - int (p_buffer d)) bs) (\<lambda>h'.
        if left \<noteq> 0 then Inr (Inl (- EFAULT), p_up d, h')
        else let d1 = d\<lparr>p_wp := p_wp d + count\<rparr>;
                 d2 = (if p_wp d1 = p_end d1 then d1\<lparr>p_wp := p_buffer d1\<rparr> else d1)
             in Inr (Inr count, p_up d2, h')))"

text \<open>
  \<open>scull_p_poll\<close>: \<open>intr\<close> says whether \<open>down_interruptible\<close> was interrupted (if not, it
  has taken the semaphore). The mask is the set of its bits.
\<close>

datatype poll_bit = POLLIN | POLLRDNORM | POLLOUT | POLLWRNORM

definition scull_p_poll :: "bool \<Rightarrow> scull_pipe \<Rightarrow> (poll_bit set \<times> scull_pipe) res" where
  "scull_p_poll intr d =
     (if \<not> intr then Inr ({}, p_down d)
      else bindE (spacefree d) (\<lambda>free.
        let out = (if free \<noteq> 0 then {POLLOUT, POLLWRNORM} else {});
            inp = (if p_rp d \<noteq> p_wp d then {POLLIN, POLLRDNORM} else {})
        in Inr (out \<union> inp, p_up d)))"

text \<open>
  \<open>fasync_helper\<close> is the kernel's: it returns a value and adds to or removes from
  \<open>async_queue\<close>; closing passes file descriptor -1, which removes.
\<close>

definition scull_p_fasync :: "(int \<Rightarrow> bool \<Rightarrow> bool \<Rightarrow> int \<times> bool) \<Rightarrow> int \<Rightarrow> bool \<Rightarrow> scull_pipe \<Rightarrow> int \<times> scull_pipe" where
  "scull_p_fasync helper fd mode d =
     (case helper fd mode (p_async d) of (r, q) \<Rightarrow> (r, d\<lparr>p_async := q\<rparr>))"

definition scull_p_open ::
  "kernel \<Rightarrow> int \<Rightarrow> bool \<Rightarrow> bool \<Rightarrow> bool \<Rightarrow> int \<Rightarrow> scull_pipe \<Rightarrow> heap \<Rightarrow> int \<times> scull_pipe \<times> heap" where
  \<comment> \<open>\<open>scull_p_buffer\<close>, interrupted, \<open>FMODE_READ\<close>, \<open>FMODE_WRITE\<close>, the result of \<open>nonseekable_open\<close>\<close>
  "scull_p_open k bufsz intr rd wr nonseek d h =
     (if intr then (- ERESTARTSYS, d, h)
      else
      let d = p_down d;
          (d1, h1) =
            (if p_buffer d = NULL then
               (case new_blk k By_kmalloc (u64 bufsz) (kmalloc k h (u64 bufsz)) h of (p, h1) \<Rightarrow>
                  (if p = NULL then (d, h1)
                   else (d\<lparr>p_buffer := p, p_end := p + u64 bufsz, p_rp := p, p_wp := p\<rparr>, h1)))
             else (d, h))
      in if p_buffer d1 = NULL then (- ENOMEM, p_up d1, h1)
         else
         let d2 = (if rd then d1\<lparr>p_nreaders := s32 (p_nreaders d1 + 1)\<rparr> else d1);
             d3 = (if wr then d2\<lparr>p_nwriters := s32 (p_nwriters d2 + 1)\<rparr> else d2)
         in (nonseek, p_up d3, h1))"

definition scull_p_release ::
  "(int \<Rightarrow> bool \<Rightarrow> bool \<Rightarrow> int \<times> bool) \<Rightarrow> bool \<Rightarrow> bool \<Rightarrow> bool \<Rightarrow> scull_pipe \<Rightarrow> heap \<Rightarrow> (int \<times> scull_pipe \<times> heap) res" where
  "scull_p_release helper intr rd wr d h =
     (case scull_p_fasync helper (- 1) False d of (r, d) \<Rightarrow>
      if intr then Inr (- ERESTARTSYS, d, h)
      else
      let d = p_down d;
          d1 = (if rd then d\<lparr>p_nreaders := s32 (p_nreaders d - 1)\<rparr> else d);
          d2 = (if wr then d1\<lparr>p_nwriters := s32 (p_nwriters d1 - 1)\<rparr> else d1)
      in if s32 (p_nreaders d2 + p_nwriters d2) = 0 then
           bindE (free_blk By_kmalloc h (p_buffer d2)) (\<lambda>h'. Inr (0, p_up (d2\<lparr>p_buffer := NULL\<rparr>), h'))
         else Inr (0, p_up d2, h))"

text \<open>
  The whole handlers for a file opened with exactly \<open>O_NONBLOCK\<close>: there is no waiting, so each
  call is one step. The first component is the return value.
\<close>

definition p_read_nonblock ::
  "kernel \<Rightarrow> bool \<Rightarrow> nat \<Rightarrow> scull_pipe \<Rightarrow> heap \<Rightarrow> (int \<times> byte list \<times> scull_pipe) res" where
  "p_read_nonblock k intr count d h =
     (if intr then Inr (- ERESTARTSYS, [], d)
      else
      let d = p_down d in
      if p_rp d = p_wp d then Inr (- EAGAIN, [], p_up d)
      else bindE (p_read_body k count d h) (\<lambda>(r, bs, d').
        case r of Inl e \<Rightarrow> Inr (e, [], d') | Inr n \<Rightarrow> Inr (s64 (int n), bs, d')))"

definition p_write_nonblock ::
  "kernel \<Rightarrow> bool \<Rightarrow> byte list \<Rightarrow> nat \<Rightarrow> scull_pipe \<Rightarrow> heap \<Rightarrow> (int \<times> scull_pipe \<times> heap) res" where
  "p_write_nonblock k intr ubuf count d h =
     (if intr then Inr (- ERESTARTSYS, d, h)
      else
      let d = p_down d in
      bindE (spacefree d) (\<lambda>free.
        if free = 0 then Inr (- EAGAIN, p_up d, h)
        else bindE (p_write_body k ubuf count d h) (\<lambda>(r, d', h').
          case r of Inl e \<Rightarrow> Inr (e, d', h') | Inr n \<Rightarrow> Inr (s64 (int n), d', h'))))"

section \<open>Byte queues\<close>

text \<open>
  A client of a queue: a sequence of requests to put bytes and to take up to so many of them. A
  request that fails moves nothing. \<open>run_queue\<close> collects what was accepted and what came out.
\<close>

datatype 'a qop = Put "'a list" | Get nat

fun run_queue ::
  "('a list \<Rightarrow> 's \<Rightarrow> nat option \<times> 's) \<Rightarrow> (nat \<Rightarrow> 's \<Rightarrow> 'a list option \<times> 's) \<Rightarrow> 'a qop list \<Rightarrow> 's \<Rightarrow>
   'a list \<times> 'a list \<times> 's" where
  "run_queue put get [] s = ([], [], s)"
| "run_queue put get (Put xs # ops) s =
     (case put xs s of (r, s1) \<Rightarrow> case run_queue put get ops s1 of (sent, recv, s2) \<Rightarrow>
        (case r of None \<Rightarrow> (sent, recv, s2) | Some n \<Rightarrow> (take n xs @ sent, recv, s2)))"
| "run_queue put get (Get m # ops) s =
     (case get m s of (r, s1) \<Rightarrow> case run_queue put get ops s1 of (sent, recv, s2) \<Rightarrow>
        (case r of None \<Rightarrow> (sent, recv, s2) | Some ys \<Rightarrow> (sent, ys @ recv, s2)))"

definition pipe_put :: "byte list \<Rightarrow> kernel \<times> scull_pipe \<times> heap \<Rightarrow> nat option \<times> (kernel \<times> scull_pipe \<times> heap)" where
  "pipe_put xs s = (case s of (k, d, h) \<Rightarrow>
     case p_write_nonblock k False xs (length xs) d h of
       Inl f \<Rightarrow> (None, s)
     | Inr (v, d', h') \<Rightarrow> (if v < 0 then None else Some (nat v), k, d', h'))"

definition pipe_get :: "nat \<Rightarrow> kernel \<times> scull_pipe \<times> heap \<Rightarrow> byte list option \<times> (kernel \<times> scull_pipe \<times> heap)" where
  "pipe_get n s = (case s of (k, d, h) \<Rightarrow>
     case p_read_nonblock k False n d h of
       Inl f \<Rightarrow> (None, s)
     | Inr (v, bs, d') \<Rightarrow> (if v < 0 then None else Some bs, k, d', h))"

section \<open>Invariant and contents\<close>

definition pipe_ok :: "heap \<Rightarrow> scull_pipe \<Rightarrow> bool" where
  "pipe_ok h d \<longleftrightarrow>
     0 < p_buffersize d \<and> p_buffersize d < 2 ^ 31 \<and> p_buffer d \<noteq> NULL \<and>
     p_end d = p_buffer d + nat (p_buffersize d) \<and>
     p_buffer d \<le> p_rp d \<and> p_rp d < p_end d \<and> p_buffer d \<le> p_wp d \<and> p_wp d < p_end d \<and>
     (case fmlookup (hp_blk h) (p_buffer d) of
        None \<Rightarrow> False
      | Some (al, bs) \<Rightarrow> al = By_kmalloc \<and> length bs = nat (p_buffersize d))"

definition ring :: "'a list \<Rightarrow> nat \<Rightarrow> nat \<Rightarrow> 'a list" where
  \<comment> \<open>the elements from offset \<open>r\<close> up to \<open>w\<close>, going round the end\<close>
  "ring bs r w = (if r \<le> w then take (w - r) (drop r bs) else drop r bs @ take w bs)"

definition pipe_bytes :: "heap \<Rightarrow> scull_pipe \<Rightarrow> byte list" where
  "pipe_bytes h d =
     (case fmlookup (hp_blk h) (p_buffer d) of
        None \<Rightarrow> []
      | Some (al, bs) \<Rightarrow> ring bs (p_rp d - p_buffer d) (p_wp d - p_buffer d))"

definition pipe_capacity :: "scull_pipe \<Rightarrow> nat" where
  "pipe_capacity d = nat (p_buffersize d - 1)"

section \<open>Circular buffers\<close>

lemma length_ring: "r < length bs \<Longrightarrow> w < length bs \<Longrightarrow>
  length (ring bs r w) = (if r \<le> w then w - r else length bs - r + w)"
  by (simp add: ring_def)

lemma ring_empty: "r < length bs \<Longrightarrow> w < length bs \<Longrightarrow> ring bs r w = [] \<longleftrightarrow> r = w"
  by (auto simp: ring_def)

lemma ring_get:
  assumes "r < length bs" "w < length bs" "r \<noteq> w"
    and n: "n \<le> (if r < w then w - r else length bs - r)"
  shows "ring bs r w = take n (drop r bs) @ ring bs (if r + n = length bs then 0 else r + n) w"
proof (cases "r < w")
  case True
  then have "take (w - r) (drop r bs) = take n (drop r bs) @ take (w - (r + n)) (drop (r + n) bs)"
    using n by (simp add: take_add [symmetric] add.commute flip: drop_drop)
  moreover have "r + n \<le> w" "r + n \<noteq> length bs" using True n assms(2) by simp_all
  ultimately show ?thesis using True by (simp add: ring_def)
next
  case False
  then have "drop r bs = take n (drop r bs) @ drop (r + n) bs"
    by (metis append_take_drop_id drop_drop add.commute)
  with False assms show ?thesis by (auto simp: ring_def)
qed

lemma ring_put:
  assumes "r < length bs" "w < length bs"
    and n: "length new \<le> (if r > w then r - w - 1 else length bs - w)"
    and free: "r \<le> w \<Longrightarrow> length new < length bs - (w - r)"
  shows "ring (overwrite bs w new) r (if w + length new = length bs then 0 else w + length new) =
    ring bs r w @ new"
proof (cases "r \<le> w")
  case True
  then have fit: "w + length new \<le> length bs" using n assms by simp
  have o: "overwrite bs w new = take w bs @ new @ drop (w + length new) bs" by (simp add: overwrite_def)
  show ?thesis
  proof (cases "w + length new = length bs")
    case True
    with \<open>r \<le> w\<close> assms free show ?thesis by (auto simp: ring_def o drop_take min_def)
  next
    case False
    have l: "length (take (w - r) (drop r bs)) = w - r" using \<open>r \<le> w\<close> assms(2) by simp
    have "w + length new - r = (w - r) + length new" using \<open>r \<le> w\<close> by simp
    with False \<open>r \<le> w\<close> assms(2) show ?thesis by (simp add: ring_def o drop_take take_add l)
  qed
next
  case False
  then have "w + length new < r" "drop r (overwrite bs w new) = drop r bs"
    using n assms by (auto simp: overwrite_def)
  with False assms show ?thesis by (simp add: ring_def overwrite_def)
qed


section \<open>Transfers\<close>

lemma pipe_okE:
  assumes "pipe_ok h d"
  obtains bs r w where "fmlookup (hp_blk h) (p_buffer d) = Some (By_kmalloc, bs)"
    and "length bs = nat (p_buffersize d)" and "p_buffersize d < 2 ^ 31" and "p_buffer d \<noteq> NULL"
    and "p_end d = p_buffer d + length bs"
    and "p_rp d = p_buffer d + r" and "r < length bs" and "p_wp d = p_buffer d + w" and "w < length bs"
    and "pipe_bytes h d = ring bs r w"
proof -
  from assms obtain bs where b: "fmlookup (hp_blk h) (p_buffer d) = Some (By_kmalloc, bs)"
    "length bs = nat (p_buffersize d)"
    by (auto simp: pipe_ok_def split: option.splits)
  with assms show thesis
    by (intro that [of bs "p_rp d - p_buffer d" "p_wp d - p_buffer d"]) (auto simp: pipe_ok_def pipe_bytes_def)
qed

lemma pipe_ok_sem [simp]:
  "pipe_ok h (p_up d) = pipe_ok h d" "pipe_ok h (p_down d) = pipe_ok h d"
  "pipe_bytes h (p_up d) = pipe_bytes h d" "pipe_bytes h (p_down d) = pipe_bytes h d"
  "spacefree (p_up d) = spacefree d" "spacefree (p_down d) = spacefree d"
  by (auto simp: pipe_ok_def pipe_bytes_def spacefree_def p_up_def p_down_def split: option.split)

lemma spacefree_ok:
  assumes "pipe_ok h d"
  shows "length (pipe_bytes h d) \<le> pipe_capacity d"
    and "spacefree d = Inr (int (pipe_capacity d - length (pipe_bytes h d)))"
proof -
  from assms obtain bs r w where b: "length bs = nat (p_buffersize d)" "p_buffersize d < 2 ^ 31"
    "p_rp d = p_buffer d + r" "r < length bs" "p_wp d = p_buffer d + w" "w < length bs"
    "pipe_bytes h d = ring bs r w"
    by (elim pipe_okE)
  define z where "z = length bs"
  have sz: "p_buffersize d = int z" "0 < z" using b(1,4) by (auto simp: z_def)
  then have cap: "pipe_capacity d = z - 1" by (simp add: pipe_capacity_def)
  show "length (pipe_bytes h d) \<le> pipe_capacity d"
    using b(4,6) unfolding b(7) length_ring [OF b(4,6)] cap by (auto simp: z_def)
  have e: "int (p_rp d) + p_buffersize d - int (p_wp d) = int r + int z - int w" using b sz by simp
  consider "w = r" | "r < w" | "w < r" by linarith
  then show "spacefree d = Inr (int (pipe_capacity d - length (pipe_bytes h d)))"
  proof cases
    case 1
    with b sz show ?thesis by (simp add: spacefree_def cap ring_def s32_id)
  next
    case 2
    have "cmod (int r + int z - int w) (int z) = Inr (int r + int z - int w)"
      using 2 b(4,6) sz by (simp add: cmod_pos z_def)
    with 2 b sz show ?thesis unfolding spacefree_def e by (auto simp: cap length_ring z_def s32_id)
  next
    case 3
    have shift: "int r + int z - int w = int (r - w) + int z" using 3 by (simp add: algebra_simps)
    have m: "cmod (int (r - w) + int z) (int z) = Inr (int (r - w))"
      using 3 b(4,6) sz by (simp add: cmod_pos z_def)
    have "pipe_capacity d - length (pipe_bytes h d) = r - w - 1"
      using 3 b(4,6) by (simp add: cap b(7) length_ring z_def)
    moreover have "s32 (int (r - w) - 1) = int (r - w - 1)" using 3 b(1,2,4) by (simp add: s32_id)
    ultimately show ?thesis using 3 b(3,5) m unfolding spacefree_def e shift by (simp add: sz(1) del: of_nat_diff)
  qed
qed

lemma p_read_body_ok:
  assumes ok: "pipe_ok h d" and ne: "p_rp d \<noteq> p_wp d"
  obtains n d' where "n \<le> count" "n \<le> length (pipe_bytes h d)" "0 < count \<longrightarrow> 0 < n"
    "p_read_body k count d h =
       (if copy_to_user k (take n (pipe_bytes h d)) = 0
        then Inr (Inr n, take n (pipe_bytes h d), p_up d')
        else Inr (Inl (- EFAULT), take n (pipe_bytes h d), p_up d))"
    "pipe_ok h d'" "pipe_bytes h d' = drop n (pipe_bytes h d)"
    "\<exists>r. d' = d\<lparr>p_rp := r\<rparr>"
proof -
  from ok obtain bs r w where b: "fmlookup (hp_blk h) (p_buffer d) = Some (By_kmalloc, bs)"
    "length bs = nat (p_buffersize d)" "p_buffersize d < 2 ^ 31" "p_buffer d \<noteq> NULL"
    "p_end d = p_buffer d + length bs"
    "p_rp d = p_buffer d + r" "r < length bs" "p_wp d = p_buffer d + w" "w < length bs"
    "pipe_bytes h d = ring bs r w"
    by (elim pipe_okE)
  define lim where "lim = (if r < w then w - r else length bs - r)"
  define n where "n = clamp lim count"
  have rw: "r \<noteq> w" using ne b by simp
  have n: "n \<le> count" "n \<le> lim" "0 < count \<longrightarrow> 0 < n"
    using b(7) rw by (auto simp: n_def clamp_def lim_def)
  have bound: "length bs < 2 ^ 31" using b(2,3) by auto
  have c: "(if p_rp d < p_wp d then clamp (u64 (int (p_wp d) - int (p_rp d))) count
      else clamp (u64 (int (p_end d) - int (p_rp d))) count) = n"
    using b(5-9) rw bound by (auto simp: n_def lim_def u64_id nat_diff_distrib')
  have nb: "r + n \<le> length bs" using n(2) b(7,9) by (auto simp: lim_def split: if_splits)
  note g = ring_get [OF b(7,9) rw n(2) [unfolded lim_def]]
  have take: "take n (drop r bs) = take n (ring bs r w)" and
    rest: "ring bs (if r + n = length bs then 0 else r + n) w = drop n (ring bs r w)"
    using g nb by (metis append_eq_conv_conj length_drop length_take min.absorb2 add_le_imp_le_diff add.commute)+
  define d' where "d' = (if p_rp d + n = p_end d then d\<lparr>p_rp := p_buffer d\<rparr> else d\<lparr>p_rp := p_rp d + n\<rparr>)"
  have d': "d' = d\<lparr>p_rp := p_buffer d + (if r + n = length bs then 0 else r + n)\<rparr>"
    using b by (simp add: d'_def)
  have rd: "read_blk h (p_buffer d) (int (p_rp d) - int (p_buffer d)) n = Inr (take n (ring bs r w))"
    using b nb by (simp add: read_blk_def load_def peek_def take)
  show thesis
  proof (rule that [of n d'])
    show "p_read_body k count d h =
       (if copy_to_user k (take n (pipe_bytes h d)) = 0
        then Inr (Inr n, take n (pipe_bytes h d), p_up d')
        else Inr (Inl (- EFAULT), take n (pipe_bytes h d), p_up d))"
      unfolding p_read_body_def Let_def c b(10) rd d'_def by simp
    show "pipe_ok h d'" using ok b nb by (auto simp: d' pipe_ok_def)
    show "pipe_bytes h d' = drop n (pipe_bytes h d)"
      using b(1) unfolding b(10) rest [symmetric] by (simp add: d' pipe_bytes_def b(8))
    show "n \<le> length (pipe_bytes h d)"
      using n(2) b(7,9) rw by (auto simp: b(10) length_ring lim_def split: if_splits)
  qed (use n in \<open>auto simp: d'\<close>)
qed


lemma p_write_body_ok:
  assumes k: "kernel_ok k" and ok: "pipe_ok h d" and room: "length (pipe_bytes h d) < pipe_capacity d"
  obtains n d' h' where "n \<le> count" "n \<le> pipe_capacity d - length (pipe_bytes h d)" "0 < count \<longrightarrow> 0 < n"
    "p_write_body k ubuf count d h =
       (if fst (copy_from_user k ubuf n) = 0 then Inr (Inr n, p_up d', h')
        else Inr (Inl (- EFAULT), p_up d, h'))"
    "pipe_ok h' d" "pipe_bytes h' d = pipe_bytes h d"
    "fst (copy_from_user k ubuf n) = 0 \<longrightarrow>
       n \<le> length ubuf \<and> pipe_ok h' d' \<and> pipe_bytes h' d' = pipe_bytes h d @ take n ubuf"
    "\<exists>w. d' = d\<lparr>p_wp := w\<rparr>"
proof -
  from ok obtain bs r w where b: "fmlookup (hp_blk h) (p_buffer d) = Some (By_kmalloc, bs)"
    "length bs = nat (p_buffersize d)" "p_buffersize d < 2 ^ 31" "p_buffer d \<noteq> NULL"
    "p_end d = p_buffer d + length bs"
    "p_rp d = p_buffer d + r" "r < length bs" "p_wp d = p_buffer d + w" "w < length bs"
    "pipe_bytes h d = ring bs r w"
    by (elim pipe_okE)
  define free where "free = pipe_capacity d - length (pipe_bytes h d)"
  define lim where "lim = (if r > w then r - w else length bs - w)"
  define n where "n = clamp free (clamp lim count)"
  have cap: "pipe_capacity d = length bs - 1" using b(2,7) by (simp add: pipe_capacity_def)
  have fr: "free = (if r \<le> w then length bs - 1 - (w - r) else r - w - 1)"
    using b(7,9) by (auto simp: free_def cap b(10) length_ring)
  have n: "n \<le> count" "n \<le> free" "n \<le> lim" "0 < count \<longrightarrow> 0 < n"
    using b(7,9) room by (auto simp: n_def clamp_def lim_def free_def)
  have bound: "length bs < 2 ^ 31" using b(2,3) by auto
  have c: "clamp (u64 (int free)) (if p_rp d > p_wp d then clamp (u64 (int (p_rp d) - int (p_wp d))) count
      else clamp (u64 (int (p_end d) - int (p_wp d))) count) = n"
    using b(5-9) bound by (auto simp: n_def lim_def u64_id nat_diff_distrib' free_def cap)
  obtain l new where cp: "copy_from_user k ubuf n = (l, new)" by (cases "copy_from_user k ubuf n")
  have len: "length new = n" and all: "l = 0 \<Longrightarrow> new = take n ubuf"
    using length_copied [OF k, of ubuf n] copied_all [OF k, of ubuf n] cp by simp_all
  have fit: "w + length new \<le> length bs" using n(2,3) b(7,9) fr by (auto simp: len lim_def split: if_splits)
  define h' where "h' = h\<lparr>hp_blk := fmupd (p_buffer d) (By_kmalloc, overwrite bs w new) (hp_blk h)\<rparr>"
  have wr: "write_blk h (p_buffer d) (int (p_wp d) - int (p_buffer d)) new = Inr h'"
    using b fit by (simp add: write_blk_def load_def poke_def h'_def)
  let ?w = "if w + n = length bs then 0 else w + n"
  define d' where "d' = d\<lparr>p_wp := p_buffer d + ?w\<rparr>"
  have put: "ring (overwrite bs w new) r ?w = ring bs r w @ new"
    unfolding len [symmetric] using n(2,3) fr b(7,9)
    by (intro ring_put) (auto simp: len lim_def split: if_splits)
  have old: "ring (overwrite bs w new) r w = ring bs r w"
    using n(2,3) fr b(7,9) fit by (auto simp: ring_def overwrite_def len lim_def drop_take split: if_splits)
  show thesis
  proof (rule that [of n d' h'])
    show "p_write_body k ubuf count d h =
       (if fst (copy_from_user k ubuf n) = 0 then Inr (Inr n, p_up d', h')
        else Inr (Inl (- EFAULT), p_up d, h'))"
      unfolding p_write_body_def spacefree_ok(2) [OF ok] free_def [symmetric] bindE_simps Let_def c cp prod.case wr
      using b by (simp add: d'_def add.assoc)
    show "pipe_ok h' d" using ok b fit by (simp add: pipe_ok_def h'_def)
    show "pipe_bytes h' d = pipe_bytes h d" using b by (simp add: pipe_bytes_def h'_def old)
    show "fst (copy_from_user k ubuf n) = 0 \<longrightarrow>
       n \<le> length ubuf \<and> pipe_ok h' d' \<and> pipe_bytes h' d' = pipe_bytes h d @ take n ubuf"
    proof
      assume "fst (copy_from_user k ubuf n) = 0"
      then have new: "new = take n ubuf" using all cp by simp
      then have "n \<le> length ubuf" using len by simp
      moreover have "pipe_ok h' d'" using ok b fit by (auto simp: pipe_ok_def h'_def d'_def len)
      moreover have "pipe_bytes h' d' = pipe_bytes h d @ new"
        using b(1,6) put unfolding b(10) by (simp add: pipe_bytes_def h'_def d'_def)
      ultimately show "n \<le> length ubuf \<and> pipe_ok h' d' \<and> pipe_bytes h' d' = pipe_bytes h d @ take n ubuf"
        using new by simp
    qed
  qed (use n in \<open>auto simp: free_def d'_def\<close>)
qed


lemma pipe_empty:
  assumes "pipe_ok h d"
  shows "pipe_bytes h d = [] \<longleftrightarrow> p_rp d = p_wp d"
proof -
  from assms obtain bs r w where "p_rp d = p_buffer d + r" "r < length bs" "p_wp d = p_buffer d + w"
    "w < length bs" "pipe_bytes h d = ring bs r w"
    by (elim pipe_okE)
  then show ?thesis by (simp add: ring_empty)
qed

lemma up_down_id [simp]: "p_up (p_down d) = d"
  by (simp add: p_up_def p_down_def)

lemma up_down_update [simp]:
  "p_up ((p_down d)\<lparr>p_rp := r\<rparr>) = d\<lparr>p_rp := r\<rparr>" "p_up ((p_down d)\<lparr>p_wp := w\<rparr>) = d\<lparr>p_wp := w\<rparr>"
  by (simp_all add: p_up_def p_down_def)

lemma pipe_down_simps [simp]: "p_rp (p_down d) = p_rp d" "p_wp (p_down d) = p_wp d"
  "pipe_capacity (p_down d) = pipe_capacity d" "pipe_capacity (p_up d) = pipe_capacity d"
  by (simp_all add: p_down_def p_up_def pipe_capacity_def)

lemma pipe_capacity_bound: "pipe_ok h d \<Longrightarrow> pipe_capacity d < 2 ^ 31"
  by (auto simp: pipe_ok_def pipe_capacity_def)

lemma p_read_nonblock_cases:
  assumes ok: "pipe_ok h d"
  obtains (empty) "pipe_bytes h d = []" "p_read_nonblock k False count d h = Inr (- EAGAIN, [], d)"
  | (fault) "pipe_bytes h d \<noteq> []" "p_read_nonblock k False count d h = Inr (- EFAULT, [], d)"
  | (data) n d' where "n \<le> count" "n \<le> length (pipe_bytes h d)" "0 < count \<longrightarrow> 0 < n"
      "p_read_nonblock k False count d h = Inr (int n, take n (pipe_bytes h d), d')"
      "pipe_ok h d'" "pipe_bytes h d' = drop n (pipe_bytes h d)" "\<exists>r. d' = d\<lparr>p_rp := r\<rparr>"
proof (cases "p_rp d = p_wp d")
  case True
  with pipe_empty [OF ok] show thesis by (intro empty) (simp_all add: p_read_nonblock_def)
next
  case False
  then have ne: "pipe_bytes h d \<noteq> []" using pipe_empty [OF ok] by simp
  obtain n d' where b: "n \<le> count" "n \<le> length (pipe_bytes h (p_down d))" "0 < count \<longrightarrow> 0 < n"
    "p_read_body k count (p_down d) h =
       (if copy_to_user k (take n (pipe_bytes h (p_down d))) = 0
        then Inr (Inr n, take n (pipe_bytes h (p_down d)), p_up d')
        else Inr (Inl (- EFAULT), take n (pipe_bytes h (p_down d)), p_up (p_down d)))"
    "pipe_ok h d'" "pipe_bytes h d' = drop n (pipe_bytes h (p_down d))" "\<exists>r. d' = (p_down d)\<lparr>p_rp := r\<rparr>"
    by (rule p_read_body_ok [of h "p_down d" count k]) (use ok False in simp_all)
  have "int n < 2 ^ 31" using b(2) spacefree_ok(1) [OF ok] pipe_capacity_bound [OF ok] by simp
  then have s: "s64 (int n) = int n" by (intro s64_id) simp_all
  show thesis
  proof (cases "copy_to_user k (take n (pipe_bytes h d)) = 0")
    case True
    with b s False show thesis by (intro data [of n "p_up d'"]) (auto simp: p_read_nonblock_def)
  next
    case F: False
    with b ne False show thesis by (intro fault) (auto simp: p_read_nonblock_def)
  qed
qed

lemma p_write_nonblock_cases:
  assumes k: "kernel_ok k" and ok: "pipe_ok h d"
  obtains (full) "length (pipe_bytes h d) = pipe_capacity d"
      "p_write_nonblock k False ubuf count d h = Inr (- EAGAIN, d, h)"
  | (fault) h' where "p_write_nonblock k False ubuf count d h = Inr (- EFAULT, d, h')"
      "pipe_ok h' d" "pipe_bytes h' d = pipe_bytes h d" "length (pipe_bytes h d) < pipe_capacity d"
  | (stored) n d' h' where "n \<le> count" "n \<le> length ubuf" "length (pipe_bytes h d) < pipe_capacity d"
      "0 < count \<longrightarrow> 0 < n" "p_write_nonblock k False ubuf count d h = Inr (int n, d', h')"
      "pipe_ok h' d'" "pipe_bytes h' d' = pipe_bytes h d @ take n ubuf" "\<exists>w. d' = d\<lparr>p_wp := w\<rparr>"
proof (cases "length (pipe_bytes h d) = pipe_capacity d")
  case True
  with spacefree_ok(2) [OF ok] show thesis by (intro full) (simp_all add: p_write_nonblock_def)
next
  case False
  then have room: "length (pipe_bytes h d) < pipe_capacity d" using spacefree_ok(1) [OF ok] by simp
  then have free: "\<exists>z. spacefree d = Inr z \<and> z \<noteq> 0" using spacefree_ok(2) [OF ok] by simp
  have ok': "pipe_ok h (p_down d)" and room': "length (pipe_bytes h (p_down d)) < pipe_capacity (p_down d)"
    using ok room by simp_all
  obtain n d' h' where b: "n \<le> count" "n \<le> pipe_capacity (p_down d) - length (pipe_bytes h (p_down d))"
    "0 < count \<longrightarrow> 0 < n"
    "p_write_body k ubuf count (p_down d) h =
       (if fst (copy_from_user k ubuf n) = 0 then Inr (Inr n, p_up d', h')
        else Inr (Inl (- EFAULT), p_up (p_down d), h'))"
    "pipe_ok h' (p_down d)" "pipe_bytes h' (p_down d) = pipe_bytes h (p_down d)"
    "fst (copy_from_user k ubuf n) = 0 \<longrightarrow>
       n \<le> length ubuf \<and> pipe_ok h' d' \<and> pipe_bytes h' d' = pipe_bytes h (p_down d) @ take n ubuf"
    "\<exists>w. d' = (p_down d)\<lparr>p_wp := w\<rparr>"
    by (rule p_write_body_ok [OF k ok' room', of count ubuf])
  have "int n < 2 ^ 31" using b(2) pipe_capacity_bound [OF ok] by simp
  then have s: "s64 (int n) = int n" by (intro s64_id) simp_all
  show thesis
  proof (cases "fst (copy_from_user k ubuf n) = 0")
    case True
    with b s room free show thesis by (intro stored [of n "p_up d'" h']) (auto simp: p_write_nonblock_def)
  next
    case F: False
    with b room free show thesis by (intro fault [of h']) (auto simp: p_write_nonblock_def)
  qed
qed

section \<open>The queue contract\<close>

text \<open>
  What a bounded queue promises its clients, and what follows for any client: everything that
  comes out is what went in, in order, and what is still inside is the rest.
\<close>

locale byte_queue =
  fixes inv :: "'s \<Rightarrow> bool" and contents :: "'s \<Rightarrow> 'a list" and capacity :: "'s \<Rightarrow> nat"
    and put :: "'a list \<Rightarrow> 's \<Rightarrow> nat option \<times> 's" and get :: "nat \<Rightarrow> 's \<Rightarrow> 'a list option \<times> 's"
  assumes bounded: "inv s \<Longrightarrow> length (contents s) \<le> capacity s"
    and put_inv: "inv s \<Longrightarrow> put xs s = (r, s') \<Longrightarrow> inv s' \<and> capacity s' = capacity s"
    and put_contents: "inv s \<Longrightarrow> put xs s = (r, s') \<Longrightarrow>
      contents s' = contents s @ (case r of None \<Rightarrow> [] | Some n \<Rightarrow> take n xs)"
    and get_inv: "inv s \<Longrightarrow> get m s = (q, s') \<Longrightarrow> inv s' \<and> capacity s' = capacity s"
    and get_contents: "inv s \<Longrightarrow> get m s = (q, s') \<Longrightarrow>
      contents s = (case q of None \<Rightarrow> [] | Some ys \<Rightarrow> ys) @ contents s'"
begin

lemma fifo:
  "inv s \<Longrightarrow> run_queue put get ops s = (sent, recv, s') \<Longrightarrow>
   inv s' \<and> capacity s' = capacity s \<and> contents s @ sent = recv @ contents s'"
proof (induction ops arbitrary: s sent recv)
  case (Cons op ops)
  show ?case
  proof (cases op)
    case (Put xs)
    obtain r s1 where p: "put xs s = (r, s1)" by (cases "put xs s")
    obtain snt where q: "run_queue put get ops s1 = (snt, recv, s')"
      and sent: "sent = (case r of None \<Rightarrow> [] | Some n \<Rightarrow> take n xs) @ snt"
      using Cons.prems(2) Put p by (auto split: prod.splits option.splits)
    from Cons.IH [OF _ q] put_inv [OF Cons.prems(1) p] put_contents [OF Cons.prems(1) p] sent
    show ?thesis by simp
  next
    case (Get m)
    obtain r s1 where p: "get m s = (r, s1)" by (cases "get m s")
    obtain rcv where q: "run_queue put get ops s1 = (sent, rcv, s')"
      and recv: "recv = (case r of None \<Rightarrow> [] | Some ys \<Rightarrow> ys) @ rcv"
      using Cons.prems(2) Get p by (auto split: prod.splits option.splits)
    from Cons.IH [OF _ q] get_inv [OF Cons.prems(1) p] get_contents [OF Cons.prems(1) p] recv
    show ?thesis by simp
  qed
qed simp

lemma no_overflow:
  "inv s \<Longrightarrow> run_queue put get ops s = (sent, recv, s') \<Longrightarrow>
   length (contents s) + length sent \<le> length recv + capacity s"
  using fifo [of s ops sent recv s'] bounded [of s'] by (metis add_left_mono length_append)

end

definition pipe_inv :: "kernel \<times> scull_pipe \<times> heap \<Rightarrow> bool" where
  "pipe_inv s = (case s of (k, d, h) \<Rightarrow> kernel_ok k \<and> pipe_ok h d)"

interpretation pq: byte_queue pipe_inv "\<lambda>(k, d, h). pipe_bytes h d" "\<lambda>(k, d, h). pipe_capacity d" pipe_put pipe_get
proof
  fix s :: "kernel \<times> scull_pipe \<times> heap" and xs m r q s'
  obtain k d h where s: "s = (k, d, h)" by (cases s)
  assume "pipe_inv s"
  then have k: "kernel_ok k" and ok: "pipe_ok h d" by (simp_all add: s pipe_inv_def)
  show "length (case s of (k, d, h) \<Rightarrow> pipe_bytes h d) \<le> (case s of (k, d, h) \<Rightarrow> pipe_capacity d)"
    using spacefree_ok(1) [OF ok] by (simp add: s)
  {
    assume p: "pipe_put xs s = (r, s')"
    show "pipe_inv s' \<and> (case s' of (k, d, h) \<Rightarrow> pipe_capacity d) = (case s of (k, d, h) \<Rightarrow> pipe_capacity d)"
      by (rule p_write_nonblock_cases [OF k ok, of xs "length xs"])
        (use p k ok in \<open>auto simp: s pipe_put_def pipe_inv_def pipe_capacity_def\<close>)
    show "(case s' of (k, d, h) \<Rightarrow> pipe_bytes h d) =
      (case s of (k, d, h) \<Rightarrow> pipe_bytes h d) @ (case r of None \<Rightarrow> [] | Some n \<Rightarrow> take n xs)"
      by (rule p_write_nonblock_cases [OF k ok, of xs "length xs"])
        (use p in \<open>auto simp: s pipe_put_def\<close>)
  next
    assume p: "pipe_get m s = (q, s')"
    show "pipe_inv s' \<and> (case s' of (k, d, h) \<Rightarrow> pipe_capacity d) = (case s of (k, d, h) \<Rightarrow> pipe_capacity d)"
      by (rule p_read_nonblock_cases [OF ok, of k m])
        (use p k ok in \<open>auto simp: s pipe_get_def pipe_inv_def pipe_capacity_def\<close>)
    show "(case s of (k, d, h) \<Rightarrow> pipe_bytes h d) =
      (case q of None \<Rightarrow> [] | Some ys \<Rightarrow> ys) @ (case s' of (k, d, h) \<Rightarrow> pipe_bytes h d)"
      by (rule p_read_nonblock_cases [OF ok, of k m])
        (use p in \<open>auto simp: s pipe_get_def\<close>)
  }
qed


section \<open>Opening and closing\<close>

lemma pipe_ok_fresh:
  assumes "kernel_ok k" and "0 < p_buffersize d" and "p_buffersize d < 2 ^ 31" and "p \<noteq> NULL"
    and "p_buffer d = p" "p_end d = p + nat (p_buffersize d)" "p_rp d = p" "p_wp d = p"
    and "fmlookup (hp_blk h) p = Some (By_kmalloc, uninit k (nat (p_buffersize d)))"
  shows "pipe_ok h d \<and> pipe_bytes h d = []"
  using assms by (simp add: pipe_ok_def pipe_bytes_def ring_def length_uninit)

lemma pipe_ok_counts [simp]:
  "pipe_ok h (d\<lparr>p_nreaders := a\<rparr>) = pipe_ok h d" "pipe_ok h (d\<lparr>p_nwriters := a\<rparr>) = pipe_ok h d"
  "pipe_ok h (d\<lparr>p_async := q\<rparr>) = pipe_ok h d"
  "pipe_bytes h (d\<lparr>p_nreaders := a\<rparr>) = pipe_bytes h d" "pipe_bytes h (d\<lparr>p_nwriters := a\<rparr>) = pipe_bytes h d"
  "pipe_bytes h (d\<lparr>p_async := q\<rparr>) = pipe_bytes h d"
  by (auto simp: pipe_ok_def pipe_bytes_def split: option.split)

lemma p_open_ok:
  assumes "kernel_ok k" and "p_buffer d = NULL \<or> pipe_ok h d"
    and "0 < p_buffersize d" and "p_buffersize d < 2 ^ 31"
    and "0 \<le> p_nreaders d" "p_nreaders d < 2 ^ 30" "0 \<le> p_nwriters d" "p_nwriters d < 2 ^ 30"
  shows "\<exists>v d' h'. scull_p_open k (p_buffersize d) False rd wr 0 d h = (v, d', h') \<and> p_sem d' = p_sem d \<and>
    (if p_buffer d = NULL \<and> kmalloc k h (nat (p_buffersize d)) = NULL
     then v = - ENOMEM \<and> d' = d \<and> h' = h
     else v = 0 \<and> pipe_ok h' d' \<and>
       pipe_bytes h' d' = (if p_buffer d = NULL then [] else pipe_bytes h d) \<and>
       p_nreaders d' = p_nreaders d + of_bool rd \<and> p_nwriters d' = p_nwriters d + of_bool wr)"
proof (cases "p_buffer d = NULL")
  case False
  with assms have ok: "pipe_ok h d" by simp
  with False assms(5-8) show ?thesis
    by (auto simp: scull_p_open_def Let_def, auto simp: p_up_def p_down_def s32_id)
next
  case True
  let ?p = "kmalloc k h (nat (p_buffersize d))"
  have u: "u64 (p_buffersize d) = nat (p_buffersize d)" using assms(3,4) by (simp add: u64_id)
  show ?thesis
  proof (cases "?p = NULL")
    case F: True
    with True show ?thesis by (simp add: scull_p_open_def u new_blk_def Let_def) (simp add: p_up_def p_down_def)
  next
    case F: False
    define h' where "h' = h\<lparr>hp_blk := fmupd ?p (By_kmalloc, uninit k (nat (p_buffersize d))) (hp_blk h)\<rparr>"
    define d' where "d' = d\<lparr>p_buffer := ?p, p_end := ?p + nat (p_buffersize d), p_rp := ?p, p_wp := ?p,
      p_nreaders := p_nreaders d + of_bool rd, p_nwriters := p_nwriters d + of_bool wr\<rparr>"
    have "scull_p_open k (p_buffersize d) False rd wr 0 d h = (0, d', h')"
      using True F assms(5-8) by (simp add: scull_p_open_def u new_blk_def Let_def h'_def d'_def p_up_def p_down_def s32_id)
    moreover have "pipe_ok h' d' \<and> pipe_bytes h' d' = []"
      using assms(1,3,4) F by (intro pipe_ok_fresh [where p = ?p and k = k]) (simp_all add: d'_def h'_def)
    ultimately show ?thesis using True F by (simp add: d'_def)
  qed
qed

lemma p_release_ok:
  assumes "pipe_ok h d" and "of_bool rd \<le> p_nreaders d" "p_nreaders d < 2 ^ 30"
    and "of_bool wr \<le> p_nwriters d" "p_nwriters d < 2 ^ 30"
  shows "\<exists>d' h'. scull_p_release helper False rd wr d h = Inr (0, d', h') \<and> p_sem d' = p_sem d \<and>
    p_nreaders d' = p_nreaders d - of_bool rd \<and> p_nwriters d' = p_nwriters d - of_bool wr \<and>
    (if p_nreaders d' + p_nwriters d' = 0
     then p_buffer d' = NULL \<and> h' = h\<lparr>hp_blk := fmdrop (p_buffer d) (hp_blk h)\<rparr>
     else h' = h \<and> pipe_ok h d' \<and> pipe_bytes h d' = pipe_bytes h d)"
proof -
  obtain r q where f: "helper (- 1) False (p_async d) = (r, q)" by (cases "helper (- 1) False (p_async d)")
  define d1 where "d1 = d\<lparr>p_async := q, p_nreaders := p_nreaders d - of_bool rd, p_nwriters := p_nwriters d - of_bool wr\<rparr>"
  let ?n = "p_nreaders d - of_bool rd + (p_nwriters d - of_bool wr)"
  have s: "s32 (p_nreaders d - 1) = p_nreaders d - 1" "s32 (p_nwriters d - 1) = p_nwriters d - 1" "s32 ?n = ?n"
    "s32 (p_nreaders d) = p_nreaders d" "s32 (p_nwriters d) = p_nwriters d"
    using assms(2-5) by (auto intro!: s32_id simp: of_bool_def split: if_splits)
  from assms(1) obtain bs where b: "fmlookup (hp_blk h) (p_buffer d) = Some (By_kmalloc, bs)" "p_buffer d \<noteq> NULL"
    by (elim pipe_okE)
  have "scull_p_release helper False rd wr d h =
    (if ?n = 0 then Inr (0, d1\<lparr>p_buffer := NULL\<rparr>, h\<lparr>hp_blk := fmdrop (p_buffer d) (hp_blk h)\<rparr>) else Inr (0, d1, h))"
    using s b by (cases rd; cases wr)
      (simp_all add: scull_p_release_def scull_p_fasync_def f Let_def free_blk_def d1_def p_up_def p_down_def)
  with assms(1) show ?thesis by (auto simp: d1_def)
qed

section \<open>A small pipe\<close>

definition demo_pipe :: scull_pipe where
  "demo_pipe = \<lparr>p_buffer = 8, p_end = 12, p_buffersize = 4, p_rp = 11, p_wp = 9, p_nreaders = 1,
     p_nwriters = 1, p_async = False, p_sem = 1\<rparr>"

definition demo_pipe_heap :: heap where
  "demo_pipe_heap = empty_heap\<lparr>hp_blk := fmupd 8 (By_kmalloc, [6, 0, 0, 5]) fmempty\<rparr>"

lemma demo_pipe_ok: "pipe_ok demo_pipe_heap demo_pipe"
  by (simp add: pipe_ok_def demo_pipe_def demo_pipe_heap_def)

lemma demo_pipe_bytes: "pipe_bytes demo_pipe_heap demo_pipe = [5, 6]" "pipe_capacity demo_pipe = 3"
  by (simp_all add: pipe_bytes_def ring_def demo_pipe_def demo_pipe_heap_def pipe_capacity_def)

lemma demo_pipe_fields: "p_buffer demo_pipe = 8" "p_buffersize demo_pipe = 4" "p_nreaders demo_pipe = 1"
  "p_nwriters demo_pipe = 1" "p_sem demo_pipe = 1"
  by (simp_all add: demo_pipe_def)

section \<open>Theorems\<close>

lemma p_write_correct:
  assumes "kernel_ok k" and "pipe_ok h d"
  shows "\<exists>v d' h'. p_write_nonblock k False ubuf count d h = Inr (v, d', h') \<and> pipe_ok h' d' \<and> p_sem d' = p_sem d \<and>
    (v = - EAGAIN \<longleftrightarrow> length (pipe_bytes h d) = pipe_capacity d) \<and>
    (if v < 0 then v \<in> {- EAGAIN, - EFAULT} \<and> pipe_bytes h' d' = pipe_bytes h d
     else nat v \<le> count \<and> nat v \<le> length ubuf \<and> (0 < count \<longrightarrow> 0 < v) \<and>
          pipe_bytes h' d' = pipe_bytes h d @ take (nat v) ubuf)"
  by (rule p_write_nonblock_cases [OF assms, of ubuf count]) (use assms in auto)

lemma p_read_correct:
  assumes "pipe_ok h d"
  shows "\<exists>v bs d'. p_read_nonblock k False count d h = Inr (v, bs, d') \<and> pipe_ok h d' \<and> p_sem d' = p_sem d \<and>
    (v = - EAGAIN \<longleftrightarrow> pipe_bytes h d = []) \<and>
    (if v < 0 then v \<in> {- EAGAIN, - EFAULT} \<and> pipe_bytes h d' = pipe_bytes h d
     else v = int (length bs) \<and> length bs \<le> count \<and> (0 < count \<longrightarrow> 0 < v) \<and>
          pipe_bytes h d = bs @ pipe_bytes h d')"
proof (rule p_read_nonblock_cases [OF assms, of k count])
  fix n d'
  assume r: "n \<le> count" "n \<le> length (pipe_bytes h d)" "0 < count \<longrightarrow> 0 < n"
    "p_read_nonblock k False count d h = Inr (int n, take n (pipe_bytes h d), d')" "pipe_ok h d'"
    "pipe_bytes h d' = drop n (pipe_bytes h d)" "\<exists>r. d' = d\<lparr>p_rp := r\<rparr>"
  have "pipe_bytes h d \<noteq> []"
  proof
    assume "pipe_bytes h d = []"
    with pipe_empty [OF assms] r(4) show False by (simp add: p_read_nonblock_def)
  qed
  with r show ?thesis by auto
qed (use assms in auto)

text \<open>
  C11. Transfers of callers that do not wait, on a well-formed pipe: they never fault and keep it well-formed with the semaphore
  released. \<open>scull_p_write\<close> appends a prefix of the caller's bytes
  (at least one if any were offered) and returns its length, or leaves the contents as they
  were: with \<open>-EAGAIN\<close> exactly when the buffer is full (one slot is never used), with
  \<open>-EFAULT\<close> when the bytes cannot be read. \<open>scull_p_read\<close> returns \<open>-EAGAIN\<close> exactly when the pipe is
  empty; otherwise it takes a prefix of the contents (at least one byte if any were asked for)
  and returns its length, or \<open>-EFAULT\<close> with the contents unchanged.
\<close>

theorem scull_p_transfers_correct:
  assumes "kernel_ok k" and "pipe_ok h d"
  shows "(\<exists>v d' h'. p_write_nonblock k False ubuf count d h = Inr (v, d', h') \<and> pipe_ok h' d' \<and> p_sem d' = p_sem d \<and>
      (v = - EAGAIN \<longleftrightarrow> length (pipe_bytes h d) = pipe_capacity d) \<and>
      (if v < 0 then v \<in> {- EAGAIN, - EFAULT} \<and> pipe_bytes h' d' = pipe_bytes h d
       else nat v \<le> count \<and> nat v \<le> length ubuf \<and> (0 < count \<longrightarrow> 0 < v) \<and>
            pipe_bytes h' d' = pipe_bytes h d @ take (nat v) ubuf)) \<and>
    (\<exists>v bs d'. p_read_nonblock k False count d h = Inr (v, bs, d') \<and> pipe_ok h d' \<and> p_sem d' = p_sem d \<and>
      (v = - EAGAIN \<longleftrightarrow> pipe_bytes h d = []) \<and>
      (if v < 0 then v \<in> {- EAGAIN, - EFAULT} \<and> pipe_bytes h d' = pipe_bytes h d
       else v = int (length bs) \<and> length bs \<le> count \<and> (0 < count \<longrightarrow> 0 < v) \<and>
            pipe_bytes h d = bs @ pipe_bytes h d'))"
  by (rule conjI [OF p_write_correct [OF assms] p_read_correct [OF assms(2)]])

theorem scull_p_transfers_correct_witness:
  "(\<exists>d' h'. p_write_nonblock simple_kernel False [7, 8] 2 demo_pipe demo_pipe_heap = Inr (1, d', h') \<and> pipe_bytes h' d' = [5, 6, 7]) \<and>
   (\<exists>d'. p_read_nonblock simple_kernel False 2 demo_pipe demo_pipe_heap = Inr (1, [5], d') \<and> pipe_bytes demo_pipe_heap d' = [6])"
proof -
  have "p_write_nonblock simple_kernel False [7, 8] 2 demo_pipe demo_pipe_heap =
    Inr (1, demo_pipe\<lparr>p_wp := 10\<rparr>, demo_pipe_heap\<lparr>hp_blk := fmupd 8 (By_kmalloc, [6, 7, 0, 5])
      (hp_blk demo_pipe_heap)\<rparr>)"
    by (simp add: p_write_nonblock_def p_write_body_def spacefree_def cmod_def signed_modulo_int_def
        signed_divide_int_def s32_def s64_def clamp_def u64_def write_blk_def load_def poke_def overwrite_def
        p_down_def p_up_def Let_def simple_kernel_def demo_pipe_def demo_pipe_heap_def)
  moreover have "p_read_nonblock simple_kernel False 2 demo_pipe demo_pipe_heap = Inr (1, [5], demo_pipe\<lparr>p_rp := 8\<rparr>)"
    by (simp add: p_read_nonblock_def p_read_body_def s64_def clamp_def u64_def read_blk_def load_def peek_def
        p_down_def p_up_def Let_def simple_kernel_def demo_pipe_def demo_pipe_heap_def)
  ultimately show ?thesis using scull_p_transfers_correct [OF simple_kernel_ok demo_pipe_ok, of "[7, 8]" 2]
    by (auto simp: demo_pipe_bytes)
qed

text \<open>
  C12. The pipe is a bounded first-in first-out queue: over any sequence of non-blocking writes and
  reads, successful or not, the bytes delivered followed by the bytes still in the buffer are the
  bytes that were in the buffer followed by the bytes accepted, and never more
  than \<open>buffersize - 1\<close> bytes wait.
\<close>

theorem scull_pipe_fifo:
  assumes "kernel_ok k" and "pipe_ok h d"
    and "run_queue pipe_put pipe_get ops (k, d, h) = (sent, recv, (k', d', h'))"
  shows "pipe_bytes h d @ sent = recv @ pipe_bytes h' d' \<and> pipe_ok h' d' \<and>
    length (pipe_bytes h d) + length sent \<le> length recv + pipe_capacity d"
  using pq.fifo [of "(k, d, h)" ops] pq.no_overflow [of "(k, d, h)" ops] assms by (auto simp: pipe_inv_def)

theorem scull_pipe_fifo_witness:
  "\<exists>sent recv k' d' h'. run_queue pipe_put pipe_get [Put [7, 8], Get 2, Get 2, Put [1]] (simple_kernel, demo_pipe, demo_pipe_heap) =
      (sent, recv, (k', d', h')) \<and> [5, 6] @ sent = recv @ pipe_bytes h' d'"
proof -
  obtain sent recv k' d' h' where
    "run_queue pipe_put pipe_get [Put [7, 8], Get 2, Get 2, Put [1]] (simple_kernel, demo_pipe, demo_pipe_heap) =
      (sent, recv, (k', d', h'))"
    by (metis prod.exhaust)
  with scull_pipe_fifo [OF simple_kernel_ok demo_pipe_ok this] show ?thesis by (auto simp: demo_pipe_bytes)
qed

end
