(* ===== verification/Scull_Pipe_Sys.thy ===== *)
theory Scull_Pipe_Sys
  imports Scull_Pipe
begin

text \<open>
  Readers and writers of one pipe, running at the same time. \<open>scull_p_read\<close> and
  \<open>scull_p_write\<close> are cut at the points where another process can run while this one waits or
  holds the semaphore: taking the semaphore, the test at the head of the waiting loop together
  with the transfer that follows it, going to sleep, and the wake-up after the semaphore is
  released. A call is a program counter; a system state is the pipe, the heap and the calls in
  progress, with two ghost lists for the bytes accepted and delivered so far. Any call may run
  next, and a signal may be pending for it or not.
\<close>

unbundle bit_operations_syntax

section \<open>Calls in progress\<close>

datatype rd_pc =
    Rd_enter          \<comment> \<open>at the first \<open>down_interruptible\<close>\<close>
  | Rd_loop           \<comment> \<open>holding the semaphore, at \<open>while (rp == wp)\<close>\<close>
  | Rd_wait           \<comment> \<open>released, entering \<open>wait_event_interruptible\<close>\<close>
  | Rd_sleep bool     \<comment> \<open>asleep on \<open>inq\<close>; woken\<close>
  | Rd_again          \<comment> \<open>at the \<open>down_interruptible\<close> of the loop\<close>
  | Rd_wake nat       \<comment> \<open>released after a transfer, before \<open>wake_up_interruptible\<close>\<close>
  | Rd_done int       \<comment> \<open>returned\<close>

datatype wr_pc =
    Wr_enter
  | Wr_loop           \<comment> \<open>holding the semaphore, at \<open>while (!spacefree(dev))\<close>\<close>
  | Wr_prep           \<comment> \<open>released, at \<open>prepare_to_wait\<close>\<close>
  | Wr_queued bool    \<comment> \<open>on \<open>outq\<close>, at \<open>if (!spacefree(dev))\<close>; woken\<close>
  | Wr_sleep bool     \<comment> \<open>in \<open>schedule\<close>; woken\<close>
  | Wr_again
  | Wr_wake nat
  | Wr_done int

datatype task = Reader "32 word" nat rd_pc | Writer "32 word" "byte list" nat wr_pc

section \<open>Steps of one call\<close>

text \<open>
  \<open>None\<close>: the call cannot run now. \<open>down_interruptible\<close> takes a free semaphore; with none
  free it waits until one is, or until a signal comes.
\<close>

definition p_down_interruptible :: "bool \<Rightarrow> scull_pipe \<Rightarrow> (bool \<times> scull_pipe) option" where
  \<comment> \<open>interrupted, and the pipe afterwards\<close>
  "p_down_interruptible sig d =
     (if p_sem d > 0 then Some (False, p_down d) else if sig then Some (True, d) else None)"

definition rd_down :: "bool \<Rightarrow> scull_pipe \<Rightarrow> (rd_pc \<times> byte list \<times> scull_pipe) option res" where
  "rd_down sig d = (case p_down_interruptible sig d of
      None \<Rightarrow> Inr None
    | Some (intr, d') \<Rightarrow> Inr (Some (if intr then Rd_done (- ERESTARTSYS) else Rd_loop, [], d')))"

definition rd_wait_event :: "bool \<Rightarrow> scull_pipe \<Rightarrow> rd_pc" where
  "rd_wait_event sig d =
     (if p_rp d \<noteq> p_wp d then Rd_again else if sig then Rd_done (- ERESTARTSYS) else Rd_sleep False)"

fun rd_step ::
  "kernel \<Rightarrow> bool \<Rightarrow> 32 word \<Rightarrow> nat \<Rightarrow> rd_pc \<Rightarrow> scull_pipe \<Rightarrow> heap \<Rightarrow> (rd_pc \<times> byte list \<times> scull_pipe) option res" where
  "rd_step k sig fl count Rd_enter d h = rd_down sig d"
| "rd_step k sig fl count Rd_loop d h =
     (if p_rp d = p_wp d then
        Inr (Some (if fl = O_NONBLOCK then Rd_done (- EAGAIN) else Rd_wait, [], p_up d))
      else bindE (p_read_body k count d h) (\<lambda>(r, bs, d').
        case r of Inl e \<Rightarrow> Inr (Some (Rd_done e, [], d')) | Inr n \<Rightarrow> Inr (Some (Rd_wake n, bs, d'))))"
| "rd_step k sig fl count Rd_wait d h = Inr (Some (rd_wait_event sig d, [], d))"
| "rd_step k sig fl count (Rd_sleep woken) d h =
     (if woken \<or> sig then Inr (Some (rd_wait_event sig d, [], d)) else Inr None)"
| "rd_step k sig fl count Rd_again d h = rd_down sig d"
| "rd_step k sig fl count (Rd_wake n) d h = Inr (Some (Rd_done (s64 (int n)), [], d))"
| "rd_step k sig fl count (Rd_done v) d h = Inr None"

definition wr_down :: "bool \<Rightarrow> scull_pipe \<Rightarrow> heap \<Rightarrow> (wr_pc \<times> byte list \<times> scull_pipe \<times> heap) option res" where
  "wr_down sig d h = (case p_down_interruptible sig d of
      None \<Rightarrow> Inr None
    | Some (intr, d') \<Rightarrow> Inr (Some (if intr then Wr_done (- ERESTARTSYS) else Wr_loop, [], d', h)))"

definition wr_finish_wait :: "bool \<Rightarrow> wr_pc" where
  \<comment> \<open>\<open>finish_wait\<close> and the test of \<open>signal_pending\<close>\<close>
  "wr_finish_wait sig = (if sig then Wr_done (- ERESTARTSYS) else Wr_again)"

fun wr_step ::
  "kernel \<Rightarrow> bool \<Rightarrow> 32 word \<Rightarrow> byte list \<Rightarrow> nat \<Rightarrow> wr_pc \<Rightarrow> scull_pipe \<Rightarrow> heap \<Rightarrow>
   (wr_pc \<times> byte list \<times> scull_pipe \<times> heap) option res" where
  \<comment> \<open>the byte list: what was accepted\<close>
  "wr_step k sig fl ubuf count Wr_enter d h = wr_down sig d h"
| "wr_step k sig fl ubuf count Wr_loop d h =
     bindE (spacefree d) (\<lambda>free.
       if free = 0 then
         Inr (Some (if fl AND O_NONBLOCK \<noteq> 0 then Wr_done (- EAGAIN) else Wr_prep, [], p_up d, h))
       else bindE (p_write_body k ubuf count d h) (\<lambda>(r, d', h').
         case r of Inl e \<Rightarrow> Inr (Some (Wr_done e, [], d', h'))
         | Inr n \<Rightarrow> Inr (Some (Wr_wake n, take n ubuf, d', h'))))"
| "wr_step k sig fl ubuf count Wr_prep d h = Inr (Some (Wr_queued False, [], d, h))"
| "wr_step k sig fl ubuf count (Wr_queued woken) d h =
     bindE (spacefree d) (\<lambda>free.
       Inr (Some (if free = 0 then Wr_sleep woken else wr_finish_wait sig, [], d, h)))"
| "wr_step k sig fl ubuf count (Wr_sleep woken) d h =
     (if woken \<or> sig then Inr (Some (wr_finish_wait sig, [], d, h)) else Inr None)"
| "wr_step k sig fl ubuf count Wr_again d h = wr_down sig d h"
| "wr_step k sig fl ubuf count (Wr_wake n) d h = Inr (Some (Wr_done (s64 (int n)), [], d, h))"
| "wr_step k sig fl ubuf count (Wr_done v) d h = Inr None"

section \<open>The system\<close>

record pipe_sys =
  sys_dev :: scull_pipe
  sys_heap :: heap
  sys_tasks :: "task list"
  sys_sent :: "byte list"   \<comment> \<open>ghost: accepted by writes so far\<close>
  sys_recv :: "byte list"   \<comment> \<open>ghost: delivered by reads so far\<close>
  sys_sigio :: nat          \<comment> \<open>ghost: calls of \<open>kill_fasync\<close> so far\<close>

text \<open>\<open>wake_up_interruptible\<close> on \<open>outq\<close> and on \<open>inq\<close>.\<close>

fun wake_outq :: "task \<Rightarrow> task" where
  "wake_outq (Writer fl u n (Wr_queued w)) = Writer fl u n (Wr_queued True)"
| "wake_outq (Writer fl u n (Wr_sleep w)) = Writer fl u n (Wr_sleep True)"
| "wake_outq t = t"

fun wake_inq :: "task \<Rightarrow> task" where
  "wake_inq (Reader fl n (Rd_sleep w)) = Reader fl n (Rd_sleep True)"
| "wake_inq t = t"

fun raises_sigio :: "scull_pipe \<Rightarrow> task \<Rightarrow> bool" where
  "raises_sigio d (Writer fl u n (Wr_wake m)) = p_async d"
| "raises_sigio d t = False"

fun wake_of :: "task \<Rightarrow> task \<Rightarrow> task" where
  \<comment> \<open>what the step of this call does to the others\<close>
  "wake_of (Reader fl n (Rd_wake m)) t = wake_outq t"
| "wake_of (Writer fl u n (Wr_wake m)) t = wake_inq t"
| "wake_of t0 t = t"

definition sys_next :: "kernel \<Rightarrow> nat \<Rightarrow> bool \<Rightarrow> pipe_sys \<Rightarrow> pipe_sys option res" where
  "sys_next k i sig s =
     (case sys_tasks s ! i of
        Reader fl n pc \<Rightarrow>
          bindE (rd_step k sig fl n pc (sys_dev s) (sys_heap s)) (\<lambda>r.
            case r of None \<Rightarrow> Inr None
            | Some (pc', bs, d') \<Rightarrow>
                Inr (Some (s\<lparr>sys_dev := d', sys_recv := sys_recv s @ bs,
                   sys_tasks := map (wake_of (sys_tasks s ! i)) ((sys_tasks s)[i := Reader fl n pc'])\<rparr>)))
      | Writer fl u n pc \<Rightarrow>
          bindE (wr_step k sig fl u n pc (sys_dev s) (sys_heap s)) (\<lambda>r.
            case r of None \<Rightarrow> Inr None
            | Some (pc', bs, d', h') \<Rightarrow>
                Inr (Some (s\<lparr>sys_dev := d', sys_heap := h', sys_sent := sys_sent s @ bs,
                   sys_sigio := sys_sigio s + of_bool (raises_sigio (sys_dev s) (sys_tasks s ! i)),
                   sys_tasks := map (wake_of (sys_tasks s ! i)) ((sys_tasks s)[i := Writer fl u n pc'])\<rparr>))))"

inductive sys_step :: "kernel \<Rightarrow> pipe_sys \<Rightarrow> pipe_sys \<Rightarrow> bool" for k where
  run_task: "i < length (sys_tasks s) \<Longrightarrow> sys_next k i sig s = Inr (Some s') \<Longrightarrow> sys_step k s s'"
| new_read: "sys_step k s (s\<lparr>sys_tasks := sys_tasks s @ [Reader fl n Rd_enter]\<rparr>)"
| new_write: "sys_step k s (s\<lparr>sys_tasks := sys_tasks s @ [Writer fl u n Wr_enter]\<rparr>)"

inductive reachable :: "kernel \<Rightarrow> pipe_sys \<Rightarrow> pipe_sys \<Rightarrow> bool" for k where
  initial: "reachable k s s"
| later: "reachable k s0 s \<Longrightarrow> sys_step k s s' \<Longrightarrow> reachable k s0 s'"

inductive_cases sys_stepE: "sys_step k s s'"

section \<open>Invariant\<close>

fun holds_sem :: "task \<Rightarrow> bool" where
  "holds_sem (Reader fl n Rd_loop) = True"
| "holds_sem (Writer fl u n Wr_loop) = True"
| "holds_sem t = False"

fun waking_out :: "task \<Rightarrow> bool" where
  "waking_out (Reader fl n (Rd_wake m)) = True"
| "waking_out t = False"

fun waking_in :: "task \<Rightarrow> bool" where
  "waking_in (Writer fl u n (Wr_wake m)) = True"
| "waking_in t = False"

fun sleeping_out :: "task \<Rightarrow> bool" where
  "sleeping_out (Writer fl u n (Wr_sleep False)) = True"
| "sleeping_out t = False"

fun sleeping_in :: "task \<Rightarrow> bool" where
  "sleeping_in (Reader fl n (Rd_sleep False)) = True"
| "sleeping_in t = False"

definition holders :: "task list \<Rightarrow> nat" where
  "holders ts = length (filter holds_sem ts)"

definition is_full :: "pipe_sys \<Rightarrow> bool" where
  "is_full s \<longleftrightarrow> length (pipe_bytes (sys_heap s) (sys_dev s)) = pipe_capacity (sys_dev s)"

definition is_empty :: "pipe_sys \<Rightarrow> bool" where
  "is_empty s \<longleftrightarrow> pipe_bytes (sys_heap s) (sys_dev s) = []"

definition sys_safe :: "pipe_sys \<Rightarrow> bool" where
  "sys_safe s \<longleftrightarrow>
     pipe_ok (sys_heap s) (sys_dev s) \<and> 0 \<le> p_sem (sys_dev s) \<and>
     p_sem (sys_dev s) + int (holders (sys_tasks s)) = 1"

definition no_lost_wakeup :: "pipe_sys \<Rightarrow> bool" where
  "no_lost_wakeup s \<longleftrightarrow>
     (list_ex sleeping_out (sys_tasks s) \<longrightarrow> is_full s \<or> list_ex waking_out (sys_tasks s)) \<and>
     (list_ex sleeping_in (sys_tasks s) \<longrightarrow> is_empty s \<or> list_ex waking_in (sys_tasks s))"

fun returned :: "task \<Rightarrow> bool" where
  "returned (Reader fl n (Rd_done v)) = True"
| "returned (Writer fl u n (Wr_done v)) = True"
| "returned t = False"

definition stuck :: "kernel \<Rightarrow> pipe_sys \<Rightarrow> bool" where
  \<comment> \<open>no call can go on unless a signal comes\<close>
  "stuck k s \<longleftrightarrow> list_all (\<lambda>i. sys_next k i False s = Inr None) [0 ..< length (sys_tasks s)]"

definition sys_start :: "scull_pipe \<Rightarrow> heap \<Rightarrow> pipe_sys" where
  "sys_start d h = \<lparr>sys_dev = d, sys_heap = h, sys_tasks = [], sys_sent = [], sys_recv = [], sys_sigio = 0\<rparr>"

section \<open>Steps in detail\<close>

lemma p_down_sem: "p_sem (p_down d) = p_sem d - 1" "p_sem (p_up d) = p_sem d + 1"
  by (simp_all add: p_down_def p_up_def)

text \<open>What one step of a call does to the pipe, seen from outside.\<close>

lemma rd_step_ok:
  assumes ok: "pipe_ok h d"
  shows "rd_step k sig fl n pc d h = Inr None \<or>
    (\<exists>pc' bs d'. rd_step k sig fl n pc d h = Inr (Some (pc', bs, d')) \<and> pipe_ok h d' \<and>
       pipe_bytes h d = bs @ pipe_bytes h d' \<and> pipe_capacity d' = pipe_capacity d \<and>
       p_sem d' + of_bool (pc' = Rd_loop) = p_sem d + of_bool (pc = Rd_loop) \<and>
       (pc' = Rd_loop \<longrightarrow> 0 < p_sem d) \<and>
       (bs \<noteq> [] \<longrightarrow> (\<exists>m. pc' = Rd_wake m)) \<and> (pc' = Rd_sleep False \<longrightarrow> pipe_bytes h d' = []))"
proof (cases pc)
  case Rd_loop
  show ?thesis
  proof (cases "p_rp d = p_wp d")
    case True
    with Rd_loop ok show ?thesis by (auto simp: p_down_sem)
  next
    case False
    obtain m d' where b: "m \<le> n" "m \<le> length (pipe_bytes h d)" "0 < n \<longrightarrow> 0 < m"
      "p_read_body k n d h =
       (if copy_to_user k (take m (pipe_bytes h d)) = 0
        then Inr (Inr m, take m (pipe_bytes h d), p_up d')
        else Inr (Inl (- EFAULT), take m (pipe_bytes h d), p_up d))"
      "pipe_ok h d'" "pipe_bytes h d' = drop m (pipe_bytes h d)" "\<exists>r. d' = d\<lparr>p_rp := r\<rparr>"
      by (rule p_read_body_ok [OF ok False])
    then have "p_sem d' = p_sem d" "pipe_capacity d' = pipe_capacity d" by (auto simp: pipe_capacity_def)
    with b Rd_loop False ok show ?thesis by (simp add: p_down_sem)
  qed
qed (use ok pipe_empty [OF ok] in
    \<open>auto simp: rd_down_def rd_wait_event_def p_down_interruptible_def p_down_sem\<close>)

lemma wr_step_ok:
  assumes k: "kernel_ok k" and ok: "pipe_ok h d"
  shows "wr_step k sig fl u n pc d h = Inr None \<or>
    (\<exists>pc' bs d' h'. wr_step k sig fl u n pc d h = Inr (Some (pc', bs, d', h')) \<and> pipe_ok h' d' \<and>
       pipe_bytes h' d' = pipe_bytes h d @ bs \<and> pipe_capacity d' = pipe_capacity d \<and>
       p_sem d' + of_bool (pc' = Wr_loop) = p_sem d + of_bool (pc = Wr_loop) \<and>
       (pc' = Wr_loop \<longrightarrow> 0 < p_sem d) \<and> (bs \<noteq> [] \<longrightarrow> (\<exists>m. pc' = Wr_wake m)) \<and>
       (pc' = Wr_sleep False \<longrightarrow> length (pipe_bytes h' d') = pipe_capacity d'))"
proof (cases pc)
  case Wr_loop
  note free = spacefree_ok [OF ok]
  show ?thesis
  proof (cases "length (pipe_bytes h d) = pipe_capacity d")
    case True
    with Wr_loop ok free show ?thesis by (auto simp: p_down_sem)
  next
    case False
    then have room: "length (pipe_bytes h d) < pipe_capacity d" using free by simp
    obtain m d' h' where b: "m \<le> n" "m \<le> pipe_capacity d - length (pipe_bytes h d)" "0 < n \<longrightarrow> 0 < m"
      "p_write_body k u n d h =
       (if fst (copy_from_user k u m) = 0 then Inr (Inr m, p_up d', h')
        else Inr (Inl (- EFAULT), p_up d, h'))"
      "pipe_ok h' d" "pipe_bytes h' d = pipe_bytes h d"
      "fst (copy_from_user k u m) = 0 \<longrightarrow>
       m \<le> length u \<and> pipe_ok h' d' \<and> pipe_bytes h' d' = pipe_bytes h d @ take m u"
      "\<exists>w. d' = d\<lparr>p_wp := w\<rparr>"
      by (rule p_write_body_ok [OF k ok room, of n u])
    then have "p_sem d' = p_sem d" "pipe_capacity d' = pipe_capacity d" by (auto simp: pipe_capacity_def)
    with b Wr_loop room free show ?thesis by (simp add: p_down_sem)
  qed
qed (use ok spacefree_ok [OF ok] in
    \<open>auto simp: wr_down_def wr_finish_wait_def p_down_interruptible_def p_down_sem\<close>)

lemma holders_update:
  assumes "i < length ts"
  shows "int (holders (ts[i := t])) = int (holders ts) - of_bool (holds_sem (ts ! i)) + of_bool (holds_sem t)"
proof -
  have ts: "ts = take i ts @ ts ! i # drop (Suc i) ts" using assms by (rule id_take_nth_drop)
  have "ts[i := t] = take i ts @ t # drop (Suc i) ts" using assms by (rule upd_conv_take_nth_drop)
  then show ?thesis by (subst (2) ts) (simp add: holders_def)
qed

lemma wake_of_eq: "wake_of t0 = (if waking_out t0 then wake_outq else if waking_in t0 then wake_inq else id)"
proof
  fix t
  show "wake_of t0 t = (if waking_out t0 then wake_outq else if waking_in t0 then wake_inq else id) t"
    by (cases "(t0, t)" rule: wake_of.cases) simp_all
qed

lemma wake_outq_simps [simp]:
  "holds_sem (wake_outq t) = holds_sem t" "waking_out (wake_outq t) = waking_out t"
  "waking_in (wake_outq t) = waking_in t" "\<not> sleeping_out (wake_outq t)"
  "sleeping_in (wake_outq t) = sleeping_in t"
  by (cases t rule: wake_outq.cases; simp)+

lemma wake_inq_simps [simp]:
  "holds_sem (wake_inq t) = holds_sem t" "waking_out (wake_inq t) = waking_out t"
  "waking_in (wake_inq t) = waking_in t" "\<not> sleeping_in (wake_inq t)"
  "sleeping_out (wake_inq t) = sleeping_out t"
  by (cases t rule: wake_inq.cases; simp)+

lemma wake_of_simps [simp]:
  "holds_sem (wake_of t0 t) = holds_sem t" "waking_out (wake_of t0 t) = waking_out t"
  "waking_in (wake_of t0 t) = waking_in t"
  "sleeping_out (wake_of t0 t) \<longleftrightarrow> sleeping_out t \<and> \<not> waking_out t0"
  "waking_out t0 \<Longrightarrow> sleeping_in (wake_of t0 t) = sleeping_in t"
  "sleeping_in (wake_of t0 t) \<Longrightarrow> sleeping_in t" "waking_in t0 \<Longrightarrow> \<not> sleeping_in (wake_of t0 t)"
proof -
  have x: "waking_in t0 \<Longrightarrow> \<not> waking_out t0" by (cases t0 rule: waking_in.cases) simp_all
  show "holds_sem (wake_of t0 t) = holds_sem t" "waking_out (wake_of t0 t) = waking_out t"
    "waking_in (wake_of t0 t) = waking_in t"
    "sleeping_out (wake_of t0 t) \<longleftrightarrow> sleeping_out t \<and> \<not> waking_out t0"
    "waking_out t0 \<Longrightarrow> sleeping_in (wake_of t0 t) = sleeping_in t"
    "sleeping_in (wake_of t0 t) \<Longrightarrow> sleeping_in t" "waking_in t0 \<Longrightarrow> \<not> sleeping_in (wake_of t0 t)"
    using x by (auto simp: wake_of_eq split: if_splits)
qed

text \<open>
  One step of the system: task \<open>i\<close> moves from \<open>t\<close> to \<open>t'\<close>, the bytes \<open>a\<close> enter the
  pipe at one end and the bytes \<open>b\<close> leave it at the other.
\<close>

definition moved :: "nat \<Rightarrow> pipe_sys \<Rightarrow> task \<Rightarrow> byte list \<Rightarrow> byte list \<Rightarrow> pipe_sys \<Rightarrow> bool" where
  "moved i s t' a b s' \<longleftrightarrow>
     sys_tasks s' = map (wake_of (sys_tasks s ! i)) ((sys_tasks s)[i := t']) \<and>
     pipe_ok (sys_heap s') (sys_dev s') \<and> pipe_capacity (sys_dev s') = pipe_capacity (sys_dev s) \<and>
     p_sem (sys_dev s') + of_bool (holds_sem t') = p_sem (sys_dev s) + of_bool (holds_sem (sys_tasks s ! i)) \<and>
     (holds_sem t' \<longrightarrow> 0 < p_sem (sys_dev s)) \<and>
     sys_sent s' = sys_sent s @ a \<and> sys_recv s' = sys_recv s @ b \<and>
     pipe_bytes (sys_heap s) (sys_dev s) @ a = b @ pipe_bytes (sys_heap s') (sys_dev s') \<and>
     (a \<noteq> [] \<longrightarrow> waking_in t') \<and> (b \<noteq> [] \<longrightarrow> waking_out t') \<and>
     (sleeping_out t' \<longrightarrow> is_full s') \<and> (sleeping_in t' \<longrightarrow> is_empty s')"

lemma rd_flags:
  "holds_sem (Reader fl n pc) = (pc = Rd_loop)" "waking_out (Reader fl n pc) = (\<exists>m. pc = Rd_wake m)"
  "sleeping_in (Reader fl n pc) = (pc = Rd_sleep False)" "\<not> waking_in (Reader fl n pc)"
  "\<not> sleeping_out (Reader fl n pc)"
  by (cases pc; auto)+

lemma wr_flags:
  "holds_sem (Writer fl u n qc) = (qc = Wr_loop)" "waking_in (Writer fl u n qc) = (\<exists>m. qc = Wr_wake m)"
  "sleeping_out (Writer fl u n qc) = (qc = Wr_sleep False)" "\<not> waking_out (Writer fl u n qc)"
  "\<not> sleeping_in (Writer fl u n qc)"
  by (cases qc; auto)+

lemma sys_next_moved:
  assumes k: "kernel_ok k" and ok: "pipe_ok (sys_heap s) (sys_dev s)"
  shows "sys_next k i sig s = Inr None \<or> (\<exists>t' a b s'. sys_next k i sig s = Inr (Some s') \<and> moved i s t' a b s')"
proof (cases "sys_tasks s ! i")
  case (Reader fl n pc)
  from rd_step_ok [OF ok, of k sig fl n pc] show ?thesis
  proof (elim disjE exE conjE)
    fix pc' bs d'
    assume st: "rd_step k sig fl n pc (sys_dev s) (sys_heap s) = Inr (Some (pc', bs, d'))"
      "pipe_ok (sys_heap s) d'" "pipe_bytes (sys_heap s) (sys_dev s) = bs @ pipe_bytes (sys_heap s) d'"
      "pipe_capacity d' = pipe_capacity (sys_dev s)"
      "p_sem d' + of_bool (pc' = Rd_loop) = p_sem (sys_dev s) + of_bool (pc = Rd_loop)"
      "pc' = Rd_loop \<longrightarrow> 0 < p_sem (sys_dev s)"
      "bs \<noteq> [] \<longrightarrow> (\<exists>m. pc' = Rd_wake m)" "pc' = Rd_sleep False \<longrightarrow> pipe_bytes (sys_heap s) d' = []"
    let ?s = "s\<lparr>sys_dev := d', sys_recv := sys_recv s @ bs,
                   sys_tasks := map (wake_of (sys_tasks s ! i)) ((sys_tasks s)[i := Reader fl n pc'])\<rparr>"
    have "sys_next k i sig s = Inr (Some ?s)" using st(1) by (simp add: sys_next_def Reader)
    moreover have "moved i s (Reader fl n pc') [] bs ?s"
      using st by (simp add: moved_def Reader rd_flags is_full_def is_empty_def)
    ultimately show ?thesis by blast
  qed (simp add: sys_next_def Reader)
next
  case (Writer fl u n pc)
  from wr_step_ok [OF k ok, of sig fl u n pc] show ?thesis
  proof (elim disjE exE conjE)
    fix pc' bs d' h'
    assume st: "wr_step k sig fl u n pc (sys_dev s) (sys_heap s) = Inr (Some (pc', bs, d', h'))"
      "pipe_ok h' d'" "pipe_bytes h' d' = pipe_bytes (sys_heap s) (sys_dev s) @ bs"
      "pipe_capacity d' = pipe_capacity (sys_dev s)"
      "p_sem d' + of_bool (pc' = Wr_loop) = p_sem (sys_dev s) + of_bool (pc = Wr_loop)"
      "pc' = Wr_loop \<longrightarrow> 0 < p_sem (sys_dev s)" "bs \<noteq> [] \<longrightarrow> (\<exists>m. pc' = Wr_wake m)"
      "pc' = Wr_sleep False \<longrightarrow> length (pipe_bytes h' d') = pipe_capacity d'"
    let ?s = "s\<lparr>sys_dev := d', sys_heap := h', sys_sent := sys_sent s @ bs,
                   sys_sigio := sys_sigio s + of_bool (raises_sigio (sys_dev s) (sys_tasks s ! i)),
                   sys_tasks := map (wake_of (sys_tasks s ! i)) ((sys_tasks s)[i := Writer fl u n pc'])\<rparr>"
    have "sys_next k i sig s = Inr (Some ?s)" using st(1) by (simp add: sys_next_def Writer)
    moreover have "moved i s (Writer fl u n pc') bs [] ?s"
      using st by (simp add: moved_def Writer wr_flags is_full_def is_empty_def)
    ultimately show ?thesis by blast
  qed (simp add: sys_next_def Writer)
qed


section \<open>Invariance\<close>

lemma list_ex_update:
  "i < length xs \<Longrightarrow> list_ex P (xs[i := y]) \<longleftrightarrow> P y \<or> (\<exists>j<length xs. j \<noteq> i \<and> P (xs ! j))"
  by (auto simp: list_ex_length nth_list_update)

lemma moved_safe:
  assumes safe: "sys_safe s" and i: "i < length (sys_tasks s)" and m: "moved i s t' a b s'"
  shows "sys_safe s'"
proof -
  have "holders (map (wake_of t0) ts) = holders ts" for t0 ts
    by (induction ts) (simp_all add: holders_def)
  moreover have "p_sem (sys_dev s') + of_bool (holds_sem t') = p_sem (sys_dev s) + of_bool (holds_sem (sys_tasks s ! i))"
    "holds_sem t' \<longrightarrow> 0 < p_sem (sys_dev s)" "pipe_ok (sys_heap s') (sys_dev s')"
    "sys_tasks s' = map (wake_of (sys_tasks s ! i)) ((sys_tasks s)[i := t'])"
    using m by (simp_all add: moved_def)
  ultimately show ?thesis
    using holders_update [OF i, of t'] safe
    by (cases "holds_sem t'"; cases "holds_sem (sys_tasks s ! i)") (simp_all add: sys_safe_def)
qed

lemma moved_wakeup:
  assumes safe: "sys_safe s" and old: "no_lost_wakeup s" and i: "i < length (sys_tasks s)"
    and m: "moved i s t' a b s'"
  shows "no_lost_wakeup s'"
proof -
  let ?t = "sys_tasks s ! i" and ?ts = "sys_tasks s"
  have ts': "list_ex P (sys_tasks s') \<longleftrightarrow> P (wake_of ?t t') \<or> (\<exists>j<length ?ts. j \<noteq> i \<and> P (wake_of ?t (?ts ! j)))" for P
  proof -
    have eq: "sys_tasks s' = map (wake_of ?t) (?ts[i := t'])" using m by (simp add: moved_def)
    show ?thesis unfolding eq using list_ex_update [OF i, of "\<lambda>u. P (wake_of ?t u)" t'] by (simp add: list_ex_iff)
  qed
  have bytes: "pipe_bytes (sys_heap s) (sys_dev s) @ a = b @ pipe_bytes (sys_heap s') (sys_dev s')"
    and wk: "a \<noteq> [] \<longrightarrow> waking_in t'" "b \<noteq> [] \<longrightarrow> waking_out t'"
    and sl: "sleeping_out t' \<longrightarrow> is_full s'" "sleeping_in t' \<longrightarrow> is_empty s'"
    and cap: "pipe_capacity (sys_dev s') = pipe_capacity (sys_dev s)"
    using m by (simp_all add: moved_def)
  have le: "length (pipe_bytes (sys_heap s') (sys_dev s')) \<le> pipe_capacity (sys_dev s')"
    using moved_safe [OF safe i m] spacefree_ok(1) by (simp add: sys_safe_def)
  have full: "is_full s \<Longrightarrow> \<not> waking_out t' \<Longrightarrow> is_full s'"
    using arg_cong [OF bytes, of length] wk(2) le cap by (simp add: is_full_def)
  have empty: "is_empty s \<Longrightarrow> \<not> waking_in t' \<Longrightarrow> is_empty s'"
    using arg_cong [OF bytes, of length] wk(1) by (simp add: is_empty_def)
  have "is_full s' \<or> list_ex waking_out (sys_tasks s')" if "list_ex sleeping_out (sys_tasks s')"
  proof (cases "sleeping_out t'")
    case False
    with that obtain j where "j < length ?ts" "sleeping_out (?ts ! j)" and nw: "\<not> waking_out ?t"
      unfolding ts' by auto
    then have "list_ex sleeping_out ?ts" by (auto simp: list_ex_length)
    with old have "is_full s \<or> list_ex waking_out ?ts" by (simp add: no_lost_wakeup_def)
    then show ?thesis using full nw unfolding ts' by (auto simp: list_ex_length)
  qed (use sl in simp)
  moreover have "is_empty s' \<or> list_ex waking_in (sys_tasks s')" if "list_ex sleeping_in (sys_tasks s')"
  proof (cases "sleeping_in t'")
    case False
    with that obtain j where "j < length ?ts" "sleeping_in (?ts ! j)" and nw: "\<not> waking_in ?t"
      unfolding ts' using wake_of_simps(6,7) by blast
    then have "list_ex sleeping_in ?ts" by (auto simp: list_ex_length)
    with old have "is_empty s \<or> list_ex waking_in ?ts" by (simp add: no_lost_wakeup_def)
    then show ?thesis using empty nw unfolding ts' by (auto simp: list_ex_length)
  qed (use sl in simp)
  ultimately show ?thesis by (simp add: no_lost_wakeup_def)
qed

text \<open>The invariant of all reachable states; \<open>s0\<close> is where the system started.\<close>

definition sys_inv :: "pipe_sys \<Rightarrow> pipe_sys \<Rightarrow> bool" where
  "sys_inv s0 s \<longleftrightarrow>
     sys_safe s \<and> no_lost_wakeup s \<and> pipe_capacity (sys_dev s) = pipe_capacity (sys_dev s0) \<and>
     (\<exists>a b. sys_sent s = sys_sent s0 @ a \<and> sys_recv s = sys_recv s0 @ b \<and>
        pipe_bytes (sys_heap s0) (sys_dev s0) @ a = b @ pipe_bytes (sys_heap s) (sys_dev s))"

lemma sys_inv_step:
  assumes k: "kernel_ok k" and inv: "sys_inv s0 s" and st: "sys_step k s s'"
  shows "sys_inv s0 s'"
  using st
proof cases
  case (run_task i sig)
  have safe: "sys_safe s" and wk: "no_lost_wakeup s" using inv by (simp_all add: sys_inv_def)
  obtain t' a b where m: "moved i s t' a b s'"
    using sys_next_moved [OF k, of s i sig] safe run_task(2) by (auto simp: sys_safe_def)
  from inv obtain a0 b0 where h: "sys_sent s = sys_sent s0 @ a0" "sys_recv s = sys_recv s0 @ b0"
    "pipe_bytes (sys_heap s0) (sys_dev s0) @ a0 = b0 @ pipe_bytes (sys_heap s) (sys_dev s)"
    by (auto simp: sys_inv_def)
  have "sys_sent s' = sys_sent s0 @ (a0 @ a)" "sys_recv s' = sys_recv s0 @ (b0 @ b)"
    "pipe_bytes (sys_heap s0) (sys_dev s0) @ (a0 @ a) = (b0 @ b) @ pipe_bytes (sys_heap s') (sys_dev s')"
    using m h by (simp_all add: moved_def) (metis append.assoc)
  moreover have "pipe_capacity (sys_dev s') = pipe_capacity (sys_dev s0)"
    using inv m by (simp add: sys_inv_def moved_def)
  ultimately show ?thesis
    unfolding sys_inv_def using moved_safe [OF safe run_task(1) m] moved_wakeup [OF safe wk run_task(1) m] by blast
qed (use inv in \<open>auto simp: sys_inv_def sys_safe_def no_lost_wakeup_def holders_def is_full_def is_empty_def\<close>)

lemma reachable_inv:
  "reachable k s0 s \<Longrightarrow> kernel_ok k \<Longrightarrow> sys_inv s0 s0 \<Longrightarrow> sys_inv s0 s"
  by (induction rule: reachable.induct) (auto intro: sys_inv_step)

lemma sys_inv_start: "pipe_ok h d \<Longrightarrow> p_sem d = 1 \<Longrightarrow> sys_inv (sys_start d h) (sys_start d h)"
  by (simp add: sys_inv_def sys_safe_def no_lost_wakeup_def holders_def sys_start_def)

section \<open>Progress\<close>

lemma loops_run:
  "rd_step k sig fl n Rd_loop d h \<noteq> Inr None" "wr_step k sig fl u n Wr_loop d h \<noteq> Inr None"
  by (auto split: sum.splits simp: bindE_def)

lemma holder_runs: "holds_sem (sys_tasks s ! i) \<Longrightarrow> sys_next k i sig s \<noteq> Inr None"
  using loops_run by (cases "sys_tasks s ! i")
    (auto simp: sys_next_def rd_flags wr_flags simp del: rd_step.simps wr_step.simps split: option.splits)

lemma blocked_cases:
  assumes "sys_next k i False s = Inr None" and "0 < p_sem (sys_dev s)"
  shows "returned (sys_tasks s ! i) \<or> sleeping_in (sys_tasks s ! i) \<or> sleeping_out (sys_tasks s ! i)"
proof (cases "sys_tasks s ! i")
  case (Reader fl n pc)
  with assms have st: "rd_step k False fl n pc (sys_dev s) (sys_heap s) = Inr None"
    by (cases "rd_step k False fl n pc (sys_dev s) (sys_heap s)")
      (auto simp: sys_next_def split: option.splits prod.splits)
  then have "pc \<noteq> Rd_loop" using loops_run(1) by metis
  with assms(2) st have "pc = Rd_sleep False \<or> (\<exists>v. pc = Rd_done v)"
    by (cases pc) (auto simp: rd_down_def p_down_interruptible_def split: if_splits)
  then show ?thesis by (auto simp: Reader)
next
  case (Writer fl u n pc)
  with assms have st: "wr_step k False fl u n pc (sys_dev s) (sys_heap s) = Inr None"
    by (cases "wr_step k False fl u n pc (sys_dev s) (sys_heap s)")
      (auto simp: sys_next_def split: option.splits prod.splits)
  then have "pc \<noteq> Wr_loop" using loops_run(2) by metis
  with assms(2) st have "pc = Wr_sleep False \<or> (\<exists>v. pc = Wr_done v)"
    by (cases pc) (auto simp: wr_down_def p_down_interruptible_def split: if_splits)
  then show ?thesis by (auto simp: Writer)
qed

lemma stuck_cases:
  assumes inv: "sys_inv s0 s" and st: "stuck k s" and cap: "0 < pipe_capacity (sys_dev s)"
  shows "list_all returned (sys_tasks s) \<or>
    is_empty s \<and> list_all (\<lambda>t. returned t \<or> sleeping_in t) (sys_tasks s) \<or>
    is_full s \<and> list_all (\<lambda>t. returned t \<or> sleeping_out t) (sys_tasks s)"
proof -
  let ?ts = "sys_tasks s"
  have none: "sys_next k i False s = Inr None" if "i < length ?ts" for i
    using st that by (auto simp: stuck_def list_all_iff)
  have "\<not> list_ex holds_sem ?ts" using none holder_runs [of s _ k False] by (force simp: list_ex_length)
  then have "holders ?ts = 0" by (auto simp: holders_def list_ex_iff filter_empty_conv)
  then have sem: "0 < p_sem (sys_dev s)" using inv by (simp add: sys_inv_def sys_safe_def)
  have all: "returned t \<or> sleeping_in t \<or> sleeping_out t" if "t \<in> set ?ts" for t
    using that blocked_cases [OF none sem] by (auto simp: in_set_conv_nth)
  have x: "returned t \<or> sleeping_in t \<or> sleeping_out t \<Longrightarrow> \<not> waking_in t \<and> \<not> waking_out t" for t
    by (cases t rule: returned.cases) (auto simp: rd_flags wr_flags)
  then have "\<not> list_ex waking_in ?ts" "\<not> list_ex waking_out ?ts" using all unfolding list_ex_iff by blast+
  then have o: "list_ex sleeping_out ?ts \<Longrightarrow> is_full s" and i: "list_ex sleeping_in ?ts \<Longrightarrow> is_empty s"
    using inv by (simp_all add: sys_inv_def no_lost_wakeup_def)
  have "\<not> (is_full s \<and> is_empty s)" using cap by (auto simp: is_full_def is_empty_def)
  with all o i show ?thesis by (auto simp: list_all_iff list_ex_iff)
qed


section \<open>After a poll\<close>

text \<open>A call that has not got past the first \<open>down_interruptible\<close>.\<close>

fun outside :: "task \<Rightarrow> bool" where
  "outside (Reader fl n Rd_enter) = True"
| "outside (Reader fl n (Rd_done v)) = True"
| "outside (Writer fl u n Wr_enter) = True"
| "outside (Writer fl u n (Wr_done v)) = True"
| "outside t = False"

definition locked_out :: "pipe_sys \<Rightarrow> bool" where
  "locked_out s \<longleftrightarrow> p_sem (sys_dev s) = 0 \<and> list_all outside (sys_tasks s) \<and> sys_sent s = [] \<and> sys_recv s = []"

lemma outside_step:
  assumes "outside t" and "sys_tasks s ! i = t" and "i < length (sys_tasks s)" and "locked_out s"
    and "sys_next k i sig s = Inr (Some s')"
  shows "locked_out s'"
proof -
  have wk: "wake_of t = id" using assms(1) by (cases t rule: outside.cases) (auto simp: fun_eq_iff)
  have upd: "list_all outside (sys_tasks s) \<Longrightarrow> outside t' \<Longrightarrow> list_all outside ((sys_tasks s)[i := t'])" for t'
    by (auto simp: list_all_iff dest!: set_update_subset_insert [THEN subsetD])
  from assms(1) show ?thesis
    by (cases t rule: outside.cases)
      (use assms(2-5) wk upd in \<open>auto simp: sys_next_def rd_down_def wr_down_def p_down_interruptible_def locked_out_def
         split: if_splits\<close>)
qed

lemma locked_out_step:
  assumes "locked_out s" and "sys_step k s s'"
  shows "locked_out s'"
  using assms(2)
proof cases
  case (run_task i sig)
  then have "outside (sys_tasks s ! i)" using assms(1) by (simp add: locked_out_def list_all_length)
  with run_task assms(1) show ?thesis by (blast intro: outside_step)
qed (use assms(1) in \<open>auto simp: locked_out_def\<close>)

lemma locked_out_forever: "reachable k s0 s \<Longrightarrow> locked_out s0 \<Longrightarrow> locked_out s"
  by (induction rule: reachable.induct) (auto intro: locked_out_step)

text \<open>
  Polls between the steps of the other calls. The flag of a step says that it is a poll which a signal interrupted while it waited for the
  semaphore.
\<close>

inductive poll_step :: "kernel \<Rightarrow> bool \<Rightarrow> pipe_sys \<Rightarrow> pipe_sys \<Rightarrow> bool" for k where
  call: "sys_step k s s' \<Longrightarrow> poll_step k False s s'"
| poll: "p_down_interruptible sig (sys_dev s) = Some (intr, d) \<Longrightarrow> scull_p_poll intr (sys_dev s) = Inr (bits, d') \<Longrightarrow>
    poll_step k intr s (s\<lparr>sys_dev := d'\<rparr>)"

lemma locked_out_poll_step:
  assumes "poll_step k False s s'" and "locked_out s"
  shows "locked_out s'"
  using assms(1)
proof cases
  case call
  then show ?thesis by (rule locked_out_step [OF assms(2)])
qed (use assms(2) in \<open>simp add: locked_out_def p_down_interruptible_def split: if_splits\<close>)

lemma locked_out_polls: "(poll_step k False)\<^sup>*\<^sup>* s0 s \<Longrightarrow> locked_out s0 \<Longrightarrow> locked_out s"
  by (induction rule: rtranclp_induct) (auto intro: locked_out_poll_step)

lemma poll_answer:
  assumes "pipe_ok h d"
  shows "scull_p_poll True d =
    Inr ((if length (pipe_bytes h d) < pipe_capacity d then {POLLOUT, POLLWRNORM} else {}) \<union> (if pipe_bytes h d = [] then {} else {POLLIN, POLLRDNORM}), p_up d)"
  using spacefree_ok [OF assms] pipe_empty [OF assms] by (auto simp: scull_p_poll_def)

lemma interrupted_poll_step:
  assumes "poll_step k True s s'"
  shows "p_sem (sys_dev s') = p_sem (sys_dev s) + 1"
  using assms by cases (auto simp: scull_p_poll_def p_up_def bindE_def split: sum.splits)

text \<open>A reader that holds the semaphore, a poll that waits for it and is interrupted, and a writer that comes then.\<close>

lemma poll_lets_in:
  assumes ok: "pipe_ok h d" and sem: "p_sem d = 1"
  obtains s s' s'' where "reachable k (sys_start d h) s" and "poll_step k True s s'" and "reachable k s' s''" and "holders (sys_tasks s'') = 2"
proof -
  let ?r = "Reader 0 1 Rd_loop" and ?w = "Writer 0 [] 0"
  let ?s = "(sys_start (p_down d) h)\<lparr>sys_tasks := [?r]\<rparr>"
  let ?s' = "?s\<lparr>sys_dev := d\<rparr>"
  let ?s'' = "?s\<lparr>sys_tasks := [?r, ?w Wr_loop]\<rparr>"
  have 1: "sys_step k (sys_start d h) ((sys_start d h)\<lparr>sys_tasks := [Reader 0 1 Rd_enter]\<rparr>)"
    using new_read [of k "sys_start d h" 0 1] by (simp add: sys_start_def)
  have 2: "sys_step k ((sys_start d h)\<lparr>sys_tasks := [Reader 0 1 Rd_enter]\<rparr>) ?s"
    by (rule run_task [of 0 _ _ False]) (simp_all add: sys_start_def sys_next_def rd_down_def p_down_interruptible_def sem)
  have ud: "p_up (p_down d) = d" by (simp add: p_up_def p_down_def)
  have "\<exists>bits. scull_p_poll True (p_down d) = Inr (bits, d)"
    using poll_answer [of h "p_down d"] ok unfolding pipe_ok_sem ud by blast
  then obtain bits where "scull_p_poll True (p_down d) = Inr (bits, d)" ..
  moreover have "?s\<lparr>sys_dev := d\<rparr> = ?s'" "sys_dev ?s = p_down d" by (simp_all add: sys_start_def)
  ultimately have 3: "poll_step k True ?s ?s'"
    using poll [of True ?s True "p_down d" bits d k] by (simp add: p_down_interruptible_def p_down_sem sem)
  have 4: "sys_step k ?s' (?s'\<lparr>sys_tasks := [?r, ?w Wr_enter]\<rparr>)" using new_write [of k ?s' 0 "[]" 0] by simp
  have 5: "sys_step k (?s'\<lparr>sys_tasks := [?r, ?w Wr_enter]\<rparr>) ?s''"
    by (rule run_task [of 1 _ _ False]) (simp_all add: sys_start_def sys_next_def wr_down_def p_down_interruptible_def sem)
  show thesis
    by (rule that [OF reachable.later [OF reachable.later [OF reachable.initial 1] 2] 3 reachable.later [OF reachable.later [OF reachable.initial 4] 5]])
      (simp add: holders_def)
qed

section \<open>Theorems\<close>

text \<open>The small pipe with a reader and a writer that have just called.\<close>

definition demo_sys :: pipe_sys where
  "demo_sys = (sys_start demo_pipe demo_pipe_heap)
     \<lparr>sys_tasks := [Reader 0 4 Rd_enter, Writer 0 [1] 1 Wr_enter]\<rparr>"

lemma demo_reachable: "reachable simple_kernel (sys_start demo_pipe demo_pipe_heap) demo_sys"
proof -
  let ?s0 = "sys_start demo_pipe demo_pipe_heap" and ?t = "Reader 0 4 Rd_enter"
  have "reachable simple_kernel ?s0 (?s0\<lparr>sys_tasks := sys_tasks ?s0 @ [?t]\<rparr>)"
    by (rule reachable.later [OF reachable.initial new_read])
  from reachable.later [OF this new_write [of _ _ 0 "[1]" 1]] show ?thesis
    by (simp add: demo_sys_def sys_start_def)
qed

text \<open>
  C14. The pipe under concurrency: with any number of readers and writers, blocking or
  not, interrupted or not, in every interleaving, the bytes delivered so far followed by the
  contents of the buffer are the initial contents followed by the bytes accepted so far: none is lost, doubled or overtaken. The buffer
  stays well-formed, at most one call holds the semaphore, whose counter is the number of free places,
  and no step of any call faults.
\<close>

theorem pipe_concurrent_correct:
  assumes "kernel_ok k" and "pipe_ok h d" and "p_sem d = 1" and "reachable k (sys_start d h) s"
  shows "pipe_bytes h d @ sys_sent s = sys_recv s @ pipe_bytes (sys_heap s) (sys_dev s) \<and>
    pipe_ok (sys_heap s) (sys_dev s) \<and> p_sem (sys_dev s) = 1 - int (holders (sys_tasks s)) \<and>
    holders (sys_tasks s) \<le> 1 \<and> (\<forall>i sig f. sys_next k i sig s \<noteq> Inl f)"
proof -
  have inv: "sys_safe s" "pipe_bytes h d @ sys_sent s = sys_recv s @ pipe_bytes (sys_heap s) (sys_dev s)"
    using reachable_inv [OF assms(4,1) sys_inv_start [OF assms(2,3)]] by (auto simp: sys_inv_def sys_start_def)
  then have "sys_next k i sig s \<noteq> Inl f" for i sig f
    using sys_next_moved [OF assms(1), of s i sig] by (auto simp: sys_safe_def)
  with inv show ?thesis by (auto simp: sys_safe_def)
qed

theorem pipe_concurrent_correct_witness:
  "[5, 6] @ sys_sent demo_sys = sys_recv demo_sys @ pipe_bytes (sys_heap demo_sys) (sys_dev demo_sys) \<and>
   pipe_ok (sys_heap demo_sys) (sys_dev demo_sys) \<and> (\<forall>i sig f. sys_next simple_kernel i sig demo_sys \<noteq> Inl f)"
  using pipe_concurrent_correct [OF simple_kernel_ok demo_pipe_ok _ demo_reachable] by (simp add: demo_pipe_fields demo_pipe_bytes)

text \<open>
  C15. No lost wake-up and no deadlock: in every reachable state, a sleeping writer that has not been
  woken means a full buffer or a reader about to wake it, and a sleeping reader an empty buffer or
  a writer about to wake it. If no call can go on without a signal, then either all calls have
  returned, or all others are readers asleep on an empty pipe, or all others are writers
  asleep on a full one (for a buffer of at least two bytes).
\<close>

theorem pipe_concurrent_progress:
  assumes "kernel_ok k" and "pipe_ok h d" and "p_sem d = 1" and "reachable k (sys_start d h) s"
    and "1 < p_buffersize d"
  shows "no_lost_wakeup s \<and>
    (stuck k s \<longrightarrow>
       list_all returned (sys_tasks s) \<or>
       is_empty s \<and> list_all (\<lambda>t. returned t \<or> sleeping_in t) (sys_tasks s) \<or>
       is_full s \<and> list_all (\<lambda>t. returned t \<or> sleeping_out t) (sys_tasks s))"
proof -
  have inv: "sys_inv (sys_start d h) s"
    using reachable_inv [OF assms(4,1) sys_inv_start [OF assms(2,3)]] .
  moreover have "0 < pipe_capacity (sys_dev s)"
    using inv assms(5) by (simp add: sys_inv_def sys_start_def pipe_capacity_def)
  ultimately have "stuck k s \<longrightarrow>
       list_all returned (sys_tasks s) \<or>
       is_empty s \<and> list_all (\<lambda>t. returned t \<or> sleeping_in t) (sys_tasks s) \<or>
       is_full s \<and> list_all (\<lambda>t. returned t \<or> sleeping_out t) (sys_tasks s)"
    using stuck_cases by blast
  moreover have "no_lost_wakeup s" using inv by (simp add: sys_inv_def)
  ultimately show ?thesis by blast
qed

theorem pipe_concurrent_progress_witness: "no_lost_wakeup demo_sys"
  using pipe_concurrent_progress [OF simple_kernel_ok demo_pipe_ok _ demo_reachable] by (simp add: demo_pipe_fields)

text \<open>
  C17. \<open>scull_p_poll\<close> tests \<open>down_interruptible\<close> the wrong way round. When it gets the
  semaphore it returns an empty mask, whatever the buffer holds, and keeps the semaphore: from then on no read or write transfers a byte, in any
  interleaving with further polls, until a poll that waits for the semaphore is interrupted. That one gives the right mask, for space and for data,
  and releases the semaphore it has not taken: in the first case this opens the pipe again; but if it had been waiting for a read or a write, two calls
  are then inside together.
\<close>

theorem poll_locks_pipe:
  assumes "pipe_ok h d" and "p_sem d = 1"
  shows "scull_p_poll False d = Inr ({}, p_down d) \<and>
    (\<forall>s. (poll_step k False)\<^sup>*\<^sup>* (sys_start (p_down d) h) s \<longrightarrow> sys_sent s = [] \<and> sys_recv s = [] \<and> p_sem (sys_dev s) = 0 \<and>
       (\<forall>s'. poll_step k True s s' \<longrightarrow> p_sem (sys_dev s') = 1)) \<and>
    scull_p_poll True d = Inr ((if length (pipe_bytes h d) < pipe_capacity d then {POLLOUT, POLLWRNORM} else {}) \<union>
       (if pipe_bytes h d = [] then {} else {POLLIN, POLLRDNORM}), p_up d) \<and>
    (\<exists>s s' s''. reachable k (sys_start d h) s \<and> poll_step k True s s' \<and> reachable k s' s'' \<and> holders (sys_tasks s'') = 2)"
proof -
  have l: "locked_out (sys_start (p_down d) h)" using assms(2) by (simp add: locked_out_def sys_start_def p_down_sem)
  have "sys_sent s = [] \<and> sys_recv s = [] \<and> p_sem (sys_dev s) = 0 \<and> (\<forall>s'. poll_step k True s s' \<longrightarrow> p_sem (sys_dev s') = 1)"
    if "(poll_step k False)\<^sup>*\<^sup>* (sys_start (p_down d) h) s" for s
    using locked_out_polls [OF that l] interrupted_poll_step [of k s] by (auto simp: locked_out_def)
  moreover have "\<exists>s s' s''. reachable k (sys_start d h) s \<and> poll_step k True s s' \<and> reachable k s' s'' \<and> holders (sys_tasks s'') = 2"
    by (rule poll_lets_in [OF assms, of k]) blast
  ultimately show ?thesis using poll_answer [OF assms(1)] by (simp add: scull_p_poll_def)
qed

theorem poll_locks_pipe_witness:
  "scull_p_poll False demo_pipe = Inr ({}, p_down demo_pipe) \<and> pipe_bytes demo_pipe_heap demo_pipe \<noteq> [] \<and>
   scull_p_poll True demo_pipe = Inr ({POLLIN, POLLRDNORM, POLLOUT, POLLWRNORM}, p_up demo_pipe)"
  using poll_locks_pipe [OF demo_pipe_ok, of simple_kernel] by (simp add: demo_pipe_fields demo_pipe_bytes)

end
