(* ===== verification/Byte_Store.thy ===== *)
theory Byte_Store
  imports Prelude
begin

text \<open>
  What a program expects of a device that stores bytes, as two contracts. \<open>byte_store\<close>: reads deliver what
  was written last. \<open>byte_file\<close> extends it by progress: appending always gets some bytes stored and
  reading gets some bytes until the end, so that the usual loops around \<^verbatim>\<open>write(2)\<close> and
  \<^verbatim>\<open>read(2)\<close>, which have to cope with short transfers, move whole files.
\<close>

section \<open>Programs that use a device\<close>

text \<open>
  \<open>put p xs s\<close> writes \<open>xs\<close> at position \<open>p\<close>: how many bytes were stored (\<open>None\<close>: an error) and the state
  afterwards. \<open>get p m s\<close> reads at most \<open>m\<close> bytes.
\<close>

fun run_writes :: "(nat \<Rightarrow> 'b list \<Rightarrow> 's \<Rightarrow> nat option \<times> 's) \<Rightarrow> (nat \<times> 'b list) list \<Rightarrow> 's \<Rightarrow> 's" where
  "run_writes put [] s = s"
| "run_writes put ((p, xs) # ws) s = run_writes put ws (snd (put p xs s))"

text \<open>Write until all is stored; give up on an error and when nothing is stored.\<close>

function write_all :: "(nat \<Rightarrow> 'b list \<Rightarrow> 's \<Rightarrow> nat option \<times> 's) \<Rightarrow> nat \<Rightarrow> 'b list \<Rightarrow> 's \<Rightarrow> 's option" where
  "write_all put p xs s =
     (if xs = [] then Some s
      else case put p xs s of (r, s') \<Rightarrow>
        (case r of None \<Rightarrow> None
         | Some n \<Rightarrow> if n = 0 then None else write_all put (p + n) (drop n xs) s'))"
  by pat_completeness auto
termination
  by (relation "measure (\<lambda>(put, p, xs, s). length xs)") auto

declare write_all.simps [simp del]

text \<open>Read until nothing is left; \<open>None\<close>: a read has failed, or the loop does not end.\<close>

partial_function (option) read_all ::
  "(nat \<Rightarrow> nat \<Rightarrow> 's \<Rightarrow> 'b list option \<times> 's) \<Rightarrow> nat \<Rightarrow> nat \<Rightarrow> 's \<Rightarrow> ('b list \<times> 's) option" where
  "read_all get m p s =
     (case get p m s of (r, s') \<Rightarrow>
        (case r of None \<Rightarrow> None
         | Some ys \<Rightarrow>
             if ys = [] then Some ([], s')
             else Option.bind (read_all get m (p + length ys) s') (\<lambda>(zs, s''). Some (ys @ zs, s''))))"

section \<open>Storage\<close>

locale byte_store =
  fixes inv :: "'s \<Rightarrow> bool" and content :: "'s \<Rightarrow> nat \<Rightarrow> 'b"
    and put :: "nat \<Rightarrow> 'b list \<Rightarrow> 's \<Rightarrow> nat option \<times> 's" and get :: "nat \<Rightarrow> nat \<Rightarrow> 's \<Rightarrow> 'b list option \<times> 's"
  assumes put_inv: "inv s \<Longrightarrow> inv (snd (put p xs s))"
    and put_frame: "inv s \<Longrightarrow> q < p \<or> p + length xs \<le> q \<Longrightarrow> content (snd (put p xs s)) q = content s q"
    and put_stores: "inv s \<Longrightarrow> put p xs s = (Some n, s') \<Longrightarrow>
      n \<le> length xs \<and> (\<forall>i<length xs. content s' (p + i) = (if i < n then xs ! i else content s (p + i)))"
    and get_inv: "inv s \<Longrightarrow> inv (snd (get p m s)) \<and> content (snd (get p m s)) = content s"
    and get_content: "inv s \<Longrightarrow> fst (get p m s) = Some ys \<Longrightarrow> length ys \<le> m \<and> ys = map (content s) [p ..< p + length ys]"
begin

lemma read_back:
  assumes "inv s" and "put p xs s = (Some n, s')" and "fst (get p n s') = Some ys"
  shows "ys = take (length ys) xs"
proof -
  have "inv s'" using put_inv [OF assms(1), of p xs] assms(2) by simp
  from get_content [OF this assms(3)] have ys: "length ys \<le> n" "ys = map (content s') [p ..< p + length ys]" by auto
  have st: "n \<le> length xs" "\<And>i. i < length xs \<Longrightarrow> i < n \<Longrightarrow> content s' (p + i) = xs ! i"
    using put_stores [OF assms(1,2)] by auto
  show ?thesis
  proof (rule nth_equalityI)
    fix i assume "i < length ys"
    with ys st show "ys ! i = take (length ys) xs ! i" by (metis add_less_cancel_left diff_add_inverse
        length_map length_upt nth_map nth_take nth_upt order_less_le_trans)
  qed (use ys st in simp)
qed

lemma writes_elsewhere:
  "inv s \<Longrightarrow> list_all (\<lambda>(p, xs). q < p \<or> p + length xs \<le> q) ws \<Longrightarrow>
   inv (run_writes put ws s) \<and> content (run_writes put ws s) q = content s q"
proof (induction ws arbitrary: s)
  case (Cons w ws)
  obtain p xs where w: "w = (p, xs)" by (cases w)
  with Cons.IH [of "snd (put p xs s)"] Cons.prems put_inv [of s p xs] put_frame [of s q p xs] show ?case by simp
qed simp

lemma put_bytes:
  assumes "inv s" and "put p xs s = (Some n, s')"
  shows "content s' q = (if p \<le> q \<and> q < p + n then xs ! (q - p) else content s q)"
proof (cases "p \<le> q \<and> q < p + length xs")
  case True
  then obtain i where i: "q = p + i" "i < length xs" by (auto simp: le_iff_add)
  with put_stores [OF assms] have "content s' (p + i) = (if i < n then xs ! i else content s (p + i))" by blast
  with i show ?thesis by simp
next
  case False
  with put_frame [OF assms(1), of q p xs] put_stores [OF assms] assms(2) show ?thesis by auto
qed

end

section \<open>Files\<close>

text \<open>
  \<open>ready s\<close>: the store holds a file without holes and has what it needs to grow it up to \<open>limit s\<close> bytes;
  a single read asks for less than \<open>2 ^ 31\<close> bytes, as the kernel's own bound on \<^verbatim>\<open>read(2)\<close> has it.
\<close>

locale byte_file = byte_store inv content put get
  for inv :: "'s \<Rightarrow> bool" and content :: "'s \<Rightarrow> nat \<Rightarrow> 'b"
    and put :: "nat \<Rightarrow> 'b list \<Rightarrow> 's \<Rightarrow> nat option \<times> 's" and get :: "nat \<Rightarrow> nat \<Rightarrow> 's \<Rightarrow> 'b list option \<times> 's" +
  fixes ready :: "'s \<Rightarrow> bool" and fsize :: "'s \<Rightarrow> nat" and limit :: "'s \<Rightarrow> nat"
  assumes append: "inv s \<Longrightarrow> ready s \<Longrightarrow> xs \<noteq> [] \<Longrightarrow> fsize s + length xs \<le> limit s \<Longrightarrow>
      \<exists>n s'. put (fsize s) xs s = (Some n, s') \<and> 0 < n \<and> ready s' \<and> fsize s' = fsize s + n \<and> limit s' = limit s"
    and get_more: "inv s \<Longrightarrow> ready s \<Longrightarrow> p \<le> fsize s \<Longrightarrow> fsize s \<le> limit s \<Longrightarrow> 0 < m \<Longrightarrow> m < 2 ^ 31 \<Longrightarrow>
      \<exists>ys s'. get p m s = (Some ys, s') \<and> ready s' \<and> fsize s' = fsize s \<and> limit s' = limit s \<and>
        p + length ys \<le> fsize s \<and> (ys = [] \<longrightarrow> p = fsize s)"
begin

lemma write_all_ok:
  "inv s \<Longrightarrow> ready s \<Longrightarrow> fsize s + length xs \<le> limit s \<Longrightarrow>
   \<exists>s'. write_all put (fsize s) xs s = Some s' \<and> inv s' \<and> ready s' \<and> fsize s' = fsize s + length xs \<and> limit s' = limit s \<and>
     (\<forall>q. content s' q = (if fsize s \<le> q \<and> q < fsize s + length xs then xs ! (q - fsize s) else content s q))"
proof (induction "length xs" arbitrary: xs s rule: less_induct)
  case less
  show ?case
  proof (cases "xs = []")
    case True
    with less.prems show ?thesis by (intro exI [of _ s]) (auto simp: write_all.simps)
  next
    case False
    obtain n s1 where p: "put (fsize s) xs s = (Some n, s1)" "0 < n" "ready s1" "fsize s1 = fsize s + n" "limit s1 = limit s"
      using append [OF less.prems(1,2) False less.prems(3)] by blast
    have n: "n \<le> length xs" using put_stores [OF less.prems(1) p(1)] by blast
    have i: "inv s1" using put_inv [OF less.prems(1), of "fsize s" xs] p(1) by simp
    have "length (drop n xs) < length xs" "fsize s1 + length (drop n xs) \<le> limit s1" using p n less.prems(3) by auto
    then obtain s' where w: "write_all put (fsize s1) (drop n xs) s1 = Some s'" "inv s'" "ready s'"
      "fsize s' = fsize s1 + length (drop n xs)" "limit s' = limit s1"
      "\<And>q. content s' q = (if fsize s1 \<le> q \<and> q < fsize s1 + length (drop n xs) then drop n xs ! (q - fsize s1) else content s1 q)"
      using less.hyps [of "drop n xs" s1] i p(3) by blast
    have "content s' q = (if fsize s \<le> q \<and> q < fsize s + length xs then xs ! (q - fsize s) else content s q)" for q
      unfolding w(6) put_bytes [OF less.prems(1) p(1), of q] using p(4) n by auto
    moreover have "write_all put (fsize s) xs s = Some s'"
      using False p w(1) by (subst write_all.simps) simp
    ultimately show ?thesis using w p n by auto
  qed
qed

lemma read_all_ok:
  "inv s \<Longrightarrow> ready s \<Longrightarrow> p \<le> fsize s \<Longrightarrow> fsize s \<le> limit s \<Longrightarrow> 0 < m \<Longrightarrow> m < 2 ^ 31 \<Longrightarrow>
   \<exists>s'. read_all get m p s = Some (map (content s) [p ..< fsize s], s') \<and> inv s' \<and> content s' = content s \<and> fsize s' = fsize s"
proof (induction "fsize s - p" arbitrary: p s rule: less_induct)
  case less
  obtain ys s1 where g: "get p m s = (Some ys, s1)" "ready s1" "fsize s1 = fsize s" "limit s1 = limit s"
    "p + length ys \<le> fsize s" "ys = [] \<longrightarrow> p = fsize s"
    using get_more [OF less.prems] by blast
  have i: "inv s1" "content s1 = content s" using get_inv [OF less.prems(1), of p m] g(1) by simp_all
  have ys: "ys = map (content s) [p ..< p + length ys]" using get_content [OF less.prems(1), of p m ys] g(1) by simp
  show ?case
  proof (cases "ys = []")
    case True
    with g i show ?thesis by (subst read_all.simps) simp
  next
    case False
    then have "fsize s1 - (p + length ys) < fsize s - p" using g(3,5) by (cases ys) auto
    from less.hyps [OF this i(1) g(2)] g(3-5) less.prems obtain s' where
      r: "read_all get m (p + length ys) s1 = Some (map (content s1) [p + length ys ..< fsize s1], s')"
        "inv s'" "content s' = content s1" "fsize s' = fsize s1" by auto
    have "map (content s) [p ..< fsize s] = ys @ map (content s) [p + length ys ..< fsize s]"
      using g(5) ys upt_add_eq_append [of p "p + length ys" "fsize s - (p + length ys)"] by (metis le_add1 le_add_diff_inverse map_append)
    with False g(1,3) r i(2) show ?thesis by (subst read_all.simps) simp
  qed
qed

lemma copy_in_out:
  assumes "inv s" and "ready s" and "fsize s = 0" and "length xs \<le> limit s" and "0 < m" and "m < 2 ^ 31"
  shows "\<exists>s1 s2. write_all put 0 xs s = Some s1 \<and> read_all get m 0 s1 = Some (xs, s2)"
proof -
  obtain s1 where w: "write_all put 0 xs s = Some s1" "inv s1" "ready s1" "fsize s1 = length xs" "limit s1 = limit s"
    "\<And>q. content s1 q = (if q < length xs then xs ! q else content s q)"
    using write_all_ok [OF assms(1,2), of xs] assms(3,4) by auto
  moreover have "map (content s1) [0 ..< fsize s1] = xs" using w(4,6) by (intro nth_equalityI) simp_all
  ultimately show ?thesis using read_all_ok [OF w(2,3), of 0 m] assms(4-6) by auto
qed

end

end
