(* ===== verification/Globalmem.thy ===== *)
theory Globalmem
  imports Kernel Byte_Store
begin

text \<open>
  The \<^verbatim>\<open>globalmem\<close> driver: one array of \<open>GLOBALMEM_SIZE\<close> bytes with read, write,
  seek and clear. Positions and sizes are 64-bit words and the count is a 32-bit word, as in the
  code, so that truncation and wrap-around are visible. The two transfers meet the contract of
  \<open>Byte_Store\<close>.
\<close>

section \<open>State and operations\<close>

definition GLOBALMEM_SIZE :: "64 word" where "GLOBALMEM_SIZE = 0x1000"
definition MEM_CLEAR :: "32 word" where "MEM_CLEAR = 1"

record globalmem_dev =
  mem :: "byte list"    \<comment> \<open>\<open>unsigned char mem[GLOBALMEM_SIZE]\<close>\<close>

record gm_result =
  gm_ret :: int
  gm_pos :: "64 word"   \<comment> \<open>the file position afterwards\<close>
  gm_out :: "byte list" \<comment> \<open>handed to \<open>copy_to_user\<close>\<close>
  gm_dev :: globalmem_dev

definition gm_count :: "64 word \<Rightarrow> 64 word \<Rightarrow> 32 word" where
  \<comment> \<open>\<open>unsigned int count = size; if (pos + size >= GLOBALMEM_SIZE) count = GLOBALMEM_SIZE - pos;\<close>\<close>
  "gm_count pos sz =
     (if pos + sz \<ge> GLOBALMEM_SIZE then ucast (GLOBALMEM_SIZE - pos) else ucast sz)"

definition globalmem_read :: "kernel \<Rightarrow> globalmem_dev \<Rightarrow> 64 word \<Rightarrow> 64 word \<Rightarrow> gm_result res" where
  "globalmem_read k d sz pos =
     (if pos \<ge> GLOBALMEM_SIZE then Inr \<lparr>gm_ret = - EINVAL, gm_pos = pos, gm_out = [], gm_dev = d\<rparr>
      else
      let count = gm_count pos sz in
      bindE (peek (mem d) (uint pos) (unat count)) (\<lambda>bs.
        if copy_to_user k bs \<noteq> 0
        then Inr \<lparr>gm_ret = - EFAULT, gm_pos = pos, gm_out = bs, gm_dev = d\<rparr>
        else Inr \<lparr>gm_ret = uint count, gm_pos = pos + ucast count, gm_out = bs, gm_dev = d\<rparr>))"

definition globalmem_write :: "kernel \<Rightarrow> globalmem_dev \<Rightarrow> byte list \<Rightarrow> 64 word \<Rightarrow> 64 word \<Rightarrow> gm_result res" where
  "globalmem_write k d ubuf sz pos =
     (if pos \<ge> GLOBALMEM_SIZE then Inr \<lparr>gm_ret = - EINVAL, gm_pos = pos, gm_out = [], gm_dev = d\<rparr>
      else
      let count = gm_count pos sz in
      case copy_from_user k ubuf (unat count) of (left, new) \<Rightarrow>
      bindE (poke (mem d) (uint pos) new) (\<lambda>m.
        if left \<noteq> 0
        then Inr \<lparr>gm_ret = - EFAULT, gm_pos = pos, gm_out = [], gm_dev = d\<lparr>mem := m\<rparr>\<rparr>
        else Inr \<lparr>gm_ret = 0, gm_pos = pos + ucast count, gm_out = [], gm_dev = d\<lparr>mem := m\<rparr>\<rparr>))"

definition globalmem_ioctl :: "32 word \<Rightarrow> globalmem_dev \<Rightarrow> int \<times> globalmem_dev" where
  "globalmem_ioctl cmd d =
     (if cmd = MEM_CLEAR then (0, d\<lparr>mem := replicate (unat GLOBALMEM_SIZE) 0\<rparr>) else (- EINVAL, d))"

definition globalmem_llseek :: "64 word \<Rightarrow> 64 word \<Rightarrow> int \<Rightarrow> int \<times> 64 word" where
  \<comment> \<open>\<open>f_pos\<close>, \<open>offset\<close>, \<open>orig\<close>; the value returned and \<open>f_pos\<close> afterwards\<close>
  "globalmem_llseek f_pos offset orig =
     (if orig = 0 then
        (if sint offset < 0 then (- EINVAL, f_pos)
         else if (ucast offset :: 32 word) \<ge> ucast GLOBALMEM_SIZE then (- EINVAL, f_pos)
         else let p = ucast (ucast offset :: 32 word) in (sint p, p))
      else if orig = 1 then
        (if sint (f_pos + offset) < 0 then (- EINVAL, f_pos)
         else if sint (f_pos + offset) \<ge> sint GLOBALMEM_SIZE then (- EINVAL, f_pos)
         else let p = f_pos + offset in (sint p, p))
      else (- EINVAL, f_pos))"

definition globalmem_open :: "globalmem_dev \<Rightarrow> globalmem_dev \<times> int" where
  \<comment> \<open>\<open>filp->private_data = globalmem_devp\<close>\<close>
  "globalmem_open devp = (devp, 0)"

definition globalmem_release :: int where "globalmem_release = 0"

section \<open>Positions in range\<close>

definition gm_ok :: "globalmem_dev \<Rightarrow> bool" where
  "gm_ok d \<longleftrightarrow> length (mem d) = 4096"

definition gm_span :: "64 word \<Rightarrow> 64 word \<Rightarrow> nat" where
  "gm_span pos sz = min (unat sz) (4096 - unat pos)"

lemma gm_size_nat [simp]: "unat GLOBALMEM_SIZE = 4096"
  by (simp add: GLOBALMEM_SIZE_def)

lemma gm_in_range: "pos < GLOBALMEM_SIZE \<longleftrightarrow> unat pos < 4096" "\<not> GLOBALMEM_SIZE \<le> pos \<longleftrightarrow> unat pos < 4096"
  by (simp_all add: word_less_nat_alt word_le_nat_alt not_le)

text \<open>For sizes below \<open>2 ^ 32\<close> (the kernel passes at most \<open>MAX_RW_COUNT\<close>) the count is exact.\<close>

lemma gm_count_eq:
  assumes "unat pos < 4096" and "unat sz < 2 ^ 32"
  shows "unat (gm_count pos sz) = gm_span pos sz"
proof -
  have s: "unat (pos + sz) = unat pos + unat sz"
    using assms by (simp add: unat_word_ariths)
  have d: "unat (GLOBALMEM_SIZE - pos) = 4096 - unat pos"
    using assms(1) by (simp add: unat_sub word_le_nat_alt)
  show ?thesis
  proof (cases "GLOBALMEM_SIZE \<le> pos + sz")
    case True
    then have "4096 \<le> unat pos + unat sz" using s by (simp add: word_le_nat_alt)
    with True assms d show ?thesis by (simp add: gm_count_def gm_span_def unsigned_ucast_eq take_bit_nat_eq_self)
  next
    case False
    then have "unat pos + unat sz < 4096" using s by (simp add: word_le_nat_alt)
    with False assms show ?thesis by (simp add: gm_count_def gm_span_def unsigned_ucast_eq take_bit_nat_eq_self)
  qed
qed

lemma gm_advance:
  assumes "unat pos < 4096" and "unat sz < 2 ^ 32"
  shows "unat (pos + ucast (gm_count pos sz)) = unat pos + gm_span pos sz"
    and "uint (gm_count pos sz) = int (gm_span pos sz)"
proof -
  have le: "gm_span pos sz \<le> 4096" by (simp add: gm_span_def)
  then have "unat (ucast (gm_count pos sz) :: 64 word) = gm_span pos sz"
    using gm_count_eq [OF assms] by (simp add: unsigned_ucast_eq take_bit_nat_eq_self)
  with le show "unat (pos + ucast (gm_count pos sz)) = unat pos + gm_span pos sz"
    using assms(1) by (simp add: unat_word_ariths)
  show "uint (gm_count pos sz) = int (gm_span pos sz)"
    using gm_count_eq [OF assms] by (metis of_nat_unat)
qed


lemma gm_span_fits: "unat pos < 4096 \<Longrightarrow> unat pos + gm_span pos sz \<le> 4096"
  by (auto simp: gm_span_def)

lemma globalmem_read_cases:
  assumes ok: "gm_ok d" and sz: "unat sz < 2 ^ 32"
  shows "globalmem_read k d sz pos =
    (if unat pos \<ge> 4096 then Inr \<lparr>gm_ret = - EINVAL, gm_pos = pos, gm_out = [], gm_dev = d\<rparr>
     else let bs = take (gm_span pos sz) (drop (unat pos) (mem d)) in
       if copy_to_user k bs \<noteq> 0 then Inr \<lparr>gm_ret = - EFAULT, gm_pos = pos, gm_out = bs, gm_dev = d\<rparr>
       else Inr \<lparr>gm_ret = int (gm_span pos sz), gm_pos = pos + ucast (gm_count pos sz), gm_out = bs, gm_dev = d\<rparr>)"
proof (cases "unat pos < 4096")
  case True
  have "peek (mem d) (uint pos) (gm_span pos sz) = Inr (take (gm_span pos sz) (drop (unat pos) (mem d)))"
    using ok gm_span_fits [OF True, of sz] by (simp add: peek_def gm_ok_def)
  with True show ?thesis
    by (simp add: globalmem_read_def gm_in_range(2) [symmetric] gm_count_eq [OF True sz] gm_advance(2) [OF True sz] Let_def)
      (simp add: gm_in_range(2))
next
  case False
  then show ?thesis using gm_in_range(2) [of pos] by (simp add: globalmem_read_def)
qed


lemma globalmem_write_cases:
  assumes k: "kernel_ok k" and ok: "gm_ok d" and sz: "unat sz < 2 ^ 32"
  obtains (beyond) "4096 \<le> unat pos"
      "globalmem_write k d ubuf sz pos = Inr \<lparr>gm_ret = - EINVAL, gm_pos = pos, gm_out = [], gm_dev = d\<rparr>"
  | (fault) new where "unat pos < 4096" "length new = gm_span pos sz" "fst (copy_from_user k ubuf (gm_span pos sz)) \<noteq> 0"
      "globalmem_write k d ubuf sz pos =
         Inr \<lparr>gm_ret = - EFAULT, gm_pos = pos, gm_out = [], gm_dev = d\<lparr>mem := overwrite (mem d) (unat pos) new\<rparr>\<rparr>"
  | (stored) "unat pos < 4096" "gm_span pos sz \<le> length ubuf" "fst (copy_from_user k ubuf (gm_span pos sz)) = 0"
      "globalmem_write k d ubuf sz pos =
         Inr \<lparr>gm_ret = 0, gm_pos = pos + ucast (gm_count pos sz), gm_out = [],
              gm_dev = d\<lparr>mem := overwrite (mem d) (unat pos) (take (gm_span pos sz) ubuf)\<rparr>\<rparr>"
proof (cases "unat pos < 4096")
  case False
  then show thesis using gm_in_range(2) [of pos] by (intro beyond) (simp_all add: globalmem_write_def)
next
  case True
  let ?n = "gm_span pos sz"
  obtain l new where c: "copy_from_user k ubuf ?n = (l, new)" by (cases "copy_from_user k ubuf ?n")
  have len: "length new = ?n" and all: "l = 0 \<Longrightarrow> new = take ?n ubuf"
    using length_copied [OF k, of ubuf ?n] copied_all [OF k, of ubuf ?n] c by simp_all
  have "poke (mem d) (uint pos) new = Inr (overwrite (mem d) (unat pos) new)"
    using ok gm_span_fits [OF True, of sz] by (simp add: poke_def gm_ok_def len)
  moreover have "\<not> GLOBALMEM_SIZE \<le> pos" using True gm_in_range(2) by blast
  ultimately have w: "globalmem_write k d ubuf sz pos =
     (if l \<noteq> 0 then Inr \<lparr>gm_ret = - EFAULT, gm_pos = pos, gm_out = [], gm_dev = d\<lparr>mem := overwrite (mem d) (unat pos) new\<rparr>\<rparr>
      else Inr \<lparr>gm_ret = 0, gm_pos = pos + ucast (gm_count pos sz), gm_out = [],
              gm_dev = d\<lparr>mem := overwrite (mem d) (unat pos) new\<rparr>\<rparr>)"
    by (simp add: globalmem_write_def gm_count_eq [OF True sz] c Let_def)
  show thesis
  proof (cases "l = 0")
    case T: True
    then have "new = take ?n ubuf" using all by simp
    moreover then have "?n \<le> length ubuf" using len by simp
    ultimately show thesis using True T w c by (intro stored) simp_all
  next
    case F: False
    with True len w c show thesis by (intro fault [of new]) simp_all
  qed
qed

section \<open>The array as a byte store\<close>

definition gm_put :: "nat \<Rightarrow> byte list \<Rightarrow> kernel \<times> globalmem_dev \<Rightarrow> nat option \<times> (kernel \<times> globalmem_dev)" where
  "gm_put p xs s = (case s of (k, d) \<Rightarrow>
     if p < 2 ^ 64 \<and> length xs < 2 ^ 32 then
       (case globalmem_write k d xs (of_nat (length xs)) (of_nat p) of
          Inl f \<Rightarrow> (None, s)
        | Inr r \<Rightarrow> (if gm_ret r < 0 then None else Some (unat (gm_pos r) - p), k, gm_dev r))
     else (None, s))"

definition gm_get :: "nat \<Rightarrow> nat \<Rightarrow> kernel \<times> globalmem_dev \<Rightarrow> byte list option \<times> (kernel \<times> globalmem_dev)" where
  "gm_get p m s = (case s of (k, d) \<Rightarrow>
     if p < 2 ^ 64 \<and> m < 2 ^ 32 then
       (case globalmem_read k d (of_nat m) (of_nat p) of
          Inl f \<Rightarrow> (None, s)
        | Inr r \<Rightarrow> (if gm_ret r < 0 then None else Some (gm_out r), k, gm_dev r))
     else (None, s))"

definition gm_inv :: "kernel \<times> globalmem_dev \<Rightarrow> bool" where
  "gm_inv s = (case s of (k, d) \<Rightarrow> kernel_ok k \<and> gm_ok d)"

definition gm_byte :: "kernel \<times> globalmem_dev \<Rightarrow> nat \<Rightarrow> byte" where
  "gm_byte s p = (case s of (k, d) \<Rightarrow> if p < 4096 then mem d ! p else 0)"

section \<open>The contract holds\<close>

lemma of_nat_64: "p < 2 ^ 64 \<Longrightarrow> unat (of_nat p :: 64 word) = p"
  by (simp add: unsigned_of_nat take_bit_nat_eq_self)

lemma gm_span_nat: "p < 2 ^ 64 \<Longrightarrow> n < 2 ^ 32 \<Longrightarrow> gm_span (of_nat p) (of_nat n) = min n (4096 - p)"
  by (simp add: gm_span_def of_nat_64)

lemma gm_put_cases:
  assumes inv: "gm_inv (k, d)"
  obtains (none) "gm_put p xs (k, d) = (None, k, d)"
  | (fault) new where "p < 4096" "length new = min (length xs) (4096 - p)"
      "gm_put p xs (k, d) = (None, k, d\<lparr>mem := overwrite (mem d) p new\<rparr>)"
  | (stored) n where "p < 4096" "n = min (length xs) (4096 - p)"
      "gm_put p xs (k, d) = (Some n, k, d\<lparr>mem := overwrite (mem d) p (take n xs)\<rparr>)"
proof (cases "p < 2 ^ 64 \<and> length xs < 2 ^ 32")
  case False
  then show thesis by (intro none) (auto simp: gm_put_def)
next
  case True
  then have p: "unat (of_nat p :: 64 word) = p" and x: "unat (of_nat (length xs) :: 64 word) < 2 ^ 32"
    by (simp_all add: of_nat_64)
  have k: "kernel_ok k" and ok: "gm_ok d" using inv by (simp_all add: gm_inv_def)
  note sp = gm_span_nat [of p "length xs"]
  show thesis
  proof (rule globalmem_write_cases [OF k ok x, of "of_nat p" xs])
    assume "unat (of_nat p :: 64 word) < 4096"
      and "globalmem_write k d xs (of_nat (length xs)) (of_nat p) =
         Inr \<lparr>gm_ret = 0, gm_pos = of_nat p + ucast (gm_count (of_nat p) (of_nat (length xs))), gm_out = [],
              gm_dev = d\<lparr>mem := overwrite (mem d) (unat (of_nat p :: 64 word)) (take (gm_span (of_nat p) (of_nat (length xs))) xs)\<rparr>\<rparr>"
    with True p gm_advance(1) [OF _ x, of "of_nat p"] sp show thesis
      by (intro stored [of "min (length xs) (4096 - p)"]) (simp_all add: gm_put_def)
  qed (use True p sp in \<open>auto simp: gm_put_def intro: none fault\<close>)
qed

lemma gm_byte_overwrite:
  assumes "gm_ok d" and "p + length new \<le> 4096"
  shows "gm_byte (k, d\<lparr>mem := overwrite (mem d) p new\<rparr>) q =
    (if p \<le> q \<and> q < p + length new then new ! (q - p) else gm_byte (k, d) q)"
  using assms by (auto simp: gm_byte_def gm_ok_def nth_overwrite)

interpretation gm: byte_store gm_inv gm_byte gm_put gm_get
proof
  fix s :: "kernel \<times> globalmem_dev" and p m q n xs ys s'
  obtain k d where s: "s = (k, d)" by (cases s)
  assume inv: "gm_inv s"
  then have ok: "gm_ok d" by (simp add: s gm_inv_def)
  have ov: "gm_inv (k, d\<lparr>mem := overwrite (mem d) p new\<rparr>)" if "p + length new \<le> 4096" for new
    using inv that by (simp add: s gm_inv_def gm_ok_def)
  note cs = gm_put_cases [OF inv [unfolded s], of p xs]
  show "gm_inv (snd (gm_put p xs s))"
    by (rule cs) (use inv ov in \<open>auto simp: s\<close>)
  show "gm_byte (snd (gm_put p xs s)) q = gm_byte s q" if "q < p \<or> p + length xs \<le> q"
    by (rule cs) (use that in \<open>auto simp: s gm_byte_overwrite [OF ok]\<close>)
  show "n \<le> length xs \<and> (\<forall>i<length xs. gm_byte s' (p + i) = (if i < n then xs ! i else gm_byte s (p + i)))"
    if "gm_put p xs s = (Some n, s')"
    by (rule cs) (use that in \<open>auto simp: s gm_byte_overwrite [OF ok]\<close>)
  show "gm_inv (snd (gm_get p m s)) \<and> gm_byte (snd (gm_get p m s)) = gm_byte s"
  proof (cases "p < 2 ^ 64 \<and> m < 2 ^ 32")
    case True
    then have "unat (of_nat m :: 64 word) < 2 ^ 32" by (simp add: of_nat_64)
    from globalmem_read_cases [OF ok this, of k "of_nat p"] True inv show ?thesis by (simp add: gm_get_def s Let_def)
  qed (use inv in \<open>auto simp: gm_get_def s\<close>)
  show "length ys \<le> m \<and> ys = map (gm_byte s) [p ..< p + length ys]" if "fst (gm_get p m s) = Some ys"
  proof (cases "p < 2 ^ 64 \<and> m < 2 ^ 32")
    case True
    then have u: "unat (of_nat p :: 64 word) = p" "unat (of_nat m :: 64 word) < 2 ^ 32" by (simp_all add: of_nat_64)
    have ys: "p < 4096" "ys = take (min m (4096 - p)) (drop p (mem d))"
      using that True u globalmem_read_cases [OF ok u(2), of k "of_nat p"] gm_span_nat [of p m]
      by (auto simp: gm_get_def s Let_def split: if_splits)
    moreover have len: "length ys = min m (4096 - p)" using ys ok by (simp add: gm_ok_def)
    ultimately show ?thesis
      using ok by (auto intro!: nth_equalityI simp: s gm_byte_def gm_ok_def)
  qed (use that in \<open>auto simp: gm_get_def s\<close>)
qed


lemma gm_written_back:
  assumes "gm_inv s" and "user_ok (fst s)" and "p < 4096" and "p + length xs \<le> 4096"
  shows "\<exists>s'. gm_put p xs s = (Some (length xs), s') \<and> gm_get p (length xs) s' = (Some xs, s')"
proof -
  obtain k d where s: "s = (k, d)" by (cases s)
  have k: "kernel_ok k" "user_ok k" and ok: "gm_ok d" using assms(1,2) by (simp_all add: s gm_inv_def)
  have b: "p < 2 ^ 64" "length xs < 2 ^ 32" using assms(3,4) by simp_all
  note w = of_nat_64 [OF b(1)] and sp = gm_span_nat [OF b]
  have sz: "unat (of_nat (length xs) :: 64 word) < 2 ^ 32" "unat (of_nat (length xs) :: 64 word) = length xs" using b(2) by (simp_all add: of_nat_64)
  let ?d = "d\<lparr>mem := overwrite (mem d) p xs\<rparr>"
  have put: "gm_put p xs (k, d) = (Some (length xs), k, ?d)"
  proof (rule globalmem_write_cases [OF k(1) ok sz(1), of "of_nat p" xs])
    assume "globalmem_write k d xs (of_nat (length xs)) (of_nat p) =
         Inr \<lparr>gm_ret = 0, gm_pos = of_nat p + ucast (gm_count (of_nat p) (of_nat (length xs))), gm_out = [],
              gm_dev = d\<lparr>mem := overwrite (mem d) (unat (of_nat p :: 64 word)) (take (gm_span (of_nat p) (of_nat (length xs))) xs)\<rparr>\<rparr>"
    then show ?thesis using b w sp gm_advance(1) [OF _ sz(1), of "of_nat p"] assms(3,4) by (simp add: gm_put_def)
  qed (use w sp k(2) assms(3) in \<open>auto simp: user_ok_def\<close>)
  have ok': "gm_ok ?d" using ok assms(4) by (simp add: gm_ok_def)
  have "take (length xs) (drop p (overwrite (mem d) p xs)) = xs"
    using assms(4) ok by (simp add: overwrite_def gm_ok_def)
  then have "gm_get p (length xs) (k, ?d) = (Some xs, k, ?d)"
    using b w sp assms(3,4) k(2) globalmem_read_cases [OF ok' sz(1), of k "of_nat p"] by (simp add: gm_get_def user_ok_def Let_def)
  with put show ?thesis by (simp add: s)
qed

lemma gm_clear_reads:
  assumes "gm_inv s" and "fst (gm_get p n (fst s, snd (globalmem_ioctl MEM_CLEAR (snd s)))) = Some ys"
  shows "ys = replicate (length ys) 0"
proof -
  let ?s = "(fst s, snd (globalmem_ioctl MEM_CLEAR (snd s)))"
  have "gm_inv ?s" using assms(1) by (auto simp: gm_inv_def gm_ok_def globalmem_ioctl_def GLOBALMEM_SIZE_def split: prod.splits)
  from gm.get_content [OF this assms(2)] have "ys = map (gm_byte ?s) [p ..< p + length ys]" by blast
  also have "\<dots> = replicate (length ys) 0"
    by (rule nth_equalityI) (simp_all add: gm_byte_def globalmem_ioctl_def GLOBALMEM_SIZE_def)
  finally show ?thesis .
qed

section \<open>Seeking\<close>

lemma sint_small: "unat w \<le> 4096 \<Longrightarrow> sint w = int (unat w)" for w :: "64 word"
proof -
  have "n \<le> 4096 \<Longrightarrow> s64 (int n) = int n" for n by (simp add: s64_id)
  moreover assume "unat w \<le> 4096"
  ultimately have "s64 (int (unat w)) = int (unat w)" by blast
  then show ?thesis by (simp add: signed_64)
qed

lemma llseek_cur:
  fixes f_pos offset :: "64 word"
  assumes "unat f_pos \<le> 4096"
  defines "t \<equiv> int (unat f_pos) + sint offset"
  shows "globalmem_llseek f_pos offset 1 = (if 0 \<le> t \<and> t < 4096 then (t, f_pos + offset) else (- EINVAL, f_pos))"
    and "0 \<le> t \<Longrightarrow> t < 4096 \<Longrightarrow> int (unat (f_pos + offset)) = t"
proof -
  have s: "sint (f_pos + offset) = s64 t"
    using sint_small [OF assms(1)] by (simp add: signed_add_64 t_def)
  have G: "sint GLOBALMEM_SIZE = 4096" by (simp add: GLOBALMEM_SIZE_def sint_small)
  have in_range: "s64 t = t" if "t < 2 ^ 63"
    using that signed_64_range [of offset] unfolding t_def by (intro s64_id) linarith+
  have over: "s64 t < 0" if "2 ^ 63 \<le> t"
  proof -
    have "int (unat f_pos) \<le> 4096" using assms(1) by linarith
    then have "t \<le> 4096 + (2 ^ 63 - 1)" using signed_64_range [of offset] unfolding t_def by linarith
    then have "(t + 2 ^ 63) mod 2 ^ 64 = t - 2 ^ 63"
      using that mod_add_self2 [of "t - 2 ^ 63" "2 ^ 64"] by (simp add: mod_pos_pos_trivial add.commute)
    with \<open>t \<le> 4096 + (2 ^ 63 - 1)\<close> show ?thesis by (simp add: s64_def)
  qed
  show "globalmem_llseek f_pos offset 1 = (if 0 \<le> t \<and> t < 4096 then (t, f_pos + offset) else (- EINVAL, f_pos))"
  proof (cases "t < 2 ^ 63")
    case True
    then show ?thesis unfolding globalmem_llseek_def s in_range [OF True] G by (simp add: Let_def s in_range)
  next
    case False
    then show ?thesis using over unfolding globalmem_llseek_def s G by simp
  qed
  show "int (unat (f_pos + offset)) = t" if "0 \<le> t" "t < 4096"
  proof -
    have "s64 (uint (f_pos + offset)) = t" using s in_range that by (simp add: signed_64)
    moreover have "uint (f_pos + offset) = t mod 2 ^ 64"
      using s in_range that uint_sint [of "f_pos + offset"] by (simp add: take_bit_eq_mod)
    ultimately show ?thesis using that by simp
  qed
qed

definition gm_zero :: globalmem_dev where
  "gm_zero = \<lparr>mem = replicate 4096 0\<rparr>"

lemma gm_zero_ok: "gm_ok gm_zero" "gm_inv (simple_kernel, gm_zero)"
  by (simp_all add: gm_ok_def gm_zero_def gm_inv_def simple_kernel_ok)

text \<open>The offset of an absolute seek loses its high half; the bound of a transfer can wrap around.\<close>

lemma llseek_truncates:
  assumes "unat offset < 4096"
  shows "globalmem_llseek f_pos (0x100000000 + offset) 0 = (int (unat offset), offset)"
proof -
  have w: "unat (0x100000000 + offset) = 0x100000000 + unat offset"
    using assms by (simp add: unat_word_ariths)
  have "n < 4096 \<Longrightarrow> s64 (int (0x100000000 + n)) = int (0x100000000 + n) \<and> s64 (int n) = int n" for n
    by (simp add: s64_id)
  from this [OF assms] have s: "sint (0x100000000 + offset) = int (unat (0x100000000 + offset))"
    "sint offset = int (unat offset)"
    unfolding signed_64 w [symmetric] by simp_all
  have u: "unat (ucast (0x100000000 + offset) :: 32 word) = unat offset"
    using assms by (simp add: unsigned_ucast_eq w take_bit_eq_mod)
  have same: "ucast (ucast (0x100000000 + offset) :: 32 word) = offset"
    using assms by (intro unsigned_word_eqI [where 'a = nat]) (simp add: unsigned_ucast_eq [of "ucast (0x100000000 + offset) :: 32 word"] u take_bit_nat_eq_self)
  have "\<not> (ucast GLOBALMEM_SIZE :: 32 word) \<le> ucast (0x100000000 + offset)"
    using assms by (simp add: word_le_nat_alt u GLOBALMEM_SIZE_def)
  then show ?thesis using s by (simp add: globalmem_llseek_def same Let_def)
qed

lemma read_size_wraps:
  assumes "gm_ok d" and "0 < unat pos" and "unat pos < 4096"
  shows "globalmem_read k d (- 1) pos = Inl Bad_access"
proof -
  have "unat (pos - 1) = unat pos - 1" using assms(2) by (simp add: unat_sub word_le_nat_alt)
  then have "\<not> GLOBALMEM_SIZE \<le> pos + - 1" using assms(3) by (simp add: word_le_nat_alt)
  moreover have "ucast (- 1 :: 64 word) = (- 1 :: 32 word)" by (rule bit_word_eqI) (simp add: bit_simps)
  ultimately have "gm_count pos (- 1) = - 1" by (simp add: gm_count_def)
  moreover have "unat (- 1 :: 32 word) = 4294967295"
    by (simp add: unsigned_minus_1_eq_mask mask_eq_exp_minus_1)
  ultimately have "peek (mem d) (uint pos) (unat (gm_count pos (- 1))) = Inl Bad_access"
    using assms(1) by (simp add: peek_def gm_ok_def)
  with assms(3) show ?thesis using gm_in_range(2) [of pos] by (simp add: globalmem_read_def)
qed

section \<open>Theorems\<close>

lemma gm_read_correct:
  assumes "gm_ok d" and "unat sz < 2 ^ 32"
  shows "\<exists>r. globalmem_read k d sz pos = Inr r \<and> gm_dev r = d \<and>
    (if unat pos \<ge> 4096 then gm_ret r = - EINVAL \<and> gm_pos r = pos \<and> gm_out r = []
     else gm_out r = take (unat sz) (drop (unat pos) (mem d)) \<and>
       (if copy_to_user k (gm_out r) = 0
        then gm_ret r = int (length (gm_out r)) \<and> unat (gm_pos r) = unat pos + length (gm_out r)
        else gm_ret r = - EFAULT \<and> gm_pos r = pos)) \<and>
    (0 < unat pos \<and> unat pos < 4096 \<longrightarrow> globalmem_read k d (- 1) pos = Inl Bad_access)"
proof -
  have t: "take (gm_span pos sz) (drop (unat pos) (mem d)) = take (unat sz) (drop (unat pos) (mem d))"
    "length (take (unat sz) (drop (unat pos) (mem d))) = gm_span pos sz"
    using assms(1) by (simp_all add: gm_span_def gm_ok_def min_def)
  show ?thesis
    unfolding globalmem_read_cases [OF assms] t(1) Let_def
    using t(2) gm_advance(1) [OF _ assms(2), of pos] read_size_wraps [OF assms(1), of pos k] by (simp add: not_le)
qed

lemma gm_write_correct:
  assumes "kernel_ok k" and "gm_ok d" and "unat sz < 2 ^ 32"
  shows "\<exists>r. globalmem_write k d ubuf sz pos = Inr r \<and> gm_ok (gm_dev r) \<and>
    (if unat pos \<ge> 4096 then gm_ret r = - EINVAL \<and> gm_dev r = d \<and> gm_pos r = pos
     else (\<forall>q<4096. \<not> (unat pos \<le> q \<and> q < unat pos + unat sz) \<longrightarrow> mem (gm_dev r) ! q = mem d ! q) \<and>
       (gm_ret r = - EFAULT \<longleftrightarrow> fst (copy_from_user k ubuf (gm_span pos sz)) \<noteq> 0) \<and>
       (gm_ret r = - EFAULT \<and> gm_pos r = pos \<or>
        gm_ret r = 0 \<and> unat (gm_pos r) = unat pos + gm_span pos sz \<and>
        (\<forall>i<gm_span pos sz. mem (gm_dev r) ! (unat pos + i) = ubuf ! i)))"
proof (rule globalmem_write_cases [OF assms, of pos ubuf])
  assume p: "unat pos < 4096" and n: "gm_span pos sz \<le> length ubuf" and c: "fst (copy_from_user k ubuf (gm_span pos sz)) = 0"
    and w: "globalmem_write k d ubuf sz pos =
         Inr \<lparr>gm_ret = 0, gm_pos = pos + ucast (gm_count pos sz), gm_out = [],
              gm_dev = d\<lparr>mem := overwrite (mem d) (unat pos) (take (gm_span pos sz) ubuf)\<rparr>\<rparr>"
  have "gm_span pos sz \<le> unat sz" by (simp add: gm_span_def)
  with p n c w assms(2) gm_span_fits [OF p, of sz] gm_advance(1) [OF p assms(3)] show ?thesis
    by (auto simp: gm_ok_def nth_overwrite)
next
  fix new
  assume p: "unat pos < 4096" and n: "length new = gm_span pos sz" and c: "fst (copy_from_user k ubuf (gm_span pos sz)) \<noteq> 0"
    and w: "globalmem_write k d ubuf sz pos =
         Inr \<lparr>gm_ret = - EFAULT, gm_pos = pos, gm_out = [], gm_dev = d\<lparr>mem := overwrite (mem d) (unat pos) new\<rparr>\<rparr>"
  have "gm_span pos sz \<le> unat sz" by (simp add: gm_span_def)
  with p n c w assms(2) gm_span_fits [OF p, of sz] show ?thesis by (auto simp: gm_ok_def nth_overwrite)
qed (use assms in auto)

text \<open>
  C20. Transfers of globalmem, for sizes below \<open>2 ^ 32\<close>. At or past the end of the array they return \<open>-EINVAL\<close>; elsewhere they stay
  inside the array. \<open>globalmem_read\<close> hands out the bytes from the
  position to the end of the array or of the request, and returns their number and advances the
  position, or returns \<open>-EFAULT\<close> and keeps it; the array does not change. The bound on the size is needed:
  the check \<open>pos + size >= GLOBALMEM_SIZE\<close> can wrap around, and with the largest 64-bit size a read
  from inside the array goes far beyond it. \<open>globalmem_write\<close> replaces exactly the bytes from the position to the end of the array or of
  the request and advances the position by their number, but it returns 0, not that
  number; exactly when the copy fails it returns \<open>-EFAULT\<close>, with the position kept.
\<close>

theorem globalmem_transfers_correct:
  assumes "kernel_ok k" and "gm_ok d" and "unat sz < 2 ^ 32"
  shows "(\<exists>r. globalmem_read k d sz pos = Inr r \<and> gm_dev r = d \<and>
      (if unat pos \<ge> 4096 then gm_ret r = - EINVAL \<and> gm_pos r = pos \<and> gm_out r = []
       else gm_out r = take (unat sz) (drop (unat pos) (mem d)) \<and>
         (if copy_to_user k (gm_out r) = 0
          then gm_ret r = int (length (gm_out r)) \<and> unat (gm_pos r) = unat pos + length (gm_out r)
          else gm_ret r = - EFAULT \<and> gm_pos r = pos)) \<and>
      (0 < unat pos \<and> unat pos < 4096 \<longrightarrow> globalmem_read k d (- 1) pos = Inl Bad_access)) \<and>
    (\<exists>r. globalmem_write k d ubuf sz pos = Inr r \<and> gm_ok (gm_dev r) \<and>
      (if unat pos \<ge> 4096 then gm_ret r = - EINVAL \<and> gm_dev r = d \<and> gm_pos r = pos
       else (\<forall>q<4096. \<not> (unat pos \<le> q \<and> q < unat pos + unat sz) \<longrightarrow> mem (gm_dev r) ! q = mem d ! q) \<and>
         (gm_ret r = - EFAULT \<longleftrightarrow> fst (copy_from_user k ubuf (gm_span pos sz)) \<noteq> 0) \<and>
         (gm_ret r = - EFAULT \<and> gm_pos r = pos \<or>
          gm_ret r = 0 \<and> unat (gm_pos r) = unat pos + gm_span pos sz \<and>
          (\<forall>i<gm_span pos sz. mem (gm_dev r) ! (unat pos + i) = ubuf ! i))))"
  by (rule conjI [OF gm_read_correct [OF assms(2,3)] gm_write_correct [OF assms]])

theorem globalmem_transfers_correct_witness:
  "(\<exists>r. globalmem_read simple_kernel gm_zero 2 4095 = Inr r \<and> gm_ret r = 1 \<and> unat (gm_pos r) = 4096) \<and>
   globalmem_read simple_kernel gm_zero (- 1) 4095 = Inl Bad_access \<and>
   (\<exists>r. globalmem_write simple_kernel gm_zero [7, 8] 2 4095 = Inr r \<and> gm_ok (gm_dev r))"
  using globalmem_transfers_correct [OF simple_kernel_ok gm_zero_ok(1), of 2 4095 "[7, 8]"]
  by (simp add: gm_zero_def) (auto simp: simple_kernel_def)

text \<open>
  C21. The array is a byte store: with the user's buffers mapped, a write inside the array stores all its bytes and a read there delivers them; whatever
  a transfer does, bytes read back after a write are the bytes written, and writes
  that do not cover a position do not change it. \<open>MEM_CLEAR\<close> returns 0 and sets every byte to zero, so that every read after it
  delivers zeros; any other command returns \<open>-EINVAL\<close> without effect.
\<close>

theorem globalmem_store:
  assumes "gm_inv s"
  shows "(\<forall>p xs. user_ok (fst s) \<and> p < 4096 \<and> p + length xs \<le> 4096 \<longrightarrow>
       (\<exists>s'. gm_put p xs s = (Some (length xs), s') \<and> gm_get p (length xs) s' = (Some xs, s'))) \<and>
    (\<forall>p xs n s' ys. gm_put p xs s = (Some n, s') \<longrightarrow> fst (gm_get p n s') = Some ys \<longrightarrow> ys = take (length ys) xs) \<and>
    (\<forall>q ws. list_all (\<lambda>(p, xs). q < p \<or> p + length xs \<le> q) ws \<longrightarrow> gm_byte (run_writes gm_put ws s) q = gm_byte s q) \<and>
    (\<exists>d. globalmem_ioctl MEM_CLEAR (snd s) = (0, d) \<and> mem d = replicate 4096 0 \<and>
       (\<forall>p n ys. fst (gm_get p n (fst s, d)) = Some ys \<longrightarrow> ys = replicate (length ys) 0)) \<and>
    (cmd \<noteq> MEM_CLEAR \<longrightarrow> globalmem_ioctl cmd (snd s) = (- EINVAL, snd s))"
proof (intro conjI)
  show "\<exists>d. globalmem_ioctl MEM_CLEAR (snd s) = (0, d) \<and> mem d = replicate 4096 0 \<and>
       (\<forall>p n ys. fst (gm_get p n (fst s, d)) = Some ys \<longrightarrow> ys = replicate (length ys) 0)"
    using gm_clear_reads [OF assms] by (simp add: globalmem_ioctl_def)
qed (use gm.read_back [OF assms] gm.writes_elsewhere [OF assms] gm_written_back [OF assms] in \<open>auto simp: globalmem_ioctl_def\<close>)

theorem globalmem_store_witness:
  "gm_byte (run_writes gm_put [(3, [1, 2]), (8, [9])] (simple_kernel, gm_zero)) 7 = 0 \<and>
   (\<exists>d. globalmem_ioctl MEM_CLEAR \<lparr>mem = replicate 4096 7\<rparr> = (0, d) \<and> mem d = replicate 4096 0)"
proof
  have "gm_byte (run_writes gm_put [(3, [1, 2]), (8, [9])] (simple_kernel, gm_zero)) 7 = gm_byte (simple_kernel, gm_zero) 7"
    by (rule globalmem_store [OF gm_zero_ok(2), THEN conjunct2, THEN conjunct2, THEN conjunct1, rule_format]) simp
  then show "gm_byte (run_writes gm_put [(3, [1, 2]), (8, [9])] (simple_kernel, gm_zero)) 7 = 0" by (simp add: gm_byte_def gm_zero_def)
  have "gm_inv (simple_kernel, \<lparr>mem = replicate 4096 7\<rparr>)" by (simp add: gm_inv_def gm_ok_def simple_kernel_ok)
  from globalmem_store [OF this, of MEM_CLEAR] show "\<exists>d. globalmem_ioctl MEM_CLEAR \<lparr>mem = replicate 4096 7\<rparr> = (0, d) \<and> mem d = replicate 4096 0" by auto
qed

text \<open>
  C22. \<open>globalmem_llseek\<close> from a position inside the array (or at its end): a seek that would
  leave the array returns \<open>-EINVAL\<close> and keeps the position, whatever the offset, also when
  the sum overflows; otherwise the new position is the sum and is returned. An absolute seek to an
  offset below \<open>2 ^ 32\<close> is accepted exactly if it lies in the array. Any other origin is
  refused. The offset of an absolute seek is truncated to 32 bits before it is checked: a seek to
  \<open>2 ^ 32 + p\<close> moves to \<open>p\<close> instead of failing.
\<close>

theorem globalmem_llseek_correct:
  assumes "unat f_pos \<le> 4096"
  shows "(let t = int (unat f_pos) + sint offset in
      if 0 \<le> t \<and> t < 4096
      then \<exists>p. globalmem_llseek f_pos offset 1 = (t, p) \<and> int (unat p) = t
      else globalmem_llseek f_pos offset 1 = (- EINVAL, f_pos)) \<and>
    (unat offset < 2 ^ 32 \<longrightarrow>
      (if unat offset < 4096 then globalmem_llseek f_pos offset 0 = (int (unat offset), offset)
       else globalmem_llseek f_pos offset 0 = (- EINVAL, f_pos))) \<and>
    (orig \<noteq> 0 \<and> orig \<noteq> 1 \<longrightarrow> globalmem_llseek f_pos offset orig = (- EINVAL, f_pos)) \<and>
    (unat offset < 4096 \<longrightarrow> globalmem_llseek f_pos (0x100000000 + offset) 0 = (int (unat offset), offset))"
proof (intro conjI impI)
  show "let t = int (unat f_pos) + sint offset in
      if 0 \<le> t \<and> t < 4096
      then \<exists>p. globalmem_llseek f_pos offset 1 = (t, p) \<and> int (unat p) = t
      else globalmem_llseek f_pos offset 1 = (- EINVAL, f_pos)"
    using llseek_cur [OF assms, of offset] by (simp only: Let_def) auto
  assume small: "unat offset < 2 ^ 32"
  have "n < 2 ^ 32 \<Longrightarrow> s64 (int n) = int n" for n by (simp add: s64_id)
  from this [OF small] have pos: "sint offset = int (unat offset)" by (simp add: signed_64)
  have u: "unat (ucast offset :: 32 word) = unat offset"
    using small by (simp add: unsigned_ucast_eq take_bit_nat_eq_self)
  have same: "ucast (ucast offset :: 32 word) = offset"
    using small by (intro unsigned_word_eqI [where 'a = nat]) (simp only: unsigned_ucast_eq [of "ucast offset :: 32 word"] u, simp add: take_bit_nat_eq_self)
  have ge: "(ucast GLOBALMEM_SIZE :: 32 word) \<le> ucast offset \<longleftrightarrow> 4096 \<le> unat offset"
    by (simp add: word_le_nat_alt u GLOBALMEM_SIZE_def)
  show "if unat offset < 4096 then globalmem_llseek f_pos offset 0 = (int (unat offset), offset)
       else globalmem_llseek f_pos offset 0 = (- EINVAL, f_pos)"
    using pos by (simp add: globalmem_llseek_def ge same Let_def del: of_nat_unat)
qed (use llseek_truncates [of offset f_pos] in \<open>simp_all add: globalmem_llseek_def\<close>)

theorem globalmem_llseek_correct_witness:
  "globalmem_llseek 4096 4 0 = (4, 4) \<and> globalmem_llseek 4096 0x100000004 0 = (4, 4) \<and> globalmem_llseek 4096 1 1 = (- EINVAL, 4096)"
  using globalmem_llseek_correct [of 4096 4 0] globalmem_llseek_correct [of 4096 1 0] by (simp add: Let_def)

end
