(* ===== verification/Scull_Access.thy ===== *)
theory Scull_Access
  imports Scull_Correct
begin

text \<open>
  The access-controlled devices of \<^verbatim>\<open>scull/access.c\<close>: \<open>scull_single\<close>,
  \<open>scull_uid\<close> (one user at a time), \<open>scull_wuid\<close> (the same, but an open waits) and
  \<open>scull_copy\<close> (one device per controlling terminal). Code under a spinlock runs as one step.
  The policy that \<open>scull_uid\<close> and \<open>scull_wuid\<close> share is a locale, interpreted on both.
\<close>

unbundle bit_operations_syntax

section \<open>Opening for writing\<close>

definition O_ACCMODE :: "32 word" where "O_ACCMODE = 3"
definition O_WRONLY :: "32 word" where "O_WRONLY = 1"

definition open_trim :: "scull_globals \<Rightarrow> 32 word \<Rightarrow> scull_dev \<Rightarrow> heap \<Rightarrow> (scull_dev \<times> heap) res" where
  \<comment> \<open>\<open>if ((filp->f_flags & O_ACCMODE) == O_WRONLY) scull_trim(dev);\<close>\<close>
  "open_trim g fl d h = (if fl AND O_ACCMODE = O_WRONLY then scull_trim g d h else Inr (d, h))"

section \<open>scull_single\<close>

definition scull_s_open :: "scull_globals \<Rightarrow> 32 word \<Rightarrow> scull_dev \<Rightarrow> heap \<Rightarrow> (int \<times> scull_dev \<times> heap) res" where
  "scull_s_open g fl d h = bindE (open_trim g fl d h) (\<lambda>(d', h'). Inr (0, d', h'))"

definition scull_s_release :: int where "scull_s_release = 0"

section \<open>scull_uid\<close>

text \<open>The calling process: its user ids and whether it has \<open>CAP_DAC_OVERRIDE\<close>.\<close>

record cred =
  c_uid :: nat
  c_euid :: nat
  c_dac :: bool

record gate =
  acc_count :: int
  acc_owner :: nat
  acc_dev :: scull_dev

definition gate_enter ::
  "scull_globals \<Rightarrow> cred \<Rightarrow> 32 word \<Rightarrow> gate \<Rightarrow> heap \<Rightarrow> (int \<times> gate \<times> heap) res" where
  \<comment> \<open>the part of \<open>scull_u_open\<close> and \<open>scull_w_open\<close> after the caller is admitted\<close>
  "gate_enter g c fl s h =
     (let s1 = (if acc_count s = 0 then s\<lparr>acc_owner := c_uid c\<rparr> else s);
          s2 = s1\<lparr>acc_count := s32 (acc_count s1 + 1)\<rparr>
      in bindE (open_trim g fl (acc_dev s2) h) (\<lambda>(d', h'). Inr (0, s2\<lparr>acc_dev := d'\<rparr>, h')))"

definition scull_u_open ::
  "scull_globals \<Rightarrow> cred \<Rightarrow> 32 word \<Rightarrow> gate \<Rightarrow> heap \<Rightarrow> (int \<times> gate \<times> heap) res" where
  "scull_u_open g c fl s h =
     (if acc_count s > 0 \<and> acc_owner s \<noteq> c_uid c \<and> acc_owner s \<noteq> c_euid c \<and> \<not> c_dac c
      then Inr (- EBUSY, s, h)
      else gate_enter g c fl s h)"

definition scull_u_release :: "gate \<Rightarrow> gate" where
  "scull_u_release s =
     (let s1 = s\<lparr>acc_count := s32 (acc_count s - 1)\<rparr>
      in if acc_count s1 = 0 then s1\<lparr>acc_owner := 0\<rparr> else s1)"

section \<open>scull_wuid\<close>

definition scull_w_available :: "cred \<Rightarrow> gate \<Rightarrow> bool" where
  "scull_w_available c s \<longleftrightarrow>
     acc_count s = 0 \<or> acc_owner s = c_uid c \<or> acc_owner s = c_euid c \<or> c_dac c"

text \<open>
  \<open>scull_w_open\<close> as a state machine: \<open>W_lock\<close> is about to take the lock and test at the head
  of the loop, \<open>W_wait\<close> is in \<open>wait_event_interruptible\<close>. \<open>None\<close>: asleep.
\<close>

datatype w_pc = W_lock | W_wait | W_ret int

fun scull_w_step ::
  "scull_globals \<Rightarrow> cred \<Rightarrow> 32 word \<Rightarrow> bool \<Rightarrow> w_pc \<Rightarrow> gate \<Rightarrow> heap \<Rightarrow> (w_pc \<times> gate \<times> heap) option res" where
  "scull_w_step g c fl sig W_lock s h =
     (if \<not> scull_w_available c s
      then Inr (Some (if fl AND O_NONBLOCK \<noteq> 0 then W_ret (- EAGAIN) else W_wait, s, h))
      else bindE (gate_enter g c fl s h) (\<lambda>(r, s', h'). Inr (Some (W_ret r, s', h'))))"
| "scull_w_step g c fl sig W_wait s h =
     (if scull_w_available c s then Inr (Some (W_lock, s, h))
      else if sig then Inr (Some (W_ret (- ERESTARTSYS), s, h)) else Inr None)"
| "scull_w_step g c fl sig (W_ret r) s h = Inr None"

definition scull_w_release :: "gate \<Rightarrow> gate \<times> bool" where
  \<comment> \<open>the state afterwards, and whether the waiters are woken\<close>
  "scull_w_release s =
     (let s1 = s\<lparr>acc_count := s32 (acc_count s - 1)\<rparr>;
          s2 = (if acc_count s1 = 0 then s1\<lparr>acc_owner := 0\<rparr> else s1)
      in (s2, acc_count s2 = 0))"

section \<open>scull_copy\<close>

record scull_listitem =
  li_addr :: addr
  li_dev :: scull_dev
  li_key :: nat

definition zero_dev :: scull_dev where
  \<comment> \<open>the \<open>memset\<close> of a new item\<close>
  "zero_dev = \<lparr>data = NULL, quantum = 0, qset = 0, sem = 0, dsize = 0, order = 0, dtype = scull_type_basic\<rparr>"

fun find_item :: "nat \<Rightarrow> scull_listitem list \<Rightarrow> nat option" where
  \<comment> \<open>\<open>list_for_each_entry\<close>: the index of the first item with the key\<close>
  "find_item key [] = None"
| "find_item key (x # xs) = (if li_key x = key then Some 0 else map_option Suc (find_item key xs))"

definition item_block :: "kernel \<Rightarrow> addr \<Rightarrow> heap \<Rightarrow> heap" where
  \<comment> \<open>the block of a list item; the fields of the item are kept in the list\<close>
  "item_block k p h = h\<lparr>hp_blk := fmupd p (By_kmalloc, replicate (listitem_size k) 0) (hp_blk h)\<rparr>"

definition scull_c_lookfor_device ::
  "scull_globals \<Rightarrow> kernel \<Rightarrow> nat \<Rightarrow> scull_listitem list \<Rightarrow> heap \<Rightarrow> (nat option \<times> scull_listitem list \<times> heap) res" where
  \<comment> \<open>the device is given by the index of its item in the list\<close>
  "scull_c_lookfor_device g k key items h =
     (case find_item key items of
        Some i \<Rightarrow> Inr (Some i, items, h)
      | None \<Rightarrow>
          let p = kmalloc k h (listitem_size k) in
          if p = NULL then Inr (None, items, h)
          else bindE (scull_trim g zero_dev (item_block k p h)) (\<lambda>(d, h').
                 Inr (Some 0, \<lparr>li_addr = p, li_dev = d\<lparr>sem := 1\<rparr>, li_key = key\<rparr> # items, h')))"

definition scull_c_open ::
  "scull_globals \<Rightarrow> kernel \<Rightarrow> nat option \<Rightarrow> 32 word \<Rightarrow> scull_listitem list \<Rightarrow> heap \<Rightarrow>
   (int \<times> nat option \<times> scull_listitem list \<times> heap) res" where
  \<comment> \<open>\<open>tty\<close>: the device number of the controlling terminal, if there is one\<close>
  "scull_c_open g k tty fl items h =
     (case tty of
        None \<Rightarrow> Inr (- EINVAL, None, items, h)
      | Some key \<Rightarrow>
          bindE (scull_c_lookfor_device g k key items h) (\<lambda>(r, items1, h1).
            case r of
              None \<Rightarrow> Inr (- ENOMEM, None, items1, h1)
            | Some i \<Rightarrow>
                bindE (open_trim g fl (li_dev (items1 ! i)) h1) (\<lambda>(d, h2).
                  Inr (0, Some i, items1[i := (items1 ! i)\<lparr>li_dev := d\<rparr>], h2))))"

definition scull_c_release :: int where "scull_c_release = 0"

section \<open>The policy of one user at a time\<close>

definition may_share :: "cred \<Rightarrow> nat \<Rightarrow> bool" where
  "may_share c owner \<longleftrightarrow> owner = c_uid c \<or> owner = c_euid c \<or> c_dac c"

text \<open>A history of opens and closes; \<open>run_gate\<close> keeps the credentials of the files now open.\<close>

datatype gate_event = Open_by cred "32 word" | Close_one nat

fun run_gate ::
  "(cred \<Rightarrow> 32 word \<Rightarrow> 's \<Rightarrow> 's option) \<Rightarrow> ('s \<Rightarrow> 's) \<Rightarrow> gate_event list \<Rightarrow> cred list \<times> 's \<Rightarrow> cred list \<times> 's" where
  "run_gate opn cls [] st = st"
| "run_gate opn cls (Open_by c fl # es) (fs, s) =
     (case opn c fl s of None \<Rightarrow> run_gate opn cls es (fs, s) | Some s' \<Rightarrow> run_gate opn cls es (c # fs, s'))"
| "run_gate opn cls (Close_one i # es) (fs, s) =
     (if i < length fs then run_gate opn cls es (take i fs @ drop (Suc i) fs, cls s)
      else run_gate opn cls es (fs, s))"

locale access_policy =
  fixes ok :: "'s \<Rightarrow> bool" and users :: "'s \<Rightarrow> int" and owner :: "'s \<Rightarrow> nat"
    and opn :: "cred \<Rightarrow> 32 word \<Rightarrow> 's \<Rightarrow> 's option" and cls :: "'s \<Rightarrow> 's"
  assumes opn_keeps: "ok s \<Longrightarrow> opn c fl s = Some s' \<Longrightarrow> 0 \<le> users s \<Longrightarrow> users s < 2 ^ 31 - 1 \<Longrightarrow>
      ok s' \<and> users s' = users s + 1 \<and> owner s' = (if users s = 0 then c_uid c else owner s)"
    and opn_admits: "ok s \<Longrightarrow> 0 \<le> users s \<Longrightarrow> opn c fl s \<noteq> None \<longleftrightarrow> users s = 0 \<or> may_share c (owner s)"
    and cls_keeps: "ok s \<Longrightarrow> 0 < users s \<Longrightarrow> users s < 2 ^ 31 \<Longrightarrow>
      ok (cls s) \<and> users (cls s) = users s - 1 \<and> (users s \<noteq> 1 \<longrightarrow> owner (cls s) = owner s)"
begin

lemma shared:
  "ok s \<Longrightarrow> users s = int (length fs) \<Longrightarrow> list_all (\<lambda>c. may_share c (owner s)) fs \<Longrightarrow>
   length fs + length es < 2 ^ 31 - 1 \<Longrightarrow> run_gate opn cls es (fs, s) = (fs', s') \<Longrightarrow>
   ok s' \<and> users s' = int (length fs') \<and> list_all (\<lambda>c. may_share c (owner s')) fs'"
proof (induction es arbitrary: fs s)
  case (Cons e es)
  show ?case
  proof (cases e)
    case (Open_by c fl)
    show ?thesis
    proof (cases "opn c fl s")
      case None
      with Open_by Cons show ?thesis by simp
    next
      case (Some s1)
      have k: "ok s1" "users s1 = users s + 1" "owner s1 = (if users s = 0 then c_uid c else owner s)"
        using opn_keeps [OF Cons.prems(1) Some] Cons.prems(2,4) by simp_all
      have "may_share c (owner s1)"
        using opn_admits [OF Cons.prems(1), of c fl] Some Cons.prems(2) k(3) by (auto simp: may_share_def)
      moreover have "list_all (\<lambda>c. may_share c (owner s1)) fs"
        using Cons.prems(2,3) k(3) by (cases fs) simp_all
      ultimately show ?thesis
        using Cons.IH [of s1 "c # fs"] Cons.prems k Open_by Some by simp
    qed
  next
    case (Close_one i)
    show ?thesis
    proof (cases "i < length fs")
      case False
      with Close_one Cons show ?thesis by simp
    next
      case True
      let ?fs = "take i fs @ drop (Suc i) fs"
      have k: "ok (cls s)" "users (cls s) = users s - 1" "users s \<noteq> 1 \<longrightarrow> owner (cls s) = owner s"
      proof -
        have "0 < users s" "users s < 2 ^ 31" using Cons.prems(2,4) True by auto
        from cls_keeps [OF Cons.prems(1) this]
        show "ok (cls s)" "users (cls s) = users s - 1" "users s \<noteq> 1 \<longrightarrow> owner (cls s) = owner s" by simp_all
      qed
      have l: "length ?fs = length fs - 1" using True by simp
      have "list_all (\<lambda>c. may_share c (owner (cls s))) ?fs"
      proof (cases "length fs = 1")
        case False
        with k(3) Cons.prems(2,3) show ?thesis by (auto simp: list_all_iff dest: in_set_takeD in_set_dropD)
      next
        case True
        with l have "?fs = []" by (metis length_0_conv diff_self_eq_0)
        then show ?thesis by (auto simp: list_all_iff)
      qed
      moreover have "users (cls s) = int (length ?fs)" using k(2) l True Cons.prems(2) by simp
      moreover have "length ?fs + length es < 2 ^ 31 - 1" using Cons.prems(4) l by simp
      ultimately show ?thesis using Cons.IH [OF k(1), of ?fs] Cons.prems(5) Close_one True by simp
    qed
  qed
qed simp

lemma one_user:
  assumes "ok s" and "users s = 0" and "length es < 2 ^ 31 - 1" and "run_gate opn cls es ([], s) = (fs, s')"
    and "c \<in> set fs" "c' \<in> set fs" "\<not> c_dac c" "\<not> c_dac c'" "c_euid c = c_uid c" "c_euid c' = c_uid c'"
  shows "c_uid c = c_uid c'"
proof -
  have "list_all (\<lambda>c. may_share c (owner s')) fs"
    using shared [OF assms(1), of "[]" es fs s'] assms(2-4) by simp
  with assms(5-) have "may_share c (owner s')" "may_share c' (owner s')" by (simp_all add: list_all_iff)
  with assms(7-) show ?thesis by (simp add: may_share_def)
qed

end


section \<open>The gates follow the policy\<close>

type_synonym gate_state = "scull_globals \<times> gate \<times> heap"

definition globals_ok :: "scull_globals \<Rightarrow> bool" where
  "globals_ok g \<longleftrightarrow> 0 < scull_quantum g \<and> 0 < scull_qset_n g \<and> scull_quantum g * scull_qset_n g < 2 ^ 31"

definition gate_ok :: "gate_state \<Rightarrow> bool" where
  "gate_ok st = (case st of (g, s, h) \<Rightarrow>
     (\<exists>gs. dev_inv h (acc_dev s) gs) \<and> dtype (acc_dev s) = scull_type_basic \<and> globals_ok g)"

definition u_opn :: "cred \<Rightarrow> 32 word \<Rightarrow> gate_state \<Rightarrow> gate_state option" where
  "u_opn c fl st = (case st of (g, s, h) \<Rightarrow>
     case scull_u_open g c fl s h of
       Inl f \<Rightarrow> None
     | Inr (r, s', h') \<Rightarrow> if r = 0 then Some (g, s', h') else None)"

definition u_cls :: "gate_state \<Rightarrow> gate_state" where
  "u_cls st = (case st of (g, s, h) \<Rightarrow> (g, scull_u_release s, h))"

text \<open>For \<open>scull_wuid\<close>: one pass of the loop by a caller that need not wait.\<close>

definition w_opn :: "cred \<Rightarrow> 32 word \<Rightarrow> gate_state \<Rightarrow> gate_state option" where
  "w_opn c fl st = (case st of (g, s, h) \<Rightarrow>
     case scull_w_step g c fl False W_lock s h of
       Inr (Some (W_ret r, s', h')) \<Rightarrow> if r = 0 then Some (g, s', h') else None
     | _ \<Rightarrow> None)"

definition w_cls :: "gate_state \<Rightarrow> gate_state" where
  "w_cls st = (case st of (g, s, h) \<Rightarrow> (g, fst (scull_w_release s), h))"

lemma open_trim_ok:
  assumes "dev_inv h d gs" and "dtype d = scull_type_basic"
    and "0 < scull_quantum g" "0 < scull_qset_n g" "scull_quantum g * scull_qset_n g < 2 ^ 31"
  shows "\<exists>d' h' gs'. open_trim g fl d h = Inr (d', h') \<and> dev_inv h' d' gs' \<and> dtype d' = scull_type_basic \<and>
    sem d' = sem d"
proof (cases "fl AND O_ACCMODE = O_WRONLY")
  case True
  have "scull_trim g d h = Inr (d\<lparr>dsize := 0, data := NULL, qset := scull_qset_n g, quantum := scull_quantum g\<rparr>, without h gs)"
    using scull_trim_ok [OF assms(1), of g] assms(2) by (simp add: cache_ready_def)
  moreover have "dev_inv (without h gs) (d\<lparr>dsize := 0, data := NULL, qset := scull_qset_n g, quantum := scull_quantum g\<rparr>) []"
    using assms(3-5) by (simp add: dev_inv_def params_ok_def arr_addrs_def blk_addrs_def)
  ultimately show ?thesis using True assms(2) by (auto simp: open_trim_def)
next
  case False
  with assms show ?thesis by (auto simp: open_trim_def)
qed

lemma gate_enter_ok:
  assumes "gate_ok (g, s, h)"
  obtains s' h' where "gate_enter g c fl s h = Inr (0, s', h')" "gate_ok (g, s', h')"
    "acc_count s' = s32 (acc_count s + 1)" "acc_owner s' = (if acc_count s = 0 then c_uid c else acc_owner s)"
proof -
  obtain gs where inv: "dev_inv h (acc_dev s) gs" and ty: "dtype (acc_dev s) = scull_type_basic"
    and par: "0 < scull_quantum g" "0 < scull_qset_n g" "scull_quantum g * scull_qset_n g < 2 ^ 31"
    using assms(1) by (auto simp: gate_ok_def globals_ok_def)
  obtain d' h' gs' where o: "open_trim g fl (acc_dev s) h = Inr (d', h')" "dev_inv h' d' gs'"
    "dtype d' = scull_type_basic"
    using open_trim_ok [OF inv ty par] by blast
  with par show thesis
    by (intro that [of "(if acc_count s = 0 then s\<lparr>acc_owner := c_uid c\<rparr> else s)\<lparr>acc_count := s32 (acc_count s + 1), acc_dev := d'\<rparr>" h'])
      (auto simp: gate_enter_def gate_ok_def globals_ok_def Let_def)
qed

lemma gate_release_ok:
  assumes "gate_ok (g, s, h)" and "0 < acc_count s" "acc_count s < 2 ^ 31"
  shows "gate_ok (g, scull_u_release s, h) \<and> acc_count (scull_u_release s) = acc_count s - 1 \<and>
    (acc_count s \<noteq> 1 \<longrightarrow> acc_owner (scull_u_release s) = acc_owner s)"
proof -
  have "s32 (acc_count s - 1) = acc_count s - 1" using assms(2,3) by (intro s32_id) simp_all
  with assms(1) show ?thesis by (auto simp: scull_u_release_def gate_ok_def globals_ok_def Let_def)
qed

lemma w_release_eq: "fst (scull_w_release s) = scull_u_release s"
  by (simp add: scull_w_release_def scull_u_release_def Let_def)

abbreviation st_users :: "gate_state \<Rightarrow> int" where "st_users st \<equiv> acc_count (fst (snd st))"
abbreviation st_owner :: "gate_state \<Rightarrow> nat" where "st_owner st \<equiv> acc_owner (fst (snd st))"

interpretation ug: access_policy gate_ok st_users st_owner u_opn u_cls
proof
  fix st st' :: gate_state and c fl
  obtain g s h where st: "st = (g, s, h)" by (cases st)
  assume "gate_ok st"
  then have ok: "gate_ok (g, s, h)" by (simp add: st)
  obtain s1 h1 where e: "gate_enter g c fl s h = Inr (0, s1, h1)" "gate_ok (g, s1, h1)"
    "acc_count s1 = s32 (acc_count s + 1)" "acc_owner s1 = (if acc_count s = 0 then c_uid c else acc_owner s)"
    by (rule gate_enter_ok [OF ok])
  show "gate_ok st' \<and> st_users st' = st_users st + 1 \<and> st_owner st' = (if st_users st = 0 then c_uid c else st_owner st)"
    if "u_opn c fl st = Some st'" "0 \<le> st_users st" "st_users st < 2 ^ 31 - 1"
    using that e by (auto simp: u_opn_def scull_u_open_def st s32_id split: if_splits)
  show "u_opn c fl st \<noteq> None \<longleftrightarrow> st_users st = 0 \<or> may_share c (st_owner st)" if "0 \<le> st_users st"
    using that e(1) by (auto simp: u_opn_def scull_u_open_def st may_share_def)
  show "gate_ok (u_cls st) \<and> st_users (u_cls st) = st_users st - 1 \<and>
      (st_users st \<noteq> 1 \<longrightarrow> st_owner (u_cls st) = st_owner st)" if "0 < st_users st" "st_users st < 2 ^ 31"
    using gate_release_ok [OF ok] that by (simp add: u_cls_def st)
qed

interpretation wg: access_policy gate_ok st_users st_owner w_opn w_cls
proof
  fix st st' :: gate_state and c fl
  obtain g s h where st: "st = (g, s, h)" by (cases st)
  assume "gate_ok st"
  then have ok: "gate_ok (g, s, h)" by (simp add: st)
  obtain s1 h1 where e: "gate_enter g c fl s h = Inr (0, s1, h1)" "gate_ok (g, s1, h1)"
    "acc_count s1 = s32 (acc_count s + 1)" "acc_owner s1 = (if acc_count s = 0 then c_uid c else acc_owner s)"
    by (rule gate_enter_ok [OF ok])
  show "gate_ok st' \<and> st_users st' = st_users st + 1 \<and> st_owner st' = (if st_users st = 0 then c_uid c else st_owner st)"
    if "w_opn c fl st = Some st'" "0 \<le> st_users st" "st_users st < 2 ^ 31 - 1"
    using that e by (auto simp: w_opn_def st s32_id split: if_splits)
  show "w_opn c fl st \<noteq> None \<longleftrightarrow> st_users st = 0 \<or> may_share c (st_owner st)"
    using e(1) by (auto simp: w_opn_def st may_share_def scull_w_available_def)
  show "gate_ok (w_cls st) \<and> st_users (w_cls st) = st_users st - 1 \<and>
      (st_users st \<noteq> 1 \<longrightarrow> st_owner (w_cls st) = st_owner st)" if "0 < st_users st" "st_users st < 2 ^ 31"
    using gate_release_ok [OF ok] that by (simp add: w_cls_def st w_release_eq)
qed


section \<open>Devices of terminals\<close>

definition items_ok :: "heap \<Rightarrow> scull_listitem list \<Rightarrow> gnode list list \<Rightarrow> bool" where
  "items_ok h items gss \<longleftrightarrow>
     length gss = length items \<and> distinct (map li_key items) \<and>
     (\<forall>i<length items. dev_inv h (li_dev (items ! i)) (gss ! i) \<and> dtype (li_dev (items ! i)) = scull_type_basic) \<and>
     (\<forall>i<length items. \<forall>j<length items. i \<noteq> j \<longrightarrow> footprint (gss ! i) \<inter> footprint (gss ! j) = {})"

lemma footprint_Nil [simp]: "footprint [] = {}"
  by (simp add: footprint_def arr_addrs_def blk_addrs_def)

lemma find_item_Some: "find_item key items = Some i \<Longrightarrow> i < length items \<and> li_key (items ! i) = key"
  by (induction items arbitrary: i) (auto split: if_splits)

lemma find_item_None: "find_item key items = None \<longleftrightarrow> key \<notin> li_key ` set items"
  by (induction items) auto

text \<open>A new block leaves the devices alone.\<close>

lemma item_block_same:
  assumes inv: "dev_inv h d gs" and p: "p \<notin> allocated h"
  shows "dev_inv (item_block k p h) d gs" and "byte_at (item_block k p h) d gs = byte_at h d gs"
proof -
  have "p \<notin> footprint gs" using footprint_allocated [OF inv] p by blast
  then show "dev_inv (item_block k p h) d gs" "byte_at (item_block k p h) d gs = byte_at h d gs"
    by (auto intro!: same_memory [OF inv] simp: item_block_def)
qed

lemma trim_empty:
  assumes "data d = NULL" and "dtype d = scull_type_basic"
  shows "scull_trim g d h = Inr (d\<lparr>dsize := 0, data := NULL, qset := scull_qset_n g, quantum := scull_quantum g\<rparr>, h)"
  using assms by (simp add: scull_trim_def trim_loop.simps)

lemma lookfor_ok:
  assumes k: "kernel_ok k" and ok: "items_ok h items gss" and g: "globals_ok g"
  obtains (nomem) "kmalloc k h (listitem_size k) = NULL" "key \<notin> li_key ` set items" "scull_c_lookfor_device g k key items h = Inr (None, items, h)"
  | (old) i where "i < length items" "li_key (items ! i) = key"
      "scull_c_lookfor_device g k key items h = Inr (Some i, items, h)"
  | (fresh) x h1 where "key \<notin> li_key ` set items" "li_key x = key" "data (li_dev x) = NULL" "dsize (li_dev x) = 0" "sem (li_dev x) = 1" "dtype (li_dev x) = scull_type_basic"
      "li_addr x \<noteq> NULL" "li_addr x \<notin> allocated h" "h1 = item_block k (li_addr x) h"
      "scull_c_lookfor_device g k key items h = Inr (Some 0, x # items, h1)" "items_ok h1 (x # items) ([] # gss)"
      "\<And>j. j < length items \<Longrightarrow> byte_at h1 (li_dev (items ! j)) (gss ! j) = byte_at h (li_dev (items ! j)) (gss ! j)"
proof (cases "find_item key items")
  case (Some i)
  with find_item_Some [OF Some] show thesis by (intro old [of i]) (simp_all add: scull_c_lookfor_device_def)
next
  case None
  then have key: "key \<notin> li_key ` set items" by (simp add: find_item_None)
  define p where "p = kmalloc k h (listitem_size k)"
  show thesis
  proof (cases "p = NULL")
    case True
    with None key show thesis by (intro nomem) (simp_all add: scull_c_lookfor_device_def p_def)
  next
    case False
    define d where "d = zero_dev\<lparr>qset := scull_qset_n g, quantum := scull_quantum g, sem := 1\<rparr>"
    define x where "x = \<lparr>li_addr = p, li_dev = d, li_key = key\<rparr>"
    let ?h = "item_block k p h"
    have p: "p \<notin> allocated h" using kmalloc_fresh [OF k] False by (simp add: p_def)
    have "scull_c_lookfor_device g k key items h = Inr (Some 0, x # items, ?h)"
      using None False by (simp add: scull_c_lookfor_device_def trim_empty x_def d_def p_def [symmetric] Let_def) (simp add: zero_dev_def trim_empty)
    moreover have old: "dev_inv ?h (li_dev (items ! j)) (gss ! j)" "byte_at ?h (li_dev (items ! j)) (gss ! j) = byte_at h (li_dev (items ! j)) (gss ! j)"
      if "j < length items" for j using item_block_same [OF _ p] ok that by (simp_all add: items_ok_def)
    moreover have "dev_inv ?h d [] \<and> dtype d = scull_type_basic"
      using g by (simp add: d_def zero_dev_def dev_inv_def params_ok_def globals_ok_def arr_addrs_def blk_addrs_def)
    then have "items_ok ?h (x # items) ([] # gss)"
      using ok key old(1) by (auto simp: items_ok_def x_def nth_Cons split: nat.split)
    ultimately show thesis using key p False by (intro fresh [of x ?h]) (simp_all add: x_def d_def zero_dev_def)
  qed
qed

text \<open>Truncating one device of the list leaves the others alone.\<close>

lemma item_trim:
  assumes ok: "items_ok h items gss" and g: "globals_ok g" and i: "i < length items"
  obtains d' h' gss' where "open_trim g fl (li_dev (items ! i)) h = Inr (d', h')"
    "items_ok h' (items[i := (items ! i)\<lparr>li_dev := d'\<rparr>]) gss'"
    "\<And>j. j < length items \<Longrightarrow> j \<noteq> i \<Longrightarrow>
       gss' ! j = gss ! j \<and> byte_at h' (li_dev (items ! j)) (gss ! j) = byte_at h (li_dev (items ! j)) (gss ! j)"
proof (cases "fl AND O_ACCMODE = O_WRONLY")
  case False
  then show thesis using ok i by (intro that [of "li_dev (items ! i)" h gss]) (simp_all add: open_trim_def)
next
  case True
  let ?d = "li_dev (items ! i)" and ?h = "without h (gss ! i)"
  let ?d' = "?d\<lparr>dsize := 0, data := NULL, qset := scull_qset_n g, quantum := scull_quantum g\<rparr>"
  have inv: "dev_inv h ?d (gss ! i)" "dtype ?d = scull_type_basic" and len: "length gss = length items"
    using ok i by (simp_all add: items_ok_def)
  have tr: "open_trim g fl ?d h = Inr (?d', ?h)"
    using scull_trim_ok [OF inv(1), of g] inv(2) True by (simp add: open_trim_def cache_ready_def)
  have other: "dev_inv ?h (li_dev (items ! j)) (gss ! j)"
    "byte_at ?h (li_dev (items ! j)) (gss ! j) = byte_at h (li_dev (items ! j)) (gss ! j)"
    if "j < length items" "j \<noteq> i" for j
    using without_other [of h "li_dev (items ! j)" "gss ! j" "gss ! i"] ok that i by (simp_all add: items_ok_def)
  have "dev_inv ?h ?d' []"
    using g by (simp add: dev_inv_def params_ok_def globals_ok_def arr_addrs_def blk_addrs_def)
  moreover have "map li_key (items[i := (items ! i)\<lparr>li_dev := ?d'\<rparr>]) = map li_key items"
    using i by (simp add: map_update) (metis list_update_id nth_map)
  ultimately have "items_ok ?h (items[i := (items ! i)\<lparr>li_dev := ?d'\<rparr>]) (gss[i := []])"
    using ok i len other(1) inv(2) by (auto simp: items_ok_def nth_list_update simp del: map_update)
  with tr other(2) i len show thesis by (intro that [of ?d' ?h "gss[i := []]"]) (simp_all add: items_ok_def)
qed


section \<open>A small gate\<close>

definition demo_globals :: scull_globals where
  "demo_globals = \<lparr>scull_quantum = 4, scull_qset_n = 2, scull_cache = None\<rparr>"

definition demo_gate :: gate where
  "demo_gate = \<lparr>acc_count = 0, acc_owner = 0, acc_dev = demo_dev\<rparr>"

definition user :: "nat \<Rightarrow> cred" where
  "user n = \<lparr>c_uid = n, c_euid = n, c_dac = False\<rparr>"

lemma demo_gate_ok: "gate_ok (demo_globals, demo_gate, demo_heap)"
  using demo_inv by (auto simp: gate_ok_def globals_ok_def demo_globals_def demo_gate_def demo_dev_def)

lemma demo_globals_ok: "globals_ok demo_globals"
  by (simp add: globals_ok_def demo_globals_def)

section \<open>Theorems\<close>

lemma u_exclusive:
  assumes "gate_ok st" and "st_users st = 0" and "length es < 2 ^ 31 - 1"
    and "run_gate u_opn u_cls es ([], st) = (fs, st')"
  shows "gate_ok st' \<and> st_users st' = int (length fs) \<and>
    (\<forall>c\<in>set fs. \<forall>c'\<in>set fs. \<not> c_dac c \<and> \<not> c_dac c' \<and> c_euid c = c_uid c \<and> c_euid c' = c_uid c' \<longrightarrow> c_uid c = c_uid c')"
  using ug.shared [OF assms(1), of "[]" es fs st'] ug.one_user [OF assms] assms(2-4) by auto

lemma w_waiter_admitted:
  assumes "gate_ok (g, s, h)" and "acc_count s = 1"
  shows "\<exists>s' h'. snd (scull_w_release s) \<and>
    scull_w_step g c fl sig W_wait (fst (scull_w_release s)) h = Inr (Some (W_lock, fst (scull_w_release s), h)) \<and>
    scull_w_step g c fl sig W_lock (fst (scull_w_release s)) h = Inr (Some (W_ret 0, s', h')) \<and>
    acc_owner s' = c_uid c \<and> acc_count s' = 1 \<and> gate_ok (g, s', h')"
proof -
  have rel: "gate_ok (g, fst (scull_w_release s), h)" "acc_count (fst (scull_w_release s)) = 0"
    using gate_release_ok [OF assms(1)] assms(2) by (simp_all add: w_release_eq)
  obtain s' h' where e: "gate_enter g c fl (fst (scull_w_release s)) h = Inr (0, s', h')" "gate_ok (g, s', h')"
    "acc_count s' = s32 (acc_count (fst (scull_w_release s)) + 1)"
    "acc_owner s' = (if acc_count (fst (scull_w_release s)) = 0 then c_uid c else acc_owner (fst (scull_w_release s)))"
    by (rule gate_enter_ok [OF rel(1)])
  moreover have "snd (scull_w_release s)" using rel(2) by (simp add: scull_w_release_def Let_def)
  ultimately show ?thesis using rel(2) by (simp add: scull_w_available_def s32_id)
qed

lemma w_exclusive:
  assumes "gate_ok st" and "st_users st = 0" and "length es < 2 ^ 31 - 1"
    and "run_gate w_opn w_cls es ([], st) = (fs, (g, s, h))"
  shows "(\<forall>c\<in>set fs. \<forall>c'\<in>set fs. \<not> c_dac c \<and> \<not> c_dac c' \<and> c_euid c = c_uid c \<and> c_euid c' = c_uid c' \<longrightarrow> c_uid c = c_uid c') \<and>
    (\<forall>c fl sig. fs \<noteq> [] \<and> \<not> may_share c (acc_owner s) \<longrightarrow>
       scull_w_step g c fl sig W_lock s h =
         Inr (Some (if fl AND O_NONBLOCK \<noteq> 0 then W_ret (- EAGAIN) else W_wait, s, h)) \<and>
       scull_w_step g c fl sig W_wait s h = (if sig then Inr (Some (W_ret (- ERESTARTSYS), s, h)) else Inr None)) \<and>
    (\<forall>c fl sig. length fs = 1 \<longrightarrow> (\<exists>s' h'. snd (scull_w_release s) \<and>
       scull_w_step g c fl sig W_wait (fst (scull_w_release s)) h = Inr (Some (W_lock, fst (scull_w_release s), h)) \<and>
       scull_w_step g c fl sig W_lock (fst (scull_w_release s)) h = Inr (Some (W_ret 0, s', h')) \<and>
       acc_owner s' = c_uid c \<and> acc_count s' = 1 \<and> gate_ok (g, s', h')))"
proof (intro conjI)
  have sh: "gate_ok (g, s, h)" "acc_count s = int (length fs)" "list_all (\<lambda>c. may_share c (acc_owner s)) fs"
    using wg.shared [OF assms(1), of "[]" es fs "(g, s, h)"] assms(2-4) by simp_all
  show "\<forall>c\<in>set fs. \<forall>c'\<in>set fs. \<not> c_dac c \<and> \<not> c_dac c' \<and> c_euid c = c_uid c \<and> c_euid c' = c_uid c' \<longrightarrow> c_uid c = c_uid c'"
    using wg.one_user [OF assms] by blast
  show "\<forall>c fl sig. fs \<noteq> [] \<and> \<not> may_share c (acc_owner s) \<longrightarrow>
       scull_w_step g c fl sig W_lock s h =
         Inr (Some (if fl AND O_NONBLOCK \<noteq> 0 then W_ret (- EAGAIN) else W_wait, s, h)) \<and>
       scull_w_step g c fl sig W_wait s h = (if sig then Inr (Some (W_ret (- ERESTARTSYS), s, h)) else Inr None)"
    using sh(2) by (auto simp: scull_w_available_def may_share_def)
  show "\<forall>c fl sig. length fs = 1 \<longrightarrow> (\<exists>s' h'. snd (scull_w_release s) \<and>
       scull_w_step g c fl sig W_wait (fst (scull_w_release s)) h = Inr (Some (W_lock, fst (scull_w_release s), h)) \<and>
       scull_w_step g c fl sig W_lock (fst (scull_w_release s)) h = Inr (Some (W_ret 0, s', h')) \<and>
       acc_owner s' = c_uid c \<and> acc_count s' = 1 \<and> gate_ok (g, s', h'))"
    using w_waiter_admitted [OF sh(1)] sh(2) by simp
qed

text \<open>
  C23. \<open>scull_uid\<close> and \<open>scull_wuid\<close> serve one user at a time: after any history of opens (granted or refused) and
  closes, any two files that are open and were opened by ordinary processes (no
  \<open>CAP_DAC_OVERRIDE\<close>, equal real and effective user) belong to the same user, the count is
  the number of open files, and the device is well-formed. For \<open>scull_wuid\<close> a caller that may not share the device does not change it:
  with \<open>O_NONBLOCK\<close> it gets \<open>-EAGAIN\<close>; otherwise it waits, and stays asleep until a signal
  (\<open>-ERESTARTSYS\<close>) or until the device is available to it. And it does become available: the last close
  frees the device and wakes the waiters, and an open that waits then takes
  the lock and succeeds, whoever it is by, and owns the device.
\<close>

theorem scull_gates_exclusive:
  assumes "gate_ok st" and "st_users st = 0" and "length es < 2 ^ 31 - 1"
  shows "(\<forall>fs st'. run_gate u_opn u_cls es ([], st) = (fs, st') \<longrightarrow> gate_ok st' \<and> st_users st' = int (length fs) \<and>
      (\<forall>c\<in>set fs. \<forall>c'\<in>set fs. \<not> c_dac c \<and> \<not> c_dac c' \<and> c_euid c = c_uid c \<and> c_euid c' = c_uid c' \<longrightarrow> c_uid c = c_uid c')) \<and>
    (\<forall>fs g s h. run_gate w_opn w_cls es ([], st) = (fs, (g, s, h)) \<longrightarrow>
      (\<forall>c\<in>set fs. \<forall>c'\<in>set fs. \<not> c_dac c \<and> \<not> c_dac c' \<and> c_euid c = c_uid c \<and> c_euid c' = c_uid c' \<longrightarrow> c_uid c = c_uid c') \<and>
      (\<forall>c fl sig. fs \<noteq> [] \<and> \<not> may_share c (acc_owner s) \<longrightarrow>
         scull_w_step g c fl sig W_lock s h =
           Inr (Some (if fl AND O_NONBLOCK \<noteq> 0 then W_ret (- EAGAIN) else W_wait, s, h)) \<and>
         scull_w_step g c fl sig W_wait s h = (if sig then Inr (Some (W_ret (- ERESTARTSYS), s, h)) else Inr None)) \<and>
      (\<forall>c fl sig. length fs = 1 \<longrightarrow> (\<exists>s' h'. snd (scull_w_release s) \<and>
         scull_w_step g c fl sig W_wait (fst (scull_w_release s)) h = Inr (Some (W_lock, fst (scull_w_release s), h)) \<and>
         scull_w_step g c fl sig W_lock (fst (scull_w_release s)) h = Inr (Some (W_ret 0, s', h')) \<and>
         acc_owner s' = c_uid c \<and> acc_count s' = 1 \<and> gate_ok (g, s', h'))))"
  using u_exclusive [OF assms] w_exclusive [OF assms] by (intro conjI allI impI) (simp only:; fail | blast)+

theorem scull_gates_exclusive_witness:
  "\<exists>s h s' h'. run_gate w_opn w_cls [Open_by (user 5) 0] ([], demo_globals, demo_gate, demo_heap) =
      ([user 5], (demo_globals, s, h)) \<and> snd (scull_w_release s) \<and>
    scull_w_step demo_globals (user 6) 0 False W_lock (fst (scull_w_release s)) h = Inr (Some (W_ret 0, s', h')) \<and> acc_owner s' = 6"
proof -
  obtain fs g s h where r: "run_gate w_opn w_cls [Open_by (user 5) 0] ([], demo_globals, demo_gate, demo_heap) = (fs, (g, s, h))"
    by (metis prod.exhaust)
  obtain s1 h1 where "gate_enter demo_globals (user 5) 0 demo_gate demo_heap = Inr (0, s1, h1)"
    by (rule gate_enter_ok [OF demo_gate_ok])
  with r have "fs = [user 5]" "g = demo_globals"
    by (auto simp: w_opn_def scull_w_available_def demo_gate_def split: sum.splits if_splits)
  moreover have "c_uid (user 6) = 6" by (simp add: user_def)
  ultimately show ?thesis
    using scull_gates_exclusive [OF demo_gate_ok, of "[Open_by (user 5) 0]", THEN conjunct2, rule_format, OF _ _ r, THEN conjunct2, THEN conjunct2, rule_format, of "user 6" 0 False] r
    by (simp add: demo_gate_def del: scull_w_step.simps) blast
qed

text \<open>
  C24. \<open>scull_copy\<close> gives every terminal its own device: an open from terminal \<open>key\<close>
  yields the one list item with that key, creating an empty, initialised device in new memory if there was
  none (or, without memory for it, returns \<open>-ENOMEM\<close> and changes nothing); all items stay well-formed with
  separate memory and different keys, and the contents of every other terminal's device are as before,
  even if the open truncates.
\<close>

theorem scull_c_open_correct:
  assumes "kernel_ok k" and "items_ok h items gss" and "globals_ok g"
  shows "\<exists>r oi items' h' gss'. scull_c_open g k (Some key) fl items h = Inr (r, oi, items', h') \<and> items_ok h' items' gss' \<and>
    (if r = 0 then \<exists>i. oi = Some i \<and> i < length items' \<and> li_key (items' ! i) = key
     else r = - ENOMEM \<and> kmalloc k h (listitem_size k) = NULL \<and> key \<notin> li_key ` set items \<and> items' = items \<and> h' = h) \<and>
    (r = 0 \<and> key \<notin> li_key ` set items \<longrightarrow> (\<exists>x. items' = x # items \<and> dsize (li_dev x) = 0 \<and> sem (li_dev x) = 1 \<and>
       li_addr x \<noteq> NULL \<and> li_addr x \<notin> allocated h \<and> h' = item_block k (li_addr x) h)) \<and>
    (\<forall>j<length items. li_key (items ! j) \<noteq> key \<longrightarrow>
       (\<exists>j'<length items'. items' ! j' = items ! j \<and>
          byte_at h' (li_dev (items ! j)) (gss' ! j') = byte_at h (li_dev (items ! j)) (gss ! j)))"
proof (rule lookfor_ok [OF assms, of key])
  fix i assume l: "i < length items" "li_key (items ! i) = key"
    "scull_c_lookfor_device g k key items h = Inr (Some i, items, h)"
  obtain d' h' gss' where t: "open_trim g fl (li_dev (items ! i)) h = Inr (d', h')"
    "items_ok h' (items[i := (items ! i)\<lparr>li_dev := d'\<rparr>]) gss'"
    "\<And>j. j < length items \<Longrightarrow> j \<noteq> i \<Longrightarrow>
       gss' ! j = gss ! j \<and> byte_at h' (li_dev (items ! j)) (gss ! j) = byte_at h (li_dev (items ! j)) (gss ! j)"
    using item_trim [OF assms(2,3) l(1), of fl] by metis
  let ?items = "items[i := (items ! i)\<lparr>li_dev := d'\<rparr>]"
  have "scull_c_open g k (Some key) fl items h = Inr (0, Some i, ?items, h')"
    using l(3) t(1) by (simp add: scull_c_open_def)
  moreover have "\<exists>j'<length ?items. ?items ! j' = items ! j \<and>
      byte_at h' (li_dev (items ! j)) (gss' ! j') = byte_at h (li_dev (items ! j)) (gss ! j)"
    if "j < length items" "li_key (items ! j) \<noteq> key" for j
  proof -
    have "j \<noteq> i" using that l(2) by auto
    with that t(3) [of j] show ?thesis by (intro exI [of _ j]) auto
  qed
  moreover have "key \<in> li_key ` set items" using l(1,2) nth_mem by blast
  ultimately show ?thesis using t(2) l(1,2) by (intro exI [of _ 0] exI [of _ "Some i"] exI [of _ ?items] exI [of _ h'] exI [of _ gss']) auto
next
  fix x h1 assume l: "key \<notin> li_key ` set items" "li_key x = key" "data (li_dev x) = NULL" "dsize (li_dev x) = 0" "sem (li_dev x) = 1" "dtype (li_dev x) = scull_type_basic"
    "li_addr x \<noteq> NULL" "li_addr x \<notin> allocated h" "h1 = item_block k (li_addr x) h"
    "scull_c_lookfor_device g k key items h = Inr (Some 0, x # items, h1)" "items_ok h1 (x # items) ([] # gss)"
    "\<And>j. j < length items \<Longrightarrow> byte_at h1 (li_dev (items ! j)) (gss ! j) = byte_at h (li_dev (items ! j)) (gss ! j)"
  define d' where "d' = (if fl AND O_ACCMODE = O_WRONLY then (li_dev x)\<lparr>dsize := 0, data := NULL, qset := scull_qset_n g, quantum := scull_quantum g\<rparr> else li_dev x)"
  have t: "open_trim g fl (li_dev x) h1 = Inr (d', h1)" using l(3,6) by (simp add: open_trim_def trim_empty d'_def)
  have "dev_inv h1 d' []" "dtype d' = scull_type_basic"
    using l(6,11) assms(3) by (auto simp: d'_def items_ok_def dev_inv_def params_ok_def globals_ok_def arr_addrs_def blk_addrs_def)
  then have ok: "items_ok h1 (x\<lparr>li_dev := d'\<rparr> # items) ([] # gss)"
    using l(11) by (auto simp: items_ok_def nth_Cons split: nat.splits)
  let ?items = "x\<lparr>li_dev := d'\<rparr> # items"
  have "scull_c_open g k (Some key) fl items h = Inr (0, Some 0, ?items, h1)"
    using l(10) t by (simp add: scull_c_open_def)
  moreover have "\<exists>j'<length ?items. ?items ! j' = items ! j \<and>
      byte_at h1 (li_dev (items ! j)) (([] # gss) ! j') = byte_at h (li_dev (items ! j)) (gss ! j)"
    if "j < length items" for j
    using that l(12) [of j] by (intro exI [of _ "Suc j"]) auto
  moreover have "sem d' = 1" "dsize d' = 0" using l(4,5) by (simp_all add: d'_def)
  ultimately show ?thesis using ok l(1,2,7-9)
    by (intro exI [of _ 0] exI [of _ "Some 0"] exI [of _ ?items] exI [of _ h1] exI [of _ "[] # gss"]) auto
qed (use assms in \<open>auto simp: scull_c_open_def intro!: exI [of _ gss]\<close>)

definition demo_item :: scull_listitem where
  "demo_item = \<lparr>li_addr = 20, li_dev = demo_dev, li_key = 3\<rparr>"

theorem scull_c_open_correct_witness:
  "\<exists>r oi items' h'. scull_c_open demo_globals simple_kernel (Some 7) 1 [demo_item] (item_block simple_kernel 20 demo_heap) = Inr (r, oi, items', h') \<and>
    r = 0 \<and> length items' = 2"
proof -
  have "20 \<notin> allocated demo_heap" by (simp add: demo_heap_def allocated_def fmdom'_alt_def)
  from item_block_same(1) [OF demo_inv this]
  have "items_ok (item_block simple_kernel 20 demo_heap) [demo_item] [demo_nodes]"
    by (simp add: items_ok_def demo_item_def) (simp add: demo_dev_def)
  from scull_c_open_correct [OF simple_kernel_ok this demo_globals_ok, of 7 1] simple_kernel_plenty(1)
  show ?thesis by (auto simp: demo_item_def plenty_def split: if_splits)
qed

end
