(* ===== verification/Scull_Modules.thy ===== *)
theory Scull_Modules
  imports Scull_Access Scull_Pipe
begin

text \<open>
  Loading and unloading: \<open>scull_init\<close> and \<open>scull_exit\<close> of the three modules
  (\<^verbatim>\<open>scull/main.c\<close>, \<^verbatim>\<open>scullc/main.c\<close>,
  \<^verbatim>\<open>scullp/main.c\<close>), the pipe and access-control parts of the first, and
  \<open>scull_open\<close>. What the kernel answers to the registration calls is a parameter. The device
  array is a pointer that may be \<open>NULL\<close> or dangling, so that an unload after a
  failed load shows what it touches.
\<close>

section \<open>State\<close>

datatype 'a array_ptr = Array_null | Array_freed | Array_live 'a

datatype module = M_scull | M_scullc | M_scullp

type_synonym devno = "nat \<times> nat"   \<comment> \<open>\<^verbatim>\<open>dev_t\<close>: major and minor number\<close>

text \<open>The answers of the kernel while a module loads.\<close>

record answers =
  a_region :: int            \<comment> \<open>\<open>register_chrdev_region\<close> or \<open>alloc_chrdev_region\<close>\<close>
  a_dev :: devno             \<comment> \<open>the number that \<open>alloc_chrdev_region\<close> stores when it succeeds\<close>
  a_array :: bool            \<comment> \<open>\<open>kmalloc\<close> of the device array\<close>
  a_cdev :: "nat \<Rightarrow> int"     \<comment> \<open>\<open>cdev_add\<close> for each index\<close>
  a_cache :: bool            \<comment> \<open>\<open>kmem_cache_create\<close>\<close>

record modstate =
  ms_devices :: "scull_dev list array_ptr"
  ms_major :: nat
  ms_minor :: nat
  ms_globals :: scull_globals
  ms_region :: "devno option"   \<comment> \<open>the range the kernel has registered for the module\<close>
  ms_cdevs :: "nat list"        \<comment> \<open>indices with a live \<open>cdev\<close>\<close>
  ms_cache :: bool              \<comment> \<open>the slab cache exists\<close>

definition scull_nr_devs :: nat where "scull_nr_devs = 4"

section \<open>Loading\<close>

definition init_dev :: "module \<Rightarrow> kernel \<Rightarrow> nat \<Rightarrow> scull_globals \<Rightarrow> scull_dev" where
  \<comment> \<open>the body of the loop of \<open>scull_init\<close>, on zeroed memory; \<open>ord\<close> is \<open>scull_order\<close>\<close>
  "init_dev m k ord g = (case m of
      M_scull \<Rightarrow> zero_dev\<lparr>qset := scull_qset_n g, quantum := scull_quantum g, dtype := scull_type_basic, sem := 1\<rparr>
    | M_scullc \<Rightarrow> zero_dev\<lparr>qset := scull_qset_n g, quantum := scull_quantum g, dtype := scull_type_c, sem := 1\<rparr>
    | M_scullp \<Rightarrow> zero_dev\<lparr>qset := scull_qset_n g, quantum := s32 (int (page_size k * 2 ^ ord)),
                          order := ord, dtype := scull_type_p, sem := 1\<rparr>)"

fun setup_cdevs :: "(nat \<Rightarrow> int) \<Rightarrow> nat \<Rightarrow> nat \<Rightarrow> nat list \<times> bool" where
  \<comment> \<open>\<open>scull_setup_cdev\<close> for \<open>n\<close> devices from index \<open>i\<close> on, up to the first failure\<close>
  "setup_cdevs add i 0 = ([], True)"
| "setup_cdevs add i (Suc n) =
     (if add i < 0 then ([], False) else case setup_cdevs add (Suc i) n of (is, b) \<Rightarrow> (i # is, b))"

definition register_region :: "answers \<Rightarrow> modstate \<Rightarrow> int \<times> devno \<times> modstate" where
  \<comment> \<open>the result, the local variable \<open>dev\<close> and the state\<close>
  "register_region a ms =
     (let res = a_region a;
          dev = (if ms_major ms \<noteq> 0 then (ms_major ms, 0) else if res < 0 then (0, 0) else a_dev a);
          ms1 = (if ms_major ms \<noteq> 0 then ms else ms\<lparr>ms_major := fst dev, ms_minor := snd dev\<rparr>)
      in (res, dev, if res < 0 then ms1 else ms1\<lparr>ms_region := Some dev\<rparr>))"

definition unregister_region :: "devno \<Rightarrow> modstate \<Rightarrow> modstate" where
  "unregister_region dev ms = (if ms_region ms = Some dev then ms\<lparr>ms_region := None\<rparr> else ms)"

definition free_devices :: "devno \<Rightarrow> modstate \<Rightarrow> modstate" where
  \<comment> \<open>the labels \<open>fail_cdev\<close> and \<open>fail_malloc\<close>; the pointer keeps its value\<close>
  "free_devices dev ms = unregister_region dev (ms\<lparr>ms_devices := Array_freed\<rparr>)"

definition load_devices :: "module \<Rightarrow> kernel \<Rightarrow> nat \<Rightarrow> answers \<Rightarrow> modstate \<Rightarrow> int \<times> bool \<times> devno \<times> modstate" where
  \<comment> \<open>what the three \<open>scull_init\<close> share; the flag: every device is set up\<close>
  "load_devices m k ord a ms =
     (case register_region a ms of (res, dev, ms1) \<Rightarrow>
        if res < 0 then (res, False, dev, ms1)
        else if \<not> a_array a then (res, False, dev, unregister_region dev (ms1\<lparr>ms_devices := Array_null\<rparr>))
        else case setup_cdevs (a_cdev a) 0 scull_nr_devs of (cs, ok) \<Rightarrow>
          let ms2 = ms1\<lparr>ms_devices := Array_live (replicate scull_nr_devs (init_dev m k ord (ms_globals ms1))),
                        ms_cdevs := cs\<rparr>
          in if ok then (res, True, dev, ms2) else (res, False, dev, free_devices dev ms2))"

definition create_cache :: "answers \<Rightarrow> int \<times> bool \<times> devno \<times> modstate \<Rightarrow> int \<times> modstate" where
  \<comment> \<open>the end of \<open>scull_init\<close> of scullc and scullp\<close>
  "create_cache a r = (case r of (res, ok, dev, ms) \<Rightarrow>
     if \<not> ok then (res, ms)
     else if a_cache a
     then (0, ms\<lparr>ms_cache := True, ms_globals := (ms_globals ms)\<lparr>scull_cache := Some (u64 (scull_quantum (ms_globals ms)))\<rparr>\<rparr>)
     else (res, free_devices dev (ms\<lparr>ms_globals := (ms_globals ms)\<lparr>scull_cache := None\<rparr>\<rparr>)))"

definition scullc_init :: "kernel \<Rightarrow> answers \<Rightarrow> modstate \<Rightarrow> int \<times> modstate" where
  "scullc_init k a ms = create_cache a (load_devices M_scullc k 0 a ms)"

definition scullp_init :: "kernel \<Rightarrow> nat \<Rightarrow> answers \<Rightarrow> modstate \<Rightarrow> int \<times> modstate" where
  "scullp_init k scull_order a ms = create_cache a (load_devices M_scullp k scull_order a ms)"

definition scull_open :: "scull_globals \<Rightarrow> 32 word \<Rightarrow> scull_dev \<Rightarrow> heap \<Rightarrow> (int \<times> scull_dev \<times> heap) res" where
  "scull_open g fl d h = bindE (open_trim g fl d h) (\<lambda>(d', h'). Inr (0, d', h'))"

definition scull_release :: int where "scull_release = 0"

section \<open>Unloading\<close>

fun trim_all :: "scull_globals \<Rightarrow> scull_dev list \<Rightarrow> heap \<Rightarrow> heap res" where
  "trim_all g [] h = Inr h"
| "trim_all g (d # ds) h = bindE (scull_trim g d h) (\<lambda>(d', h'). trim_all g ds h')"

definition unload_devices :: "modstate \<Rightarrow> heap \<Rightarrow> (modstate \<times> heap) res" where
  \<comment> \<open>what the three \<open>scull_exit\<close> share: trim and delete each device, give back the numbers, free the array\<close>
  "unload_devices ms h =
     (case ms_devices ms of
        Array_null \<Rightarrow> Inl Null_deref
      | Array_freed \<Rightarrow> Inl Bad_access
      | Array_live ds \<Rightarrow>
          bindE (trim_all (ms_globals ms) ds h) (\<lambda>h'.
            Inr (unregister_region (ms_major ms, ms_minor ms) (ms\<lparr>ms_devices := Array_freed, ms_cdevs := []\<rparr>), h')))"

definition scullc_exit :: "modstate \<Rightarrow> heap \<Rightarrow> (modstate \<times> heap) res" where
  "scullc_exit ms h = bindE (unload_devices ms h) (\<lambda>(ms', h').
     Inr (if scull_cache (ms_globals ms') \<noteq> None then ms'\<lparr>ms_cache := False\<rparr> else ms', h'))"

definition scullp_exit :: "modstate \<Rightarrow> heap \<Rightarrow> (modstate \<times> heap) res" where
  "scullp_exit ms h = bindE (unload_devices ms h) (\<lambda>(ms', h').
     Inr (if scull_cache (ms_globals ms') \<noteq> None then ms'\<lparr>ms_cache := False\<rparr> else ms', h'))"

section \<open>The pipe devices\<close>

record pipe_mod =
  pm_devices :: "scull_pipe list array_ptr"
  pm_devno :: devno
  pm_region :: "devno option"
  pm_cdevs :: "nat list"

definition SCULL_P_NR_DEVS :: nat where "SCULL_P_NR_DEVS = 4"
definition SCULL_P_BUFFER :: int where "SCULL_P_BUFFER = 1000"

definition init_pipe :: "int \<Rightarrow> scull_pipe" where
  "init_pipe bufsz = \<lparr>p_buffer = NULL, p_end = NULL, p_buffersize = bufsz, p_rp = NULL, p_wp = NULL,
     p_nreaders = 0, p_nwriters = 0, p_async = False, p_sem = 1\<rparr>"

definition unregister_pipes :: "devno \<Rightarrow> pipe_mod \<Rightarrow> pipe_mod" where
  "unregister_pipes dev pm = (if pm_region pm = Some dev then pm\<lparr>pm_region := None\<rparr> else pm)"

definition scull_p_init :: "int \<Rightarrow> answers \<Rightarrow> pipe_mod \<Rightarrow> int \<times> pipe_mod" where
  "scull_p_init bufsz a pm =
     (let res = a_region a; dev = a_dev a in
      if res < 0 then (res, pm)
      else let pm1 = pm\<lparr>pm_devno := dev, pm_region := Some dev\<rparr> in
      if \<not> a_array a then (res, unregister_pipes dev (pm1\<lparr>pm_devices := Array_null\<rparr>))
      else case setup_cdevs (a_cdev a) 0 SCULL_P_NR_DEVS of (cs, ok) \<Rightarrow>
        if \<not> ok then (res, unregister_pipes dev (pm1\<lparr>pm_devices := Array_freed, pm_cdevs := cs\<rparr>))
        else (0, pm1\<lparr>pm_devices := Array_live (replicate SCULL_P_NR_DEVS (init_pipe bufsz)), pm_cdevs := cs\<rparr>))"

fun free_buffers :: "scull_pipe list \<Rightarrow> heap \<Rightarrow> heap res" where
  "free_buffers [] h = Inr h"
| "free_buffers (d # ds) h =
     bindE (if p_buffer d \<noteq> NULL then free_blk By_kmalloc h (p_buffer d) else Inr h) (free_buffers ds)"

definition scull_p_cleanup :: "pipe_mod \<Rightarrow> heap \<Rightarrow> (pipe_mod \<times> heap) res" where
  "scull_p_cleanup pm h =
     (case pm_devices pm of
        Array_null \<Rightarrow> Inl Null_deref
      | Array_freed \<Rightarrow> Inl Bad_access
      | Array_live ds \<Rightarrow>
          bindE (free_buffers ds h) (\<lambda>h'.
            Inr (unregister_pipes (pm_devno pm) (pm\<lparr>pm_devices := Array_null, pm_cdevs := []\<rparr>), h')))"

section \<open>The access-control devices\<close>

text \<open>
  An entry of \<open>scull_adev_infos\<close> with its number in \<open>scull_access_devno\<close>; the devices are
  static, so they exist before the module is set up.
\<close>

record access_dev =
  ad_dev :: scull_dev
  ad_devno :: devno
  ad_region :: bool     \<comment> \<open>its number is registered\<close>
  ad_cdev :: bool       \<comment> \<open>its \<open>cdev\<close> is live\<close>

record access_mod =
  am_devs :: "access_dev list"
  am_items :: "scull_listitem list"

record access_answers =
  aa_region :: "nat \<Rightarrow> int"
  aa_dev :: "nat \<Rightarrow> devno"
  aa_cdev :: "nat \<Rightarrow> int"

fun access_init_loop :: "access_answers \<Rightarrow> scull_globals \<Rightarrow> nat \<Rightarrow> access_dev list \<Rightarrow> int \<times> access_dev list" where
  \<comment> \<open>the devices after a failure are not set up; the result of \<open>scull_access_setup_cdev\<close> is ignored\<close>
  "access_init_loop aa g i [] = (0, [])"
| "access_init_loop aa g i (x # xs) =
     (if aa_region aa i < 0 then (aa_region aa i, x # xs)
      else let d = (ad_dev x)\<lparr>qset := scull_qset_n g, quantum := scull_quantum g, data := NULL,
                              dtype := scull_type_basic, sem := 1\<rparr>;
               x' = x\<lparr>ad_dev := d, ad_devno := aa_dev aa i, ad_region := True, ad_cdev := 0 \<le> aa_cdev aa i\<rparr>
      in case access_init_loop aa g (Suc i) xs of (r, xs') \<Rightarrow> (r, x' # xs'))"

definition scull_access_init :: "access_answers \<Rightarrow> scull_globals \<Rightarrow> access_mod \<Rightarrow> int \<times> access_mod" where
  "scull_access_init aa g am =
     (case access_init_loop aa g 0 (am_devs am) of (r, xs) \<Rightarrow> (r, am\<lparr>am_devs := xs\<rparr>))"

fun access_cleanup_loop :: "scull_globals \<Rightarrow> access_dev list \<Rightarrow> heap \<Rightarrow> (access_dev list \<times> heap) res" where
  "access_cleanup_loop g [] h = Inr ([], h)"
| "access_cleanup_loop g (x # xs) h =
     bindE (scull_trim g (ad_dev x) h) (\<lambda>(d, h1).
     bindE (access_cleanup_loop g xs h1) (\<lambda>(xs', h2).
       Inr (x\<lparr>ad_dev := d, ad_cdev := False, ad_region := False\<rparr> # xs', h2)))"

fun trim_items :: "scull_globals \<Rightarrow> scull_listitem list \<Rightarrow> heap \<Rightarrow> (scull_listitem list \<times> heap) res" where
  "trim_items g [] h = Inr ([], h)"
| "trim_items g (x # xs) h =
     bindE (scull_trim g (li_dev x) h) (\<lambda>(d, h1).
     bindE (trim_items g xs h1) (\<lambda>(xs', h2). Inr (x\<lparr>li_dev := d\<rparr> # xs', h2)))"

definition scull_access_cleanup :: "scull_globals \<Rightarrow> access_mod \<Rightarrow> heap \<Rightarrow> (access_mod \<times> heap) res" where
  \<comment> \<open>the items of \<open>scull_c_list\<close> are trimmed and stay allocated\<close>
  "scull_access_cleanup g am h =
     bindE (access_cleanup_loop g (am_devs am) h) (\<lambda>(xs, h1).
     bindE (trim_items g (am_items am) h1) (\<lambda>(is, h2).
       Inr (am\<lparr>am_devs := xs, am_items := is\<rparr>, h2)))"

section \<open>The whole of scull\<close>

record scull_module =
  sm_base :: modstate
  sm_pipe :: pipe_mod
  sm_access :: access_mod

definition scull_init :: "kernel \<Rightarrow> answers \<Rightarrow> answers \<Rightarrow> access_answers \<Rightarrow> scull_module \<Rightarrow> int \<times> scull_module" where
  \<comment> \<open>the results of \<open>scull_p_init\<close> and \<open>scull_access_init\<close> are ignored\<close>
  "scull_init k a ap aa st =
     (case load_devices M_scull k 0 a (sm_base st) of (res, ok, dev, ms) \<Rightarrow>
        if \<not> ok then (res, st\<lparr>sm_base := ms\<rparr>)
        else (0, \<lparr>sm_base = ms, sm_pipe = snd (scull_p_init SCULL_P_BUFFER ap (sm_pipe st)),
                  sm_access = snd (scull_access_init aa (ms_globals ms) (sm_access st))\<rparr>))"

definition scull_exit :: "scull_module \<Rightarrow> heap \<Rightarrow> (scull_module \<times> heap) res" where
  "scull_exit st h =
     bindE (unload_devices (sm_base st) h) (\<lambda>(ms, h1).
     bindE (scull_p_cleanup (sm_pipe st) h1) (\<lambda>(pm, h2).
     bindE (scull_access_cleanup (ms_globals ms) (sm_access st) h2) (\<lambda>(am, h3).
       Inr (\<lparr>sm_base = ms, sm_pipe = pm, sm_access = am\<rparr>, h3))))"

section \<open>All devices of a module at work\<close>

fun run_module ::
  "kernel \<Rightarrow> scull_globals \<Rightarrow> (nat \<times> access) list \<Rightarrow> scull_dev list \<times> heap \<Rightarrow> (scull_dev list \<times> heap) res" where
  "run_module k g [] s = Inr s"
| "run_module k g ((i, a) # as) (ds, h) =
     bindE (access_step k g a (ds ! i, h)) (\<lambda>(d', h'). run_module k g as (ds[i := d'], h'))"

definition module_accesses_ok :: "scull_dev list \<Rightarrow> (nat \<times> access) list \<Rightarrow> bool" where
  "module_accesses_ok ds as \<longleftrightarrow>
     list_all (\<lambda>(i, a). i < length ds \<and> 0 \<le> access_pos a \<and>
        access_pos a < 2 ^ 31 * (quantum (ds ! i) * qset (ds ! i)) \<and>
        access_pos a + int (access_count a) < 2 ^ 63) as \<and>
     list_all (\<lambda>d. 0 \<le> dsize d \<and> dsize d + int (sum_list (map (access_count \<circ> snd) as)) < 2 ^ 63) ds"

text \<open>Devices with separate memory.\<close>

definition devs_ok :: "kernel \<Rightarrow> scull_globals \<Rightarrow> heap \<Rightarrow> scull_dev list \<Rightarrow> gnode list list \<Rightarrow> bool" where
  "devs_ok k g h ds gss \<longleftrightarrow>
     length gss = length ds \<and>
     (\<forall>i<length ds. dev_inv h (ds ! i) (gss ! i) \<and> alloc_fits k g (ds ! i)) \<and>
     (\<forall>i<length ds. \<forall>j<length ds. i \<noteq> j \<longrightarrow> footprint (gss ! i) \<inter> footprint (gss ! j) = {})"

text \<open>The state before a module is loaded: the initial values of the file-scope variables.\<close>

definition modstate_init :: modstate where
  "modstate_init = \<lparr>ms_devices = Array_null, ms_major = 0, ms_minor = 0, ms_globals = scull_globals_init,
     ms_region = None, ms_cdevs = [], ms_cache = False\<rparr>"

definition scull_module_init :: scull_module where
  "scull_module_init = \<lparr>sm_base = modstate_init,
     sm_pipe = \<lparr>pm_devices = Array_null, pm_devno = (0, 0), pm_region = None, pm_cdevs = []\<rparr>,
     sm_access = \<lparr>am_devs = replicate 4 \<lparr>ad_dev = zero_dev, ad_devno = (0, 0), ad_region = False, ad_cdev = False\<rparr>,
                  am_items = []\<rparr>\<rparr>"

text \<open>
  A loaded module whose \<open>ext\<close> undoes everything: whatever the devices are asked to read and
  write, unloading succeeds, gives back the numbers, the \<open>cdev\<close>s and the cache, and leaves
  the heap as it was before.
\<close>

definition unloads_clean ::
  "kernel \<Rightarrow> (modstate \<Rightarrow> heap \<Rightarrow> (modstate \<times> heap) res) \<Rightarrow> scull_dev list \<Rightarrow> modstate \<Rightarrow> bool" where
  "unloads_clean k ext ds ms \<longleftrightarrow>
     ms_devices ms = Array_live ds \<and>
     (\<forall>h as. module_accesses_ok ds as \<longrightarrow>
       (\<exists>ds' h' ms'. run_module k (ms_globals ms) as (ds, h) = Inr (ds', h') \<and>
          ext (ms\<lparr>ms_devices := Array_live ds'\<rparr>) h' = Inr (ms', h) \<and>
          ms_region ms' = None \<and> ms_cdevs ms' = [] \<and> \<not> ms_cache ms'))"

text \<open>The memory of the pipes, and the devices of scull taken together.\<close>

definition bufs :: "scull_pipe list \<Rightarrow> addr list" where
  "bufs ps = filter (\<lambda>p. p \<noteq> NULL) (map p_buffer ps)"

definition pipes_own :: "heap \<Rightarrow> scull_pipe list \<Rightarrow> bool" where
  "pipes_own h ps \<longleftrightarrow> distinct (bufs ps) \<and> list_all (\<lambda>b. \<exists>bs. fmlookup (hp_blk h) b = Some (By_kmalloc, bs)) (bufs ps)"

definition without_bufs :: "heap \<Rightarrow> addr list \<Rightarrow> heap" where
  "without_bufs h bs = h\<lparr>hp_blk := fmdrop_set (set bs) (hp_blk h)\<rparr>"

definition module_devices :: "scull_module \<Rightarrow> scull_dev list" where
  "module_devices st =
     (case ms_devices (sm_base st) of Array_live ds \<Rightarrow> ds | _ \<Rightarrow> []) @
     map ad_dev (am_devs (sm_access st)) @ map li_dev (am_items (sm_access st))"

definition put_module_devices :: "scull_dev list \<Rightarrow> scull_module \<Rightarrow> scull_module" where
  \<comment> \<open>the devices of the array and the static ones\<close>
  "put_module_devices ds st =
     st\<lparr>sm_base := (sm_base st)\<lparr>ms_devices := Array_live (take scull_nr_devs ds)\<rparr>,
        sm_access := (sm_access st)\<lparr>am_devs :=
          map2 (\<lambda>x d. x\<lparr>ad_dev := d\<rparr>) (am_devs (sm_access st)) (drop scull_nr_devs ds)\<rparr>\<rparr>"

definition all_registered :: "access_answers \<Rightarrow> bool" where
  "all_registered aa \<longleftrightarrow> (\<forall>i. i < 4 \<longrightarrow> 0 \<le> aa_region aa i)"

definition cached :: "module \<Rightarrow> scull_globals \<Rightarrow> scull_globals" where
  "cached m g = (if m = M_scull then g else g\<lparr>scull_cache := Some (u64 (scull_quantum g))\<rparr>)"

definition devices_granted :: "answers \<Rightarrow> bool" where
  "devices_granted a \<longleftrightarrow> 0 \<le> a_region a \<and> a_array a \<and> (\<forall>i. i < scull_nr_devs \<longrightarrow> 0 \<le> a_cdev a i)"

definition answers_good :: "answers \<Rightarrow> bool" where
  "answers_good a \<longleftrightarrow> devices_granted a \<and> a_cache a"

definition module_params_ok :: "module \<Rightarrow> kernel \<Rightarrow> nat \<Rightarrow> scull_globals \<Rightarrow> bool" where
  "module_params_ok m k ord g \<longleftrightarrow>
     globals_ok g \<and> (m = M_scullp \<longrightarrow> 0 < page_size k \<and> int (page_size k * 2 ^ ord) * scull_qset_n g < 2 ^ 31)"

section \<open>Freeing everything\<close>

lemma without_without: "without (without h as) bs = without h (as @ bs)"
  by (rule heap.equality) (auto intro!: fmap_ext simp: set_addrs)

lemma without_cong: "set as = set bs \<Longrightarrow> without h as = without h bs"
  by (rule heap.equality) (auto intro!: fmap_ext simp: set_addrs)

lemma devs_ok_tail:
  assumes "devs_ok k g h (d # ds) (gs # gss)"
  shows "dev_inv h d gs" "alloc_fits k g d" "devs_ok k g (without h gs) ds gss"
proof -
  have all: "dev_inv h ((d # ds) ! i) ((gs # gss) ! i) \<and> alloc_fits k g ((d # ds) ! i)" if "i < Suc (length ds)" for i
    using assms that by (auto simp: devs_ok_def)
  have dj: "footprint ((gs # gss) ! i) \<inter> footprint ((gs # gss) ! j) = {}"
    if "i < Suc (length ds)" "j < Suc (length ds)" "i \<noteq> j" for i j
    using assms that by (auto simp: devs_ok_def)
  show "dev_inv h d gs" "alloc_fits k g d" using all [of 0] by simp_all
  have "dev_inv (without h gs) (ds ! i) (gss ! i)" "alloc_fits k g (ds ! i)" if "i < length ds" for i
    using all [of "Suc i"] dj [of "Suc i" 0] that without_other(1) [of h "ds ! i" "gss ! i" gs] by simp_all
  moreover have "footprint (gss ! i) \<inter> footprint (gss ! j) = {}" if "i < length ds" "j < length ds" "i \<noteq> j" for i j
    using dj [of "Suc i" "Suc j"] that by simp
  ultimately show "devs_ok k g (without h gs) ds gss" using assms by (simp add: devs_ok_def)
qed

lemma trim_all_ok: "devs_ok k g h ds gss \<Longrightarrow> trim_all g ds h = Inr (without h (concat gss))"
proof (induction ds arbitrary: h gss)
  case Nil
  then show ?case by (simp add: devs_ok_def)
next
  case (Cons d ds)
  then obtain gs gss' where gss: "gss = gs # gss'" by (cases gss) (simp_all add: devs_ok_def)
  note t = devs_ok_tail [OF Cons.prems [unfolded gss]]
  from scull_trim_ok [OF t(1) alloc_fits_cache [OF t(2)]] Cons.IH [OF t(3)] show ?case
    by (simp add: gss without_without)
qed

text \<open>One device changes, within memory that is its own or was free.\<close>

lemma devs_ok_update:
  assumes ok: "devs_ok k g h ds gss" and i: "i < length ds"
    and new: "dev_inv h' d' gs'" "alloc_fits k g d'" "without h' gs' = without h (gss ! i)"
    and other: "\<And>j. j < length ds \<Longrightarrow> j \<noteq> i \<Longrightarrow> dev_inv h' (ds ! j) (gss ! j) \<and> footprint (gss ! j) \<inter> footprint gs' = {}"
  shows "devs_ok k g h' (ds[i := d']) (gss[i := gs'])"
    and "without h' (concat (gss[i := gs'])) = without h (concat gss)"
proof -
  have len: "length gss = length ds" using ok by (simp add: devs_ok_def)
  show "devs_ok k g h' (ds[i := d']) (gss[i := gs'])"
    using ok i len other new by (auto simp: devs_ok_def nth_list_update Int_commute)
  let ?gss = "gss[i := gs']" and ?rest = "concat (take i gss) @ concat (drop (Suc i) gss)"
  have "gss = take i gss @ gss ! i # drop (Suc i) gss" using i len by (intro id_take_nth_drop) simp
  from arg_cong [OF this, of concat]
  have 1: "concat gss = concat (take i gss) @ gss ! i @ concat (drop (Suc i) gss)"
    by (simp only: concat_append concat.simps)
  have 2: "concat ?gss = concat (take i gss) @ gs' @ concat (drop (Suc i) gss)"
    using i len by (simp add: upd_conv_take_nth_drop)
  have "set (concat gss) = set ((gss ! i) @ ?rest)" "set (concat ?gss) = set (gs' @ ?rest)"
    unfolding 1 2 set_append by blast+
  then show "without h' (concat ?gss) = without h (concat gss)"
    using without_cong [of "concat gss" "gss ! i @ ?rest" h] without_cong [of "concat ?gss" "gs' @ ?rest" h'] new(3)
    by (simp only: without_without [symmetric])
qed

lemma module_step:
  assumes k: "kernel_ok k" and ok: "devs_ok k g h ds gss" and acc: "module_accesses_ok ds ((i, a) # as)"
  obtains d' h' gss' where "access_step k g a (ds ! i, h) = Inr (d', h')" "devs_ok k g h' (ds[i := d']) gss'"
    "without h' (concat gss') = without h (concat gss)" "module_accesses_ok (ds[i := d']) as"
proof -
  have i: "i < length ds" and len: "length gss = length ds" using ok acc by (simp_all add: devs_ok_def module_accesses_ok_def)
  have inv: "dev_inv h (ds ! i) (gss ! i)" "alloc_fits k g (ds ! i)" using ok i by (simp_all add: devs_ok_def)
  have bound: "0 \<le> dsize (ds ! j)" "dsize (ds ! j) + int (access_count a + sum_list (map (access_count \<circ> snd) as)) < 2 ^ 63"
    if "j < length ds" for j
    using acc that by (simp_all add: module_accesses_ok_def list_all_length)
  have "in_range (ds ! i) (access_pos a) (access_count a)"
    using acc bound [OF i] by (simp add: module_accesses_ok_def in_range_def)
  then obtain d' h' gs' where st: "access_step k g a (ds ! i, h) = Inr (d', h')" "dev_inv h' d' gs'"
    "same_shape (ds ! i) d'" "sem d' = sem (ds ! i)" "framed h (gss ! i) h' gs'"
    "dsize (ds ! i) \<le> dsize d'" "dsize d' \<le> dsize (ds ! i) + int (access_count a)"
    by (rule access_step_ok [OF k inv])
  let ?ds = "ds[i := d']" and ?gss = "gss[i := gs']"
  have "dev_inv h' (ds ! j) (gss ! j) \<and> footprint (gss ! j) \<inter> footprint gs' = {}" if "j < length ds" "j \<noteq> i" for j
    using framed_other [OF st(5), of "ds ! j" "gss ! j"] ok that i by (simp add: devs_ok_def)
  moreover have "alloc_fits k g d'" using inv(2) same_shape_accesses [OF st(3)] by simp
  ultimately have "devs_ok k g h' ?ds ?gss" "without h' (concat ?gss) = without h (concat gss)"
    using devs_ok_update [OF ok i st(2) _ without_framed [OF st(5)]] by simp_all
  moreover have "module_accesses_ok ?ds as"
  proof -
    have "0 \<le> dsize (?ds ! j) \<and> dsize (?ds ! j) + int (sum_list (map (access_count \<circ> snd) as)) < 2 ^ 63"
      if "j < length ds" for j
      using bound [OF that] bound [OF i] st(6,7) i by (cases "j = i") simp_all
    moreover have "quantum (?ds ! j) = quantum (ds ! j)" "qset (?ds ! j) = qset (ds ! j)" for j
      using st(3) i by (cases "j = i"; simp add: same_shape_def)+
    ultimately show ?thesis
      using acc by (simp add: module_accesses_ok_def list_all_length [of _ ?ds])
  qed
  ultimately show thesis using st(1) by (intro that)
qed


lemma run_module_ok:
  assumes "kernel_ok k" and "devs_ok k g h ds gss" and "module_accesses_ok ds as"
  shows "\<exists>ds' h' gss'. run_module k g as (ds, h) = Inr (ds', h') \<and> devs_ok k g h' ds' gss' \<and>
    without h' (concat gss') = without h (concat gss)"
  using assms(2-)
proof (induction as arbitrary: ds h gss)
  case Nil
  then show ?case by auto
next
  case (Cons x as)
  obtain i a where x: "x = (i, a)" by (cases x)
  obtain d' h' gss' where "access_step k g a (ds ! i, h) = Inr (d', h')" "devs_ok k g h' (ds[i := d']) gss'"
    "without h' (concat gss') = without h (concat gss)" "module_accesses_ok (ds[i := d']) as"
    by (rule module_step [OF assms(1) Cons.prems(1) Cons.prems(2) [unfolded x]])
  with Cons.IH [of h' "ds[i := d']" gss'] x show ?case by fastforce
qed

section \<open>Loading\<close>

lemma setup_cdevs_all: "(\<forall>j. i \<le> j \<and> j < i + n \<longrightarrow> 0 \<le> add j) \<Longrightarrow> setup_cdevs add i n = ([i ..< i + n], True)"
  by (induction n arbitrary: i) (auto simp: upt_conv_Cons)

lemma setup_cdevs_fails: "\<exists>j. i \<le> j \<and> j < i + n \<and> add j < 0 \<Longrightarrow> \<exists>cs. setup_cdevs add i n = (cs, False)"
proof (induction n arbitrary: i)
  case (Suc n)
  show ?case
  proof (cases "add i < 0")
    case False
    with Suc.prems obtain j where "i \<le> j" "j < i + Suc n" "add j < 0" "j \<noteq> i" by auto
    then have "\<exists>j. Suc i \<le> j \<and> j < Suc i + n \<and> add j < 0" by (intro exI [of _ j]) auto
    from Suc.IH [OF this] False show ?thesis by auto
  qed simp
qed auto

lemma init_dev_ok:
  assumes "module_params_ok m k ord g"
  shows "dev_inv h (init_dev m k ord g) []"
    and "alloc_fits k (cached m g) (init_dev m k ord g)"
proof -
  have g: "0 < scull_quantum g" "0 < scull_qset_n g" "scull_quantum g * scull_qset_n g < 2 ^ 31"
    using assms by (simp_all add: module_params_ok_def globals_ok_def)
  have "scull_quantum g * 1 \<le> scull_quantum g * scull_qset_n g" using g(1,2) by (intro mult_left_mono) simp_all
  then have "scull_quantum g < 2 ^ 31" using g(3) by simp
  then have u: "u64 (scull_quantum g) = nat (scull_quantum g)" using g(1) by (intro u64_id) simp_all
  have p: "s32 (int (page_size k * 2 ^ ord)) = int (page_size k * 2 ^ ord)" "0 < page_size k"
    "int (page_size k * 2 ^ ord) * scull_qset_n g < 2 ^ 31" if "m = M_scullp"
  proof -
    let ?q = "int (page_size k * 2 ^ ord)"
    show q: "?q * scull_qset_n g < 2 ^ 31" and "0 < page_size k" using assms that by (simp_all add: module_params_ok_def)
    have "?q * 1 \<le> ?q * scull_qset_n g" using g(2) by (intro mult_left_mono) simp_all
    moreover have "0 \<le> ?q" by (rule of_nat_0_le_iff)
    ultimately show "s32 ?q = ?q" using q by (intro s32_id) linarith+
  qed
  show "dev_inv h (init_dev m k ord g) []"
    using g p by (cases m) (simp_all add: init_dev_def zero_dev_def dev_inv_def params_ok_def arr_addrs_def blk_addrs_def)
  show "alloc_fits k (cached m g) (init_dev m k ord g)"
    using g p u by (cases m) (simp_all add: init_dev_def zero_dev_def alloc_fits_def cached_def)
qed

lemma load_devices_good:
  assumes "devices_granted a"
  obtains ma mi where "load_devices m k ord a modstate_init = (a_region a, True, (ma, mi),
    modstate_init\<lparr>ms_devices := Array_live (replicate scull_nr_devs (init_dev m k ord scull_globals_init)),
      ms_major := ma, ms_minor := mi, ms_region := Some (ma, mi), ms_cdevs := [0 ..< scull_nr_devs]\<rparr>)"
proof -
  have "setup_cdevs (a_cdev a) 0 scull_nr_devs = ([0 ..< scull_nr_devs], True)"
    using assms setup_cdevs_all [of 0 scull_nr_devs "a_cdev a"] by (simp add: devices_granted_def)
  with assms show thesis
    by (intro that [of "fst (a_dev a)" "snd (a_dev a)"])
      (simp add: load_devices_def register_region_def modstate_init_def devices_granted_def Let_def)
qed

lemma fresh_devs_ok:
  assumes "module_params_ok m k ord g"
  shows "devs_ok k (cached m g) h (replicate n (init_dev m k ord g)) (replicate n [])"
  using init_dev_ok [OF assms] by (simp add: devs_ok_def footprint_def arr_addrs_def blk_addrs_def)

lemma cached_lifecycle:
  assumes k: "kernel_ok k" and a: "answers_good a" and p: "module_params_ok m k ord scull_globals_init"
    and m: "m \<noteq> M_scull"
    and ext: "\<And>ms h. ext ms h = bindE (unload_devices ms h) (\<lambda>(ms', h').
     Inr (if scull_cache (ms_globals ms') \<noteq> None then ms'\<lparr>ms_cache := False\<rparr> else ms', h'))"
  shows "\<exists>ms. create_cache a (load_devices m k ord a modstate_init) = (0, ms) \<and> ms_cache ms \<and>
    unloads_clean k ext (replicate scull_nr_devs (init_dev m k ord scull_globals_init)) ms"
proof -
  let ?g = "scull_globals_init" and ?ds = "replicate scull_nr_devs (init_dev m k ord scull_globals_init)"
  obtain ma mi where l: "load_devices m k ord a modstate_init = (a_region a, True, (ma, mi),
    modstate_init\<lparr>ms_devices := Array_live ?ds,
      ms_major := ma, ms_minor := mi, ms_region := Some (ma, mi), ms_cdevs := [0 ..< scull_nr_devs]\<rparr>)"
    by (rule load_devices_good [OF a [unfolded answers_good_def, THEN conjunct1]])
  let ?ms = "modstate_init\<lparr>ms_devices := Array_live ?ds, ms_major := ma, ms_minor := mi, ms_globals := cached m ?g,
    ms_region := Some (ma, mi), ms_cdevs := [0 ..< scull_nr_devs], ms_cache := True\<rparr>"
  have "create_cache a (load_devices m k ord a modstate_init) = (0, ?ms)"
    unfolding l using a m by (simp add: create_cache_def answers_good_def cached_def modstate_init_def)
  moreover have "unloads_clean k ext ?ds ?ms"
    unfolding unloads_clean_def
  proof (intro conjI allI impI)
    fix h as assume acc: "module_accesses_ok ?ds as"
    show "\<exists>ds' h' ms'. run_module k (ms_globals ?ms) as (?ds, h) = Inr (ds', h') \<and>
            ext (?ms\<lparr>ms_devices := Array_live ds'\<rparr>) h' = Inr (ms', h) \<and>
            ms_region ms' = None \<and> ms_cdevs ms' = [] \<and> \<not> ms_cache ms'"
    proof -
      obtain ds' h' gss' where r: "run_module k (cached m ?g) as (?ds, h) = Inr (ds', h')"
        "devs_ok k (cached m ?g) h' ds' gss'" "without h' (concat gss') = without h (concat (replicate scull_nr_devs []))"
        using run_module_ok [OF k fresh_devs_ok [OF p] acc] by blast
      then have "trim_all (cached m ?g) ds' h' = Inr h" using trim_all_ok [OF r(2)] by simp
      with r(1) m show ?thesis by (auto simp: ext unload_devices_def unregister_region_def cached_def)
    qed
  qed simp_all
  ultimately show ?thesis by (intro exI [of _ ?ms]) simp
qed

section \<open>Unloading all of scull\<close>

lemma footprint_append: "footprint (as @ bs) = footprint as \<union> footprint bs"
  by (auto simp: footprint_def arr_addrs_def blk_addrs_def)

lemma footprint_concat: "footprint (concat gss) = (\<Union>gs\<in>set gss. footprint gs)"
proof (induction gss)
  case Nil
  show ?case by (simp add: footprint_def arr_addrs_def blk_addrs_def)
next
  case (Cons gs gss)
  then show ?case by (simp add: footprint_append)
qed

lemma devs_ok_same:
  assumes "devs_ok k g h ds gss"
    and "\<And>a. a \<in> footprint (concat gss) \<Longrightarrow> fmlookup (hp_qset h') a = fmlookup (hp_qset h) a"
    and "\<And>a. a \<in> footprint (concat gss) \<Longrightarrow> fmlookup (hp_ptrs h') a = fmlookup (hp_ptrs h) a"
    and "\<And>a. a \<in> footprint (concat gss) \<Longrightarrow> fmlookup (hp_blk h') a = fmlookup (hp_blk h) a"
  shows "devs_ok k g h' ds gss"
proof -
  have "dev_inv h' (ds ! i) (gss ! i)" if "i < length ds" for i
  proof -
    have inv: "dev_inv h (ds ! i) (gss ! i)" and "gss ! i \<in> set gss" using assms(1) that by (simp_all add: devs_ok_def)
    then have "footprint (gss ! i) \<subseteq> footprint (concat gss)" unfolding footprint_concat by blast
    then show ?thesis by (intro same_memory(1) [OF inv] assms(2-4)) (erule (1) subsetD)+
  qed
  with assms(1) show ?thesis by (simp add: devs_ok_def)
qed

lemma devs_ok_without:
  assumes "devs_ok k g h ds gss" and "footprint gs \<inter> footprint (concat gss) = {}"
  shows "devs_ok k g (without h gs) ds gss"
proof (rule devs_ok_same [OF assms(1)])
  fix a assume "a \<in> footprint (concat gss)"
  with assms(2) have "a \<notin> footprint gs" by blast
  then show "fmlookup (hp_qset (without h gs)) a = fmlookup (hp_qset h) a"
    "fmlookup (hp_ptrs (without h gs)) a = fmlookup (hp_ptrs h) a"
    "fmlookup (hp_blk (without h gs)) a = fmlookup (hp_blk h) a"
    by (simp_all add: footprint_def)
qed

lemma devs_ok_append:
  assumes "devs_ok k g h (ds @ es) gss"
  obtains as bs where "gss = as @ bs" "devs_ok k g h ds as" "devs_ok k g (without h (concat as)) es bs"
proof -
  let ?n = "length ds" let ?as = "take ?n gss" and ?bs = "drop ?n gss"
  have l: "length gss = ?n + length es" using assms by (simp add: devs_ok_def)
  have inv: "dev_inv h ((ds @ es) ! i) (gss ! i) \<and> alloc_fits k g ((ds @ es) ! i)" if "i < ?n + length es" for i
    using assms that by (simp add: devs_ok_def)
  have dj: "footprint (gss ! i) \<inter> footprint (gss ! j) = {}" if "i < ?n + length es" "j < ?n + length es" "i \<noteq> j" for i j
    using assms that by (simp add: devs_ok_def)
  have inv_l: "dev_inv h (ds ! i) (gss ! i) \<and> alloc_fits k g (ds ! i)" if "i < ?n" for i
    using inv [of i] that by (simp add: nth_append)
  have inv_r: "dev_inv h (es ! i) (gss ! (?n + i)) \<and> alloc_fits k g (es ! i)" if "i < length es" for i
    using inv [of "?n + i"] that by (simp add: nth_append)
  have a: "devs_ok k g h ds ?as" using l inv_l dj by (simp add: devs_ok_def)
  have b: "devs_ok k g h es ?bs" using l inv_r dj by (simp add: devs_ok_def)
  have "footprint x \<inter> footprint y = {}" if x: "x \<in> set ?as" and y: "y \<in> set ?bs" for x y
  proof -
    from x obtain i where "i < ?n" "x = gss ! i" using l by (auto simp: in_set_conv_nth)
    moreover from y obtain j where "j < length es" "y = gss ! (?n + j)" using l by (auto simp: in_set_conv_nth)
    ultimately show ?thesis using dj [of i "?n + j"] by simp
  qed
  then have "footprint (concat ?as) \<inter> footprint (concat ?bs) = {}" unfolding footprint_concat by blast
  from that [OF _ a devs_ok_without [OF b this]] show thesis by simp
qed

lemma trim_all_append: "trim_all g (ds @ es) h = bindE (trim_all g ds h) (trim_all g es)"
proof (induction ds arbitrary: h)
  case (Cons d ds)
  then show ?case by (cases "scull_trim g d h") auto
qed simp

lemma access_cleanup_trims:
  "trim_all g (map ad_dev xs) h = Inr h' \<Longrightarrow>
   \<exists>xs'. access_cleanup_loop g xs h = Inr (xs', h') \<and> list_all (\<lambda>x. \<not> ad_region x \<and> \<not> ad_cdev x) xs'"
  by (induction xs arbitrary: h) fastforce+

lemma trim_items_trims:
  "trim_all g (map li_dev xs) h = Inr h' \<Longrightarrow> \<exists>xs'. trim_items g xs h = Inr (xs', h') \<and> map li_key xs' = map li_key xs"
  by (induction xs arbitrary: h) fastforce+

lemma free_buffers_ok: "pipes_own h ps \<Longrightarrow> free_buffers ps h = Inr (without_bufs h (bufs ps))"
proof (induction ps arbitrary: h)
  case Nil
  then show ?case by (simp add: without_bufs_def bufs_def)
next
  case (Cons p ps)
  show ?case
  proof (cases "p_buffer p = NULL")
    case True
    with Cons show ?thesis by (simp add: bufs_def pipes_own_def)
  next
    case False
    let ?h = "h\<lparr>hp_blk := fmdrop (p_buffer p) (hp_blk h)\<rparr>"
    from Cons.prems False obtain bs where b: "fmlookup (hp_blk h) (p_buffer p) = Some (By_kmalloc, bs)"
      by (auto simp: pipes_own_def bufs_def)
    have "pipes_own ?h ps" using Cons.prems False by (auto simp: pipes_own_def bufs_def list_all_iff)
    from Cons.IH [OF this] b False show ?thesis
      by (auto simp: free_blk_def without_bufs_def bufs_def intro!: arg_cong [of _ _ "\<lambda>m. h\<lparr>hp_blk := m\<rparr>"] fmap_ext)
  qed
qed

lemma without_bufs_without: "without (without_bufs h bs) gs = without_bufs (without h gs) bs"
  by (rule heap.equality) (auto intro!: fmap_ext simp: without_bufs_def)

lemma devs_ok_without_bufs:
  assumes "devs_ok k g h ds gss" and "set bs \<inter> footprint (concat gss) = {}"
  shows "devs_ok k g (without_bufs h bs) ds gss"
  using assms(2) by (intro devs_ok_same [OF assms(1)]) (auto simp: without_bufs_def)

lemma scull_exit_ok:
  assumes live: "ms_devices (sm_base st) = Array_live ds" "pm_devices (sm_pipe st) = Array_live ps"
    and ok: "devs_ok k (ms_globals (sm_base st)) h (module_devices st) gss"
    and pipes: "pipes_own h ps" "set (bufs ps) \<inter> footprint (concat gss) = {}"
  shows "\<exists>st'. scull_exit st h = Inr (st', without_bufs (without h (concat gss)) (bufs ps)) \<and>
    ms_devices (sm_base st') = Array_freed \<and> ms_cdevs (sm_base st') = [] \<and>
    (ms_region (sm_base st) = Some (ms_major (sm_base st), ms_minor (sm_base st)) \<longrightarrow> ms_region (sm_base st') = None) \<and>
    pm_devices (sm_pipe st') = Array_null \<and> pm_cdevs (sm_pipe st') = [] \<and>
    (pm_region (sm_pipe st) = Some (pm_devno (sm_pipe st)) \<longrightarrow> pm_region (sm_pipe st') = None) \<and>
    list_all (\<lambda>x. \<not> ad_region x \<and> \<not> ad_cdev x) (am_devs (sm_access st')) \<and>
    map li_key (am_items (sm_access st')) = map li_key (am_items (sm_access st))"
proof -
  let ?g = "ms_globals (sm_base st)" and ?am = "sm_access st" let ?es = "map ad_dev (am_devs ?am) @ map li_dev (am_items ?am)"
  have "devs_ok k ?g h (ds @ ?es) gss" using ok live(1) by (simp add: module_devices_def)
  then obtain as bs where gss: "gss = as @ bs" and a: "devs_ok k ?g h ds as" and b: "devs_ok k ?g (without h (concat as)) ?es bs"
    by (rule devs_ok_append)
  let ?h1 = "without h (concat as)" let ?h2 = "without_bufs ?h1 (bufs ps)" let ?h3 = "without ?h2 (concat bs)"
  have "b \<notin> set (blk_addrs (concat as))" if "b \<in> set (bufs ps)" for b
    using pipes(2) that by (auto simp: gss footprint_append footprint_def [of "concat as"])
  with pipes(1) have own: "pipes_own ?h1 ps" by (auto simp: pipes_own_def list_all_iff)
  have "devs_ok k ?g ?h2 ?es bs"
    using pipes(2) by (intro devs_ok_without_bufs [OF b]) (auto simp: gss footprint_append)
  from trim_all_ok [OF this] obtain h' where t: "trim_all ?g (map ad_dev (am_devs ?am)) ?h2 = Inr h'"
    "trim_all ?g (map li_dev (am_items ?am)) h' = Inr ?h3"
    by (auto simp: trim_all_append)
  obtain xs' where x: "access_cleanup_loop ?g (am_devs ?am) ?h2 = Inr (xs', h')"
    "list_all (\<lambda>x. \<not> ad_region x \<and> \<not> ad_cdev x) xs'"
    using access_cleanup_trims [OF t(1)] by blast
  obtain is' where i: "trim_items ?g (am_items ?am) h' = Inr (is', ?h3)" "map li_key is' = map li_key (am_items ?am)"
    using trim_items_trims [OF t(2)] by blast
  have "?h3 = without_bufs (without h (concat gss)) (bufs ps)"
    by (simp add: without_bufs_without without_without gss)
  with trim_all_ok [OF a] free_buffers_ok [OF own] live x i show ?thesis
    by (simp add: scull_exit_def unload_devices_def scull_p_cleanup_def scull_access_cleanup_def
        unregister_region_def unregister_pipes_def)
qed

lemma access_init_devs:
  "(\<And>j. j < length xs \<Longrightarrow> 0 \<le> aa_region aa (i + j)) \<Longrightarrow> list_all (\<lambda>x. ad_dev x = zero_dev) xs \<Longrightarrow>
   \<exists>xs'. access_init_loop aa g i xs = (0, xs') \<and> map ad_dev xs' = replicate (length xs) (init_dev M_scull k ord g)"
proof (induction xs arbitrary: i)
  case (Cons x xs)
  have "0 \<le> aa_region aa (Suc i + j)" if "j < length xs" for j using Cons.prems(1) [of "Suc j"] that by simp
  then obtain xs' where "access_init_loop aa g (Suc i) xs = (0, xs')"
    "map ad_dev xs' = replicate (length xs) (init_dev M_scull k ord g)"
    using Cons.IH [of "Suc i"] Cons.prems(2) by auto
  with Cons.prems show ?case using Cons.prems(1) [of 0] by (simp add: Let_def init_dev_def zero_dev_def)
qed simp

lemma default_params_ok:
  "m \<noteq> M_scullp \<Longrightarrow> module_params_ok m k ord scull_globals_init"
  by (simp add: module_params_ok_def globals_ok_def scull_globals_init_def QUANTUM_SIZE_def QSET_SIZE_def)

lemma map_put_devs: "length es = length xs \<Longrightarrow> map ad_dev (map2 (\<lambda>x d. x\<lparr>ad_dev := d\<rparr>) xs es) = es"
  by (simp add: list_eq_iff_nth_eq)

lemma scull_init_good:
  assumes "devices_granted a" and "devices_granted ap" and "all_registered aa"
  obtains st where "scull_init k a ap aa scull_module_init = (0, st)"
    "ms_devices (sm_base st) = Array_live (replicate scull_nr_devs (init_dev M_scull k 0 scull_globals_init))"
    "ms_globals (sm_base st) = scull_globals_init" "pm_devices (sm_pipe st) = Array_live (replicate SCULL_P_NR_DEVS (init_pipe SCULL_P_BUFFER))"
    "ms_region (sm_base st) = Some (ms_major (sm_base st), ms_minor (sm_base st))"
    "pm_region (sm_pipe st) = Some (pm_devno (sm_pipe st))"
    "map ad_dev (am_devs (sm_access st)) = replicate 4 (init_dev M_scull k 0 scull_globals_init)"
    "am_items (sm_access st) = []"
proof -
  let ?d = "init_dev M_scull k 0 scull_globals_init"
  obtain ma mi where l: "load_devices M_scull k 0 a modstate_init = (a_region a, True, (ma, mi),
    modstate_init\<lparr>ms_devices := Array_live (replicate scull_nr_devs ?d),
      ms_major := ma, ms_minor := mi, ms_region := Some (ma, mi), ms_cdevs := [0 ..< scull_nr_devs]\<rparr>)"
    by (rule load_devices_good [OF assms(1)])
  have s: "setup_cdevs (a_cdev ap) 0 SCULL_P_NR_DEVS = ([0 ..< SCULL_P_NR_DEVS], True)"
    using assms(2) setup_cdevs_all [of 0 SCULL_P_NR_DEVS "a_cdev ap"]
    by (simp add: devices_granted_def SCULL_P_NR_DEVS_def scull_nr_devs_def)
  let ?xs = "am_devs (sm_access scull_module_init)"
  obtain xs where x: "access_init_loop aa scull_globals_init 0 ?xs = (0, xs)"
    "map ad_dev xs = replicate (length ?xs) ?d"
    using access_init_devs [of ?xs aa 0 scull_globals_init k 0] assms(3)
    by (auto simp: scull_module_init_def all_registered_def list_all_iff)
  have "sm_base scull_module_init = modstate_init" "ms_globals modstate_init = scull_globals_init" "length ?xs = 4" "am_items (sm_access scull_module_init) = []"
    by (simp_all add: scull_module_init_def modstate_init_def)
  with s x assms(2) show thesis
    by (intro that [of "snd (scull_init k a ap aa scull_module_init)"])
      (simp_all add: scull_init_def l scull_p_init_def scull_access_init_def devices_granted_def Let_def)
qed

section \<open>Failed loads\<close>

lemma load_devices_fails:
  assumes "0 \<le> a_region a" and "\<not> a_array a \<or> (\<exists>i. i < scull_nr_devs \<and> a_cdev a i < 0)"
  obtains dev ms f where "load_devices m k ord a modstate_init = (a_region a, False, dev, ms)"
    "ms_region ms = None" "\<forall>h. unload_devices ms h = Inl f"
proof (cases "a_array a")
  case False
  with assms(1) show thesis
    by (intro that [of "a_dev a" "modstate_init\<lparr>ms_major := fst (a_dev a), ms_minor := snd (a_dev a)\<rparr>" Null_deref])
      (simp_all add: load_devices_def register_region_def unregister_region_def unload_devices_def modstate_init_def Let_def)
next
  case True
  with assms(2) obtain cs where c: "setup_cdevs (a_cdev a) 0 scull_nr_devs = (cs, False)"
    using setup_cdevs_fails [of 0 scull_nr_devs "a_cdev a"] by auto
  with assms(1) True show thesis
    by (intro that [of "a_dev a" "modstate_init\<lparr>ms_devices := Array_freed, ms_major := fst (a_dev a), ms_minor := snd (a_dev a),
        ms_cdevs := cs\<rparr>" Bad_access])
      (simp_all add: load_devices_def register_region_def unregister_region_def unload_devices_def free_devices_def
        modstate_init_def Let_def)
qed

lemma cache_fails:
  assumes "devices_granted a" and "\<not> a_cache a"
  obtains ms where "create_cache a (load_devices m k ord a modstate_init) = (a_region a, ms)"
    "ms_region ms = None" "\<forall>h. unload_devices ms h = Inl Bad_access"
proof -
  obtain ma mi where l: "load_devices m k ord a modstate_init = (a_region a, True, (ma, mi),
    modstate_init\<lparr>ms_devices := Array_live (replicate scull_nr_devs (init_dev m k ord scull_globals_init)),
      ms_major := ma, ms_minor := mi, ms_region := Some (ma, mi), ms_cdevs := [0 ..< scull_nr_devs]\<rparr>)"
    by (rule load_devices_good [OF assms(1)])
  show thesis
    by (rule that [of "snd (create_cache a (load_devices m k ord a modstate_init))"]; unfold l)
      (simp_all add: create_cache_def assms(2) free_devices_def unregister_region_def unload_devices_def)
qed

lemma pipe_init_fails:
  assumes "0 \<le> a_region ap \<longrightarrow> \<not> a_array ap \<or> (\<exists>i. i < SCULL_P_NR_DEVS \<and> a_cdev ap i < 0)"
    and "pm_devices pm = Array_null"
  obtains r pm' f where "scull_p_init bufsz ap pm = (r, pm')" "\<forall>h. scull_p_cleanup pm' h = Inl f"
proof -
  consider "a_region ap < 0" | "0 \<le> a_region ap" "\<not> a_array ap"
    | "0 \<le> a_region ap" "a_array ap" "\<exists>i. i < SCULL_P_NR_DEVS \<and> a_cdev ap i < 0"
    using assms(1) by (cases "a_region ap < 0"; cases "a_array ap") auto
  then show thesis
  proof cases
    case 1
    with assms(2) show ?thesis
      by (intro that [of "a_region ap" pm Null_deref]) (simp_all add: scull_p_init_def scull_p_cleanup_def)
  next
    case 2
    then show ?thesis
      by (intro that [of _ _ Null_deref]) (auto simp: scull_p_init_def scull_p_cleanup_def unregister_pipes_def Let_def)
  next
    case 3
    then obtain cs where "setup_cdevs (a_cdev ap) 0 SCULL_P_NR_DEVS = (cs, False)"
      using setup_cdevs_fails [of 0 SCULL_P_NR_DEVS "a_cdev ap"] by auto
    with 3 show ?thesis
      by (intro that [of _ _ Bad_access]) (auto simp: scull_p_init_def scull_p_cleanup_def unregister_pipes_def Let_def)
  qed
qed

section \<open>Properties\<close>

definition demo_answers :: answers where
  "demo_answers = \<lparr>a_region = 0, a_dev = (240, 0), a_array = True, a_cdev = (\<lambda>i. 0), a_cache = True\<rparr>"

definition demo_access :: access_answers where
  "demo_access = \<lparr>aa_region = (\<lambda>i. 0), aa_dev = (\<lambda>i. (241 + i, 0)), aa_cdev = (\<lambda>i. 0)\<rparr>"

lemma demo_answers_good: "answers_good demo_answers" "devices_granted demo_answers" "all_registered demo_access"
  by (simp_all add: answers_good_def devices_granted_def demo_answers_def all_registered_def demo_access_def)

lemma demo_accesses:
  "0 < quantum d \<Longrightarrow> 0 < qset d \<Longrightarrow> dsize d = 0 \<Longrightarrow>
   module_accesses_ok (replicate (Suc n) d) [(0, Wr False [7, 8] 2 0), (0, Rd False 2 0)]"
  by (simp add: module_accesses_ok_def list_all_iff)

lemma unloads_clean_run:
  assumes "unloads_clean k ext ds ms" and "module_accesses_ok ds as"
  shows "\<exists>ds' h' ms'. run_module k (ms_globals ms) as (ds, h) = Inr (ds', h') \<and>
    ext (ms\<lparr>ms_devices := Array_live ds'\<rparr>) h' = Inr (ms', h)"
  using assms unfolding unloads_clean_def by blast

text \<open>
  C27. The lives of the scullc and scullp modules: with every registration and the slab cache granted
  \<open>scull_init\<close> returns 0, and after any sequence of accesses to its devices \<open>scull_exit\<close>
  puts the heap back and destroys the cache, the \<open>cdev\<close>s and the device numbers. For scullp this
  holds for every page size and \<open>scull_order\<close> at which a quantum set stays below \<open>2 ^ 31\<close> bytes; every page goes back
  with the order it was taken with.
\<close>

theorem cached_module_lifecycles:
  assumes "kernel_ok k" and "answers_good a" and "0 < page_size k" and "int (page_size k * 2 ^ ord) * QSET_SIZE < 2 ^ 31"
  shows "(\<exists>ms. scullc_init k a modstate_init = (0, ms) \<and> ms_cache ms \<and>
      unloads_clean k scullc_exit (replicate scull_nr_devs (init_dev M_scullc k 0 scull_globals_init)) ms) \<and>
    (\<exists>ms. scullp_init k ord a modstate_init = (0, ms) \<and> ms_cache ms \<and>
      unloads_clean k scullp_exit (replicate scull_nr_devs (init_dev M_scullp k ord scull_globals_init)) ms)"
proof
  show "\<exists>ms. scullc_init k a modstate_init = (0, ms) \<and> ms_cache ms \<and>
      unloads_clean k scullc_exit (replicate scull_nr_devs (init_dev M_scullc k 0 scull_globals_init)) ms"
    unfolding scullc_init_def
    by (rule cached_lifecycle [OF assms(1,2) default_params_ok]) (simp_all add: scullc_exit_def)
next
  have "module_params_ok M_scullp k ord scull_globals_init"
    using assms(3,4) by (simp add: module_params_ok_def globals_ok_def scull_globals_init_def QUANTUM_SIZE_def QSET_SIZE_def)
  then show "\<exists>ms. scullp_init k ord a modstate_init = (0, ms) \<and> ms_cache ms \<and>
      unloads_clean k scullp_exit (replicate scull_nr_devs (init_dev M_scullp k ord scull_globals_init)) ms"
    unfolding scullp_init_def
    by (rule cached_lifecycle [OF assms(1,2)]) (simp_all add: scullp_exit_def)
qed

theorem cached_module_lifecycles_witness:
  "(\<exists>ms ds' h' ms'. scullc_init simple_kernel demo_answers modstate_init = (0, ms) \<and>
    run_module simple_kernel (ms_globals ms) [(0, Wr False [7, 8] 2 0), (0, Rd False 2 0)]
      (replicate scull_nr_devs (init_dev M_scullc simple_kernel 0 scull_globals_init), empty_heap) = Inr (ds', h') \<and>
    scullc_exit (ms\<lparr>ms_devices := Array_live ds'\<rparr>) h' = Inr (ms', empty_heap)) \<and>
   (\<exists>ms ds' h' ms'. scullp_init simple_kernel 0 demo_answers modstate_init = (0, ms) \<and>
    run_module simple_kernel (ms_globals ms) [(0, Wr False [7, 8] 2 0), (0, Rd False 2 0)]
      (replicate scull_nr_devs (init_dev M_scullp simple_kernel 0 scull_globals_init), empty_heap) = Inr (ds', h') \<and>
    scullp_exit (ms\<lparr>ms_devices := Array_live ds'\<rparr>) h' = Inr (ms', empty_heap))"
proof -
  let ?c = "init_dev M_scullc simple_kernel 0 scull_globals_init" and ?p = "init_dev M_scullp simple_kernel 0 scull_globals_init"
  have p: "page_size simple_kernel = 4096" by (simp add: simple_kernel_def)
  have s: "s32 4096 = 4096" by (rule s32_id) simp_all
  have "module_accesses_ok (replicate scull_nr_devs ?c) [(0, Wr False [7, 8] 2 0), (0, Rd False 2 0)]"
    using demo_accesses [of ?c 3]
    by (simp add: init_dev_def zero_dev_def scull_globals_init_def QUANTUM_SIZE_def QSET_SIZE_def scull_nr_devs_def)
  moreover have "module_accesses_ok (replicate scull_nr_devs ?p) [(0, Wr False [7, 8] 2 0), (0, Rd False 2 0)]"
    using demo_accesses [of ?p 3] s
    by (simp add: init_dev_def zero_dev_def scull_globals_init_def QUANTUM_SIZE_def QSET_SIZE_def scull_nr_devs_def p)
  moreover have "0 < page_size simple_kernel" "int (page_size simple_kernel * 2 ^ 0) * QSET_SIZE < 2 ^ 31"
    by (simp_all add: p QSET_SIZE_def)
  note cached_module_lifecycles [OF simple_kernel_ok demo_answers_good(1) this]
  ultimately show ?thesis using unloads_clean_run by blast
qed

text \<open>
  C28. \<open>scull_exit\<close> in any state with live arrays: for scull devices, access-controlled devices
  and private copies with separate memory, and pipes that own their buffers, it frees
  exactly the memory of all of them and nothing else, deletes the \<open>cdev\<close>s and gives back
  the numbers. The items of the list of private copies are not freed: as many as before
  are still there afterwards.
\<close>

theorem scull_exit_frees:
  assumes "ms_devices (sm_base st) = Array_live ds" "pm_devices (sm_pipe st) = Array_live ps"
    and "devs_ok k (ms_globals (sm_base st)) h (module_devices st) gss"
    and "pipes_own h ps" "set (bufs ps) \<inter> footprint (concat gss) = {}"
  shows "\<exists>st'. scull_exit st h = Inr (st', without_bufs (without h (concat gss)) (bufs ps)) \<and>
    ms_cdevs (sm_base st') = [] \<and> pm_cdevs (sm_pipe st') = [] \<and>
    (ms_region (sm_base st) = Some (ms_major (sm_base st), ms_minor (sm_base st)) \<longrightarrow> ms_region (sm_base st') = None) \<and>
    (pm_region (sm_pipe st) = Some (pm_devno (sm_pipe st)) \<longrightarrow> pm_region (sm_pipe st') = None) \<and>
    list_all (\<lambda>x. \<not> ad_region x \<and> \<not> ad_cdev x) (am_devs (sm_access st')) \<and>
    map li_key (am_items (sm_access st')) = map li_key (am_items (sm_access st))"
  using scull_exit_ok [OF assms] by blast

definition demo_module :: scull_module where
  \<comment> \<open>one device with data in it, one pipe with a buffer, one private copy\<close>
  "demo_module = \<lparr>sm_base = modstate_init\<lparr>ms_devices := Array_live [demo_dev], ms_region := Some (0, 0), ms_cdevs := [0]\<rparr>,
     sm_pipe = \<lparr>pm_devices = Array_live [(init_pipe 2)\<lparr>p_buffer := 9\<rparr>], pm_devno = (7, 0), pm_region = Some (7, 0), pm_cdevs = [0]\<rparr>,
     sm_access = \<lparr>am_devs = [], am_items = [\<lparr>li_addr = 20, li_dev = init_dev M_scull simple_kernel 0 scull_globals_init, li_key = 5\<rparr>]\<rparr>\<rparr>"

theorem scull_exit_frees_witness:
  \<comment> \<open>the block of the list item is all that is left\<close>
  "\<exists>st'. scull_exit demo_module (item_block simple_kernel 20 (demo_heap\<lparr>hp_blk := fmupd 9 (By_kmalloc, [0, 0]) (hp_blk demo_heap)\<rparr>)) =
      Inr (st', item_block simple_kernel 20 empty_heap) \<and>
    length (am_items (sm_access st')) = 1"
proof -
  let ?h = "item_block simple_kernel 20 (demo_heap\<lparr>hp_blk := fmupd 9 (By_kmalloc, [0, 0]) (hp_blk demo_heap)\<rparr>)"
  let ?d = "init_dev M_scull simple_kernel 0 scull_globals_init"
  let ?gss = "[demo_nodes, []]"
  have "dev_inv ?h demo_dev demo_nodes"
    by (rule same_memory(1) [OF demo_inv]) (auto simp: item_block_def demo_nodes_def footprint_def arr_addrs_def blk_addrs_def)
  moreover have "dev_inv ?h ?d []" "alloc_fits simple_kernel scull_globals_init ?d"
    using init_dev_ok [OF default_params_ok [of M_scull]] by (simp_all add: cached_def)
  ultimately have ok: "devs_ok simple_kernel scull_globals_init ?h [demo_dev, ?d] ?gss"
    by (auto simp: devs_ok_def demo_fits less_Suc_eq nth_Cons' footprint_def arr_addrs_def blk_addrs_def)
  have bf: "bufs [(init_pipe 2)\<lparr>p_buffer := 9\<rparr>] = [9]" by (simp add: bufs_def init_pipe_def)
  have e: "without_bufs (without ?h (concat ?gss)) [9] = item_block simple_kernel 20 empty_heap"
    by (rule heap.equality) (auto intro!: fmap_ext simp: item_block_def without_bufs_def empty_heap_def demo_heap_def demo_nodes_def arr_addrs_def blk_addrs_def)
  have "\<exists>st'. scull_exit demo_module ?h = Inr (st', without_bufs (without ?h (concat ?gss)) (bufs [(init_pipe 2)\<lparr>p_buffer := 9\<rparr>])) \<and>
    map li_key (am_items (sm_access st')) = map li_key (am_items (sm_access demo_module))"
    using scull_exit_frees [of demo_module "[demo_dev]" "[(init_pipe 2)\<lparr>p_buffer := 9\<rparr>]" simple_kernel ?h ?gss] ok
    by (auto simp: demo_module_def module_devices_def modstate_init_def pipes_own_def bf item_block_def
        footprint_def demo_nodes_def arr_addrs_def blk_addrs_def)
  then show ?thesis unfolding bf e by (auto simp: demo_module_def dest: arg_cong [of _ _ length])
qed

lemma pipe_init_failure_ignored:
  assumes "devices_granted a"
    and "0 \<le> a_region ap \<longrightarrow> \<not> a_array ap \<or> (\<exists>i. i < SCULL_P_NR_DEVS \<and> a_cdev ap i < 0)"
  shows "\<exists>st f. scull_init k a ap aa scull_module_init = (0, st) \<and> scull_exit st h = Inl f \<and>
    ms_devices (sm_base st) = Array_live (replicate scull_nr_devs (init_dev M_scull k 0 scull_globals_init))"
proof -
  let ?ds = "replicate scull_nr_devs (init_dev M_scull k 0 scull_globals_init)"
  obtain ma mi where l: "load_devices M_scull k 0 a modstate_init = (a_region a, True, (ma, mi),
    modstate_init\<lparr>ms_devices := Array_live ?ds, ms_major := ma, ms_minor := mi, ms_region := Some (ma, mi),
      ms_cdevs := [0 ..< scull_nr_devs]\<rparr>)"
    by (rule load_devices_good [OF assms(1)])
  have "pm_devices (sm_pipe scull_module_init) = Array_null" by (simp add: scull_module_init_def)
  then obtain r pm' f where p: "scull_p_init SCULL_P_BUFFER ap (sm_pipe scull_module_init) = (r, pm')"
    "\<forall>h. scull_p_cleanup pm' h = Inl f"
    by (rule pipe_init_fails [OF assms(2)])
  have "trim_all scull_globals_init ?ds h = Inr h"
    using trim_all_ok [OF fresh_devs_ok [OF default_params_ok [of M_scull k 0], of h scull_nr_devs]] by (simp add: cached_def)
  moreover have "sm_base scull_module_init = modstate_init" "ms_globals modstate_init = scull_globals_init"
    by (simp_all add: scull_module_init_def modstate_init_def)
  ultimately show ?thesis
    by (intro exI [of _ "snd (scull_init k a ap aa scull_module_init)"] exI [of _ f])
      (simp add: scull_init_def l p scull_exit_def unload_devices_def)
qed

text \<open>
  C29. A load that fails after the device numbers were granted is reported as a success: when
  \<open>kmalloc\<close> of the array or a \<open>cdev_add\<close> fails (for scullc and scullp also when the cache is
  refused), \<open>scull_init\<close> returns the non-negative result of the registration, although the
  numbers are given back and the array is \<open>NULL\<close> or freed. The module stays loaded, and
  unloading it dereferences that pointer. And \<open>scull_init\<close> ignores what \<open>scull_p_init\<close> returns: when the pipes
  get no device numbers, no array or no \<open>cdev\<close>, the module still loads with result 0
  and its other devices are there, but unloading it faults in \<open>scull_p_cleanup\<close>.
\<close>

theorem failed_load_reported_as_success:
  assumes "0 \<le> a_region a" and "\<not> a_array a \<or> (\<exists>i. i < scull_nr_devs \<and> a_cdev a i < 0)"
    and "devices_granted a'" and "\<not> a_cache a'"
    and "0 \<le> a_region ap \<longrightarrow> \<not> a_array ap \<or> (\<exists>i. i < SCULL_P_NR_DEVS \<and> a_cdev ap i < 0)"
  shows "(\<exists>st f. scull_init k a ap aa scull_module_init = (a_region a, st) \<and> ms_region (sm_base st) = None \<and>
      scull_exit st h = Inl f) \<and>
    (\<exists>ms f. scullc_init k a modstate_init = (a_region a, ms) \<and> ms_region ms = None \<and> scullc_exit ms h = Inl f) \<and>
    (\<exists>ms f. scullp_init k ord a modstate_init = (a_region a, ms) \<and> ms_region ms = None \<and> scullp_exit ms h = Inl f) \<and>
    (\<exists>ms f. scullc_init k a' modstate_init = (a_region a', ms) \<and> ms_region ms = None \<and> scullc_exit ms h = Inl f) \<and>
    (\<exists>ms f. scullp_init k ord a' modstate_init = (a_region a', ms) \<and> ms_region ms = None \<and> scullp_exit ms h = Inl f) \<and>
    (\<exists>st f. scull_init k a' ap aa scull_module_init = (0, st) \<and> scull_exit st h = Inl f \<and>
      ms_devices (sm_base st) = Array_live (replicate scull_nr_devs (init_dev M_scull k 0 scull_globals_init)))"
proof (intro conjI)
  show "\<exists>st f. scull_init k a ap aa scull_module_init = (a_region a, st) \<and> ms_region (sm_base st) = None \<and>
      scull_exit st h = Inl f"
    using load_devices_fails [OF assms(1,2), of M_scull k 0]
    by (force simp: scull_init_def scull_module_init_def scull_exit_def)
  show "\<exists>ms f. scullc_init k a modstate_init = (a_region a, ms) \<and> ms_region ms = None \<and> scullc_exit ms h = Inl f"
    using load_devices_fails [OF assms(1,2), of M_scullc k 0] by (force simp: scullc_init_def create_cache_def scullc_exit_def)
  show "\<exists>ms f. scullp_init k ord a modstate_init = (a_region a, ms) \<and> ms_region ms = None \<and> scullp_exit ms h = Inl f"
    using load_devices_fails [OF assms(1,2), of M_scullp k ord] by (force simp: scullp_init_def create_cache_def scullp_exit_def)
  show "\<exists>ms f. scullc_init k a' modstate_init = (a_region a', ms) \<and> ms_region ms = None \<and> scullc_exit ms h = Inl f"
    using cache_fails [OF assms(3,4), of M_scullc k 0] by (force simp: scullc_init_def scullc_exit_def)
  show "\<exists>ms f. scullp_init k ord a' modstate_init = (a_region a', ms) \<and> ms_region ms = None \<and> scullp_exit ms h = Inl f"
    using cache_fails [OF assms(3,4), of M_scullp k ord] by (force simp: scullp_init_def scullp_exit_def)
qed (rule pipe_init_failure_ignored [OF assms(3,5)])

theorem failed_load_reported_as_success_witness:
  "(\<exists>st f. scull_init simple_kernel (demo_answers\<lparr>a_cache := False\<rparr>) (demo_answers\<lparr>a_array := False\<rparr>) demo_access
       scull_module_init = (0, st) \<and>
     scull_exit st empty_heap = Inl f) \<and>
   (\<exists>ms f. scullc_init simple_kernel (demo_answers\<lparr>a_cache := False\<rparr>) modstate_init = (0, ms) \<and> scullc_exit ms empty_heap = Inl f)"
  using failed_load_reported_as_success [of "demo_answers\<lparr>a_array := False\<rparr>" "demo_answers\<lparr>a_cache := False\<rparr>"
      "demo_answers\<lparr>a_array := False\<rparr>" simple_kernel demo_access empty_heap 0]
  by (auto simp: demo_answers_def devices_granted_def)

end
