(* ===== verification/Scull_File.thy ===== *)
theory Scull_File
  imports Scull_Modules Byte_Store
begin

text \<open>
  A scull device as a file. Seen through \<open>scull_write\<close> and \<open>scull_read\<close>, which transfer at most the rest of
  one block per call, the device meets the contract \<open>byte_store\<close>; grown from its start it has no holes and meets
  \<open>byte_file\<close>. What a program has written into a freshly opened device is then what a program reads from it.
\<close>

section \<open>The nodes of a device\<close>

lemma chain_nodes_unique:
  "chain h p gs NULL \<Longrightarrow> chain h p gs' NULL \<Longrightarrow> list_all (node_ok h d) gs \<Longrightarrow> list_all (node_ok h d) gs' \<Longrightarrow> gs = gs'"
proof (induction gs arbitrary: p gs')
  case Nil
  then show ?case by (cases gs') auto
next
  case (Cons x gs)
  then obtain x' gs1 where gs': "gs' = x' # gs1" by (cases gs') auto
  with Cons.prems have "g_addr x = g_addr x'" "g_arr x = g_arr x'" by (auto split: option.splits)
  moreover have "g_blks x = g_blks x'"
    using Cons.prems(3,4) gs' calculation(2) by (auto simp: node_ok_def split: if_splits)
  ultimately have "x = x'" by simp
  moreover have "gs = gs1"
    using Cons.IH [of _ gs1] Cons.prems gs' by (auto split: option.splits)
  ultimately show ?case using gs' by simp
qed

definition nodes :: "scull_dev \<Rightarrow> heap \<Rightarrow> gnode list" where
  "nodes d h = (THE gs. dev_inv h d gs)"

lemma nodes_eq: "dev_inv h d gs \<Longrightarrow> nodes d h = gs"
  unfolding nodes_def by (rule the_equality) (auto simp: dev_inv_def intro: chain_nodes_unique)

section \<open>Transfers\<close>

type_synonym scull_file = "kernel \<times> scull_globals \<times> scull_dev \<times> heap"

text \<open>One call each, at positions for which the handlers do not overflow.\<close>

definition scull_put :: "nat \<Rightarrow> byte list \<Rightarrow> scull_file \<Rightarrow> nat option \<times> scull_file" where
  "scull_put p xs s = (case s of (k, g, d, h) \<Rightarrow>
     if in_range d (int p) (length xs) then
       (case scull_write k g False d d h xs (length xs) (int p) of
          Inl f \<Rightarrow> (None, s)
        | Inr r \<Rightarrow> (if ret r < 0 then None else Some (nat (ret r)), k, g, dev' r, heap' r))
     else (None, s))"

definition scull_get :: "nat \<Rightarrow> nat \<Rightarrow> scull_file \<Rightarrow> byte list option \<times> scull_file" where
  "scull_get p m s = (case s of (k, g, d, h) \<Rightarrow>
     if in_range d (int p) m then
       (case scull_read k False d d h m (int p) of
          Inl f \<Rightarrow> (None, s)
        | Inr r \<Rightarrow> (if ret r < 0 then None else Some (out r), k, g, dev' r, heap' r))
     else (None, s))"

definition sf_inv :: "scull_file \<Rightarrow> bool" where
  "sf_inv s \<longleftrightarrow> (case s of (k, g, d, h) \<Rightarrow> kernel_ok k \<and> alloc_fits k g d \<and> (\<exists>gs. dev_inv h d gs))"

definition sf_byte :: "scull_file \<Rightarrow> nat \<Rightarrow> byte" where
  "sf_byte s q = (case s of (k, g, d, h) \<Rightarrow> byte_at h d (nodes d h) q)"

lemma sf_put_cases:
  assumes "sf_inv (k, g, d, h)" and "in_range d (int p) (length xs)"
  obtains r gs gs' where "dev_inv h d gs" and "sf_inv (k, g, dev' r, heap' r)"
    and "scull_put p xs (k, g, d, h) = (if ret r < 0 then None else Some (nat (ret r)), k, g, dev' r, heap' r)"
    and "write_outcome k d gs h xs (chunk d p (length xs)) (int p) r gs'"
    and "sf_byte (k, g, d, h) = byte_at h d gs" and "sf_byte (k, g, dev' r, heap' r) = byte_at (heap' r) (dev' r) gs'"
proof -
  obtain gs where k: "kernel_ok k" and fits: "alloc_fits k g d" and inv: "dev_inv h d gs"
    using assms(1) by (auto simp: sf_inv_def)
  obtain r gs' where r: "scull_write k g False d d h xs (length xs) (int p) = Inr r"
    "write_outcome k d gs h xs (chunk d (nat (int p)) (length xs)) (int p) r gs'"
    by (rule scull_write_cases [OF k inv fits assms(2)])
  then have fr: "dev_inv (heap' r) (dev' r) gs'" "same_shape d (dev' r)" by (simp_all add: write_outcome_def io_frame_def)
  with k fits have "sf_inv (k, g, dev' r, heap' r)" by (auto simp: sf_inv_def same_shape_accesses)
  with r inv fr show thesis using assms(2)
    by (intro that [of gs r gs']) (simp_all add: scull_put_def sf_byte_def fun_eq_iff nodes_eq)
qed

lemma sf_get_cases:
  assumes "sf_inv (k, g, d, h)" and "in_range d (int p) m"
  obtains r gs gs' where "dev_inv h d gs" and "sf_inv (k, g, dev' r, heap' r)"
    and "scull_get p m (k, g, d, h) = (if ret r < 0 then None else Some (out r), k, g, dev' r, heap' r)"
    and "read_outcome k d gs h m (int p) r gs'"
    and "sf_byte (k, g, d, h) = byte_at h d gs" and "sf_byte (k, g, dev' r, heap' r) = byte_at h d gs"
proof -
  obtain gs where k: "kernel_ok k" and fits: "alloc_fits k g d" and inv: "dev_inv h d gs"
    using assms(1) by (auto simp: sf_inv_def)
  obtain r gs' where r: "scull_read k False d d h m (int p) = Inr r" "read_outcome k d gs h m (int p) r gs'"
    by (rule scull_read_cases [OF k inv assms(2)])
  then have fr: "dev_inv (heap' r) (dev' r) gs'" "same_shape d (dev' r)" "byte_at (heap' r) (dev' r) gs' = byte_at h d gs"
    by (simp_all add: read_outcome_def io_frame_def)
  with k fits have "sf_inv (k, g, dev' r, heap' r)" by (auto simp: sf_inv_def same_shape_accesses)
  with r inv fr show thesis using assms(2)
    by (intro that [of gs r gs']) (simp_all add: scull_get_def sf_byte_def fun_eq_iff nodes_eq)
qed

lemma write_stored: "write_outcome k d gs h xs n pos r gs' \<Longrightarrow> 0 \<le> ret r \<Longrightarrow> write_done d gs h xs n pos r gs'"
  by (auto simp: write_outcome_def write_faulted_def write_nomem_def)

interpretation sf: byte_store sf_inv sf_byte scull_put scull_get
proof
  fix s s' :: scull_file and p m q n :: nat and xs ys :: "byte list"
  obtain k g d h where s: "s = (k, g, d, h)" by (cases s)
  assume inv: "sf_inv s"
  note cs = sf_put_cases [OF inv [unfolded s], of p xs] and cg = sf_get_cases [OF inv [unfolded s], of p m]
  have ck: "chunk d p (length xs) \<le> length xs" by (simp add: chunk_def)
  show "sf_inv (snd (scull_put p xs s))"
  proof (cases "in_range d (int p) (length xs)")
    case True
    show ?thesis by (rule cs [OF True]) (simp add: s)
  qed (use inv in \<open>simp add: s scull_put_def\<close>)
  show "sf_byte (snd (scull_put p xs s)) q = sf_byte s q" if "q < p \<or> p + length xs \<le> q"
  proof (cases "in_range d (int p) (length xs)")
    case True
    show ?thesis
      by (rule cs [OF True]) (use that ck in \<open>auto simp: s write_outcome_def write_done_def write_faulted_def write_nomem_def\<close>)
  qed (simp add: s scull_put_def)
  show "n \<le> length xs \<and> (\<forall>i<length xs. sf_byte s' (p + i) = (if i < n then xs ! i else sf_byte s (p + i)))"
    if "scull_put p xs s = (Some n, s')"
  proof (cases "in_range d (int p) (length xs)")
    case True
    obtain r gs gs' where r: "scull_put p xs (k, g, d, h) = (if ret r < 0 then None else Some (nat (ret r)), k, g, dev' r, heap' r)"
      "write_outcome k d gs h xs (chunk d p (length xs)) (int p) r gs'"
      "sf_byte (k, g, d, h) = byte_at h d gs" "sf_byte (k, g, dev' r, heap' r) = byte_at (heap' r) (dev' r) gs'"
      by (rule cs [OF True])
    with that have "0 \<le> ret r" and sn: "s' = (k, g, dev' r, heap' r)" "n = nat (ret r)" by (auto simp: s split: if_splits)
    from write_stored [OF r(2) this(1)] sn(2) show ?thesis by (simp add: sn(1) s r(3,4) write_done_def chunk_def)
  qed (use that in \<open>simp add: s scull_put_def\<close>)
  show "sf_inv (snd (scull_get p m s)) \<and> sf_byte (snd (scull_get p m s)) = sf_byte s"
  proof (cases "in_range d (int p) m")
    case True
    show ?thesis by (rule cg [OF True]) (simp add: s)
  qed (use inv in \<open>simp add: s scull_get_def\<close>)
  show "length ys \<le> m \<and> ys = map (sf_byte s) [p ..< p + length ys]" if "fst (scull_get p m s) = Some ys"
  proof (cases "in_range d (int p) m")
    case True
    obtain r gs gs' where r: "scull_get p m (k, g, d, h) = (if ret r < 0 then None else Some (out r), k, g, dev' r, heap' r)"
      "read_outcome k d gs h m (int p) r gs'" "sf_byte (k, g, d, h) = byte_at h d gs"
      by (rule cg [OF True])
    with that have ys: "ys = out r" by (simp add: s split: if_splits)
    have "\<exists>n \<le> m. out r = map (byte_at h d gs) [p ..< p + n]"
    proof (cases "dsize d \<le> int p \<or> blk_at d gs p = NULL")
      case True
      with r(2) show ?thesis by (auto simp: read_outcome_def intro: exI [of _ 0])
    next
      case False
      with r(2) have "out r = map (byte_at h d gs) [p ..< p + min (chunk d p m) (nat (dsize d - int p))]"
        by (simp add: read_outcome_def Let_def)
      moreover have "min (chunk d p m) (nat (dsize d - int p)) \<le> m" by (simp add: chunk_def)
      ultimately show ?thesis by blast
    qed
    then show ?thesis by (auto simp: s ys r(3))
  qed (use that in \<open>simp add: s scull_get_def\<close>)
qed

section \<open>Growing a file\<close>

lemma plentyD:
  assumes "plenty k"
  shows "0 < kmalloc k h n" "0 < blk_source k d h" "\<not> out_of_memory k d"
  using assms by (auto simp: plenty_def blk_source_def out_of_memory_def split: scull_type.splits)

definition sf_size :: "scull_file \<Rightarrow> nat" where
  "sf_size s = (case s of (k, g, d, h) \<Rightarrow> nat (dsize d))"

definition sf_limit :: "scull_file \<Rightarrow> nat" where
  "sf_limit s = (case s of (k, g, d, h) \<Rightarrow> nat (2 ^ 31 * (quantum d * qset d)) - 1)"

definition sf_ready :: "scull_file \<Rightarrow> bool" where
  "sf_ready s \<longleftrightarrow> (case s of (k, g, d, h) \<Rightarrow>
     plenty k \<and> user_ok k \<and> 0 \<le> dsize d \<and> (\<forall>q<nat (dsize d). blk_at d (nodes d h) q \<noteq> NULL))"

lemma sf_limit_bound:
  assumes "params_ok d"
  shows "int (nat (2 ^ 31 * (quantum d * qset d))) = 2 ^ 31 * (quantum d * qset d)"
    and "0 < nat (2 ^ 31 * (quantum d * qset d))" and "nat (2 ^ 31 * (quantum d * qset d)) < 2 ^ 62"
proof -
  define z where "z = quantum d * qset d"
  have z: "0 < z" "z < 2 ^ 31" using assms by (simp_all add: z_def params_ok_def)
  show "int (nat (2 ^ 31 * (quantum d * qset d))) = 2 ^ 31 * (quantum d * qset d)"
    and "0 < nat (2 ^ 31 * (quantum d * qset d))" and "nat (2 ^ 31 * (quantum d * qset d)) < 2 ^ 62"
    unfolding z_def [symmetric] using z by (simp_all add: nat_less_iff)
qed

lemma sf_in_range:
  assumes "params_ok d" and "0 \<le> dsize d" and "p \<le> nat (dsize d)"
    and "nat (dsize d) \<le> nat (2 ^ 31 * (quantum d * qset d)) - 1" and "n < 2 ^ 62"
  shows "in_range d (int p) n"
proof -
  define L where "L = nat (2 ^ 31 * (quantum d * qset d))"
  note b = sf_limit_bound [OF assms(1), folded L_def]
  have "nat (dsize d) < L" "nat (dsize d) < 2 ^ 62" using assms(4) [folded L_def] b(2,3) by simp_all
  then have "dsize d < int L" "dsize d < 2 ^ 62" using assms(2) by (simp_all add: nat_less_iff zless_nat_eq_int_zless)
  moreover have "int L = 2 ^ 31 * (quantum d * qset d)" by (rule b(1))
  moreover have "int p \<le> dsize d" using assms(2,3) by simp
  moreover have "int n < 2 ^ 62" using assms(5) by simp
  ultimately show ?thesis using assms(2) unfolding in_range_def by simp
qed

text \<open>An append stores the bytes up to the end of the block, and the file still has no holes.\<close>

lemma sf_append:
  assumes inv: "sf_inv (k, g, d, h)" and rd: "sf_ready (k, g, d, h)" and xs: "xs \<noteq> []"
    and lim: "nat (dsize d) + length xs \<le> nat (2 ^ 31 * (quantum d * qset d)) - 1"
  obtains n d' h' where "scull_put (nat (dsize d)) xs (k, g, d, h) = (Some n, k, g, d', h')" and "0 < n"
    and "sf_ready (k, g, d', h')" and "dsize d' = dsize d + int n" and "same_shape d d'"
proof -
  let ?p = "nat (dsize d)"
  have k: "plenty k" "user_ok k" "0 \<le> dsize d" and dense: "\<forall>q<?p. blk_at d (nodes d h) q \<noteq> NULL"
    using rd by (simp_all add: sf_ready_def)
  have par: "params_ok d" using inv by (auto simp: sf_inv_def dev_inv_def)
  have "in_range d (int ?p) (length xs)"
    using lim sf_limit_bound [OF par] by (intro sf_in_range [OF par k(3)]) simp_all
  then obtain r gs gs' where r: "dev_inv h d gs"
    "scull_put ?p xs (k, g, d, h) = (if ret r < 0 then None else Some (nat (ret r)), k, g, dev' r, heap' r)"
    "write_outcome k d gs h xs (chunk d ?p (length xs)) (int ?p) r gs'"
    by (rule sf_put_cases [OF inv])
  define n where "n = chunk d ?p (length xs)"
  have "n \<le> length xs" by (simp add: n_def chunk_def)
  then have "fst (copy_from_user k xs n) = 0" using k(2) by (simp add: user_ok_def)
  then have fr: "io_frame d gs h r gs'" and dn: "write_done d gs h xs n (int ?p) r gs'"
    using r(3) plentyD(3) [OF k(1)] by (auto simp: write_outcome_def n_def)
  have off: "off_of d ?p < nat (quantum d)" by (rule off_bound [OF par])
  then have n: "0 < n" using xs by (simp add: n_def chunk_def)
  have sh: "same_shape d (dev' r)" using fr by (simp add: io_frame_def)
  have "nodes (dev' r) (heap' r) = gs'" using fr by (intro nodes_eq) (simp add: io_frame_def)
  moreover have "blk_at d gs' q \<noteq> NULL" if "q < ?p + n" for q
  proof (cases "q < ?p")
    case True
    then have "blk_at d gs q \<noteq> NULL" using dense nodes_eq [OF r(1)] by simp
    moreover from this have "blk_at d gs' q = blk_at d gs q" using fr by (simp add: io_frame_def blocks_kept_def)
    ultimately show ?thesis by simp
  next
    case False
    define j where "j = q - ?p"
    have "n \<le> nat (quantum d) - off_of d ?p" by (simp add: n_def chunk_def)
    then have j: "q = ?p + j" "off_of d ?p + j < nat (quantum d)" using False that off by (simp add: j_def, simp add: j_def, linarith)
    have "blk_at d gs' q = blk_at d gs' ?p"
      using step_in_block [OF par j(2)] by (simp add: blk_at_def j(1))
    then show ?thesis using dn k(3) by (simp add: write_done_def)
  qed
  moreover have sz: "dsize (dev' r) = dsize d + int n" using dn by (simp add: write_done_def)
  moreover have "nat (dsize (dev' r)) = ?p + n" using sz k(3) by (simp add: nat_add_distrib)
  ultimately have "sf_ready (k, g, dev' r, heap' r)"
    using k by (simp add: sf_ready_def same_shape_contents [OF sh])
  with r(2) dn n sz sh show thesis by (intro that [of n "dev' r" "heap' r"]) (simp_all add: write_done_def)
qed

lemma sf_read_more:
  assumes inv: "sf_inv (k, g, d, h)" and rd: "sf_ready (k, g, d, h)" and p: "p \<le> nat (dsize d)"
    and lim: "nat (dsize d) \<le> nat (2 ^ 31 * (quantum d * qset d)) - 1" and m: "0 < m" "m < 2 ^ 31"
  obtains ys d' h' where "scull_get p m (k, g, d, h) = (Some ys, k, g, d', h')" and "sf_ready (k, g, d', h')"
    and "dsize d' = dsize d" and "same_shape d d'" and "p + length ys \<le> nat (dsize d)" and "ys = [] \<longrightarrow> p = nat (dsize d)"
proof -
  have k: "plenty k" "user_ok k" "0 \<le> dsize d" and dense: "\<forall>q<nat (dsize d). blk_at d (nodes d h) q \<noteq> NULL"
    using rd by (simp_all add: sf_ready_def)
  have par: "params_ok d" using inv by (auto simp: sf_inv_def dev_inv_def)
  have "in_range d (int p) m" using m by (intro sf_in_range [OF par k(3) p lim]) simp
  then obtain r gs gs' where r: "dev_inv h d gs"
    "scull_get p m (k, g, d, h) = (if ret r < 0 then None else Some (out r), k, g, dev' r, heap' r)"
    "read_outcome k d gs h m (int p) r gs'"
    by (rule sf_get_cases [OF inv])
  have fr: "io_frame d gs h r gs'" "dsize (dev' r) = dsize d" using r(3) by (simp_all add: read_outcome_def)
  have sh: "same_shape d (dev' r)" using fr by (simp add: io_frame_def)
  have "nodes (dev' r) (heap' r) = gs'" using fr by (intro nodes_eq) (simp add: io_frame_def)
  moreover have "blk_at d gs' q = blk_at d gs q" if "q < nat (dsize d)" for q
    using that dense nodes_eq [OF r(1)] fr(1) by (simp add: io_frame_def blocks_kept_def)
  ultimately have rd': "sf_ready (k, g, dev' r, heap' r)"
    using k dense nodes_eq [OF r(1)] by (simp add: sf_ready_def same_shape_contents [OF sh] fr(2))
  have off: "off_of d p < nat (quantum d)" by (rule off_bound [OF par])
  show thesis
  proof (cases "p < nat (dsize d)")
    case True
    then have "blk_at d gs p \<noteq> NULL" using dense nodes_eq [OF r(1)] by simp
    then have "0 \<le> ret r" "length (out r) = min (chunk d p m) (nat (dsize d - int p))"
      using r(3) True k(2) by (auto simp: read_outcome_def Let_def user_ok_def split: if_splits)
    moreover have "0 < chunk d p m" using off m by (simp add: chunk_def)
    ultimately show thesis
      using r(2) rd' fr(2) sh True by (intro that [of "out r" "dev' r" "heap' r"]) auto
  next
    case False
    then have "dsize d \<le> int p" by simp
    with r(3) have "ret r = 0" "out r = []" by (simp_all add: read_outcome_def)
    with False p show thesis using r(2) rd' fr(2) sh by (intro that [of "[]" "dev' r" "heap' r"]) simp_all
  qed
qed

interpretation sff: byte_file sf_inv sf_byte scull_put scull_get sf_ready sf_size sf_limit
proof
  fix s :: scull_file and xs :: "byte list" and p m :: nat
  obtain k g d h where s: "s = (k, g, d, h)" by (cases s)
  assume inv: "sf_inv s" and rd: "sf_ready s"
  show "\<exists>n s'. scull_put (sf_size s) xs s = (Some n, s') \<and> 0 < n \<and> sf_ready s' \<and> sf_size s' = sf_size s + n \<and> sf_limit s' = sf_limit s"
    if ne: "xs \<noteq> []" and le: "sf_size s + length xs \<le> sf_limit s"
  proof -
    have "0 \<le> dsize d" using rd by (simp add: s sf_ready_def)
    moreover have "nat (dsize d) + length xs \<le> nat (2 ^ 31 * (quantum d * qset d)) - 1"
      using le by (simp add: s sf_size_def sf_limit_def)
    then obtain n d' h' where "scull_put (nat (dsize d)) xs (k, g, d, h) = (Some n, k, g, d', h')" "0 < n"
      "sf_ready (k, g, d', h')" "dsize d' = dsize d + int n" "same_shape d d'"
      by (rule sf_append [OF inv [unfolded s] rd [unfolded s] ne])
    ultimately show ?thesis by (simp add: s sf_size_def sf_limit_def same_shape_def nat_add_distrib)
  qed
  show "\<exists>ys s'. scull_get p m s = (Some ys, s') \<and> sf_ready s' \<and> sf_size s' = sf_size s \<and> sf_limit s' = sf_limit s \<and>
      p + length ys \<le> sf_size s \<and> (ys = [] \<longrightarrow> p = sf_size s)"
    if le: "p \<le> sf_size s" "sf_size s \<le> sf_limit s" and m: "0 < m" "m < 2 ^ 31"
  proof -
    have "p \<le> nat (dsize d)" "nat (dsize d) \<le> nat (2 ^ 31 * (quantum d * qset d)) - 1"
      using le by (simp_all add: s sf_size_def sf_limit_def)
    then obtain ys d' h' where "scull_get p m (k, g, d, h) = (Some ys, k, g, d', h')" "sf_ready (k, g, d', h')"
      "dsize d' = dsize d" "same_shape d d'" "p + length ys \<le> nat (dsize d)" "ys = [] \<longrightarrow> p = nat (dsize d)"
      by (rule sf_read_more [OF inv [unfolded s] rd [unfolded s] _ _ m])
    then show ?thesis by (simp add: s sf_size_def sf_limit_def same_shape_def)
  qed
qed

lemma sf_write_all_same:
  "write_all scull_put p xs (k, g, d, h) = Some s \<Longrightarrow> \<exists>d' h'. s = (k, g, d', h')"
proof (induction "length xs" arbitrary: p xs d h rule: less_induct)
  case less
  show ?case
  proof (cases "xs = []")
    case True
    with less.prems show ?thesis by (auto simp: write_all.simps)
  next
    case False
    obtain r d' h' where put: "scull_put p xs (k, g, d, h) = (r, k, g, d', h')"
      unfolding scull_put_def
      by (cases "in_range d (int p) (length xs)"; cases "scull_write k g False d d h xs (length xs) (int p)") simp_all
    with False less.prems obtain n where "0 < n" "write_all scull_put (p + n) (drop n xs) (k, g, d', h') = Some s"
      by (subst (asm) write_all.simps) (auto split: option.splits if_splits)
    with less.hyps [of "drop n xs"] False show ?thesis by auto
  qed
qed

section \<open>Opening\<close>

lemma scull_open_write:
  assumes "dev_inv h d gs" and "cache_ready g d" and "fl AND O_ACCMODE = O_WRONLY"
  shows "scull_open g fl d h =
    Inr (0, d\<lparr>dsize := 0, data := NULL, qset := scull_qset_n g, quantum := scull_quantum g\<rparr>, without h gs)"
  using scull_trim_ok [OF assms(1,2)] assms(3) by (simp add: scull_open_def open_trim_def)

lemma scull_open_other: "fl AND O_ACCMODE \<noteq> O_WRONLY \<Longrightarrow> scull_open g fl d h = Inr (0, d, h)"
  by (simp add: scull_open_def open_trim_def)

section \<open>Properties\<close>

text \<open>
  C4. A program that opens a device for writing and writes a text from the start, repeating the call until
  all bytes are taken, succeeds; and a program that then opens it for reading and reads pieces of any size until
  the device has nothing more gets exactly this text, and its loop ends. This holds for every
  text that the positions of the device can hold, whatever the device held before, for all three allocators.
\<close>

theorem scull_copy_in_out:
  assumes "kernel_ok k" and "plenty k" and "user_ok k" and "dev_inv h d gs" and "cache_ready g d"
    and "fl AND O_ACCMODE = O_WRONLY" and "fl' AND O_ACCMODE \<noteq> O_WRONLY"
    and "params_ok (d\<lparr>qset := scull_qset_n g, quantum := scull_quantum g\<rparr>)"
    and "alloc_fits k g (d\<lparr>qset := scull_qset_n g, quantum := scull_quantum g\<rparr>)"
    and "int (length xs) < 2 ^ 31 * (scull_quantum g * scull_qset_n g)" and "0 < m" and "m < 2 ^ 31"
  shows "\<exists>d1 h1 d2 h2 s. scull_open g fl d h = Inr (0, d1, h1) \<and>
    write_all scull_put 0 xs (k, g, d1, h1) = Some (k, g, d2, h2) \<and>
    scull_open g fl' d2 h2 = Inr (0, d2, h2) \<and> read_all scull_get m 0 (k, g, d2, h2) = Some (xs, s)"
proof -
  let ?d = "d\<lparr>dsize := 0, data := NULL, qset := scull_qset_n g, quantum := scull_quantum g\<rparr>" and ?h = "without h gs"
  have par: "params_ok ?d" using assms(8) by (simp add: params_ok_def)
  have "dev_inv ?h ?d []" using par by (simp add: dev_inv_def arr_addrs_def blk_addrs_def)
  moreover have "alloc_fits k g ?d" using assms(9) by (simp add: alloc_fits_def cong: scull_type.case_cong option.case_cong)
  ultimately have "sf_inv (k, g, ?d, ?h)" using assms(1) by (auto simp: sf_inv_def)
  moreover have "sf_ready (k, g, ?d, ?h)" "sf_size (k, g, ?d, ?h) = 0" using assms(2,3) by (simp_all add: sf_ready_def sf_size_def)
  moreover have "length xs \<le> sf_limit (k, g, ?d, ?h)"
    using assms(10) sf_limit_bound(1) [OF par] by (simp add: sf_limit_def nat_less_iff)
  ultimately obtain s1 s2 where w: "write_all scull_put 0 xs (k, g, ?d, ?h) = Some s1" "read_all scull_get m 0 s1 = Some (xs, s2)"
    using sff.copy_in_out [of "(k, g, ?d, ?h)" xs m] assms(11,12) by blast
  moreover obtain d2 h2 where "s1 = (k, g, d2, h2)" using sf_write_all_same [OF w(1)] by blast
  ultimately show ?thesis
    using scull_open_write [OF assms(4,5,6)] scull_open_other [OF assms(7)] by blast
qed

theorem scull_copy_in_out_witness:
  "\<exists>d1 h1 d2 h2 s. scull_open scull_globals_init 1 demo_dev demo_heap = Inr (0, d1, h1) \<and>
    write_all scull_put 0 [5, 6, 7] (simple_kernel, scull_globals_init, d1, h1) = Some (simple_kernel, scull_globals_init, d2, h2) \<and>
    scull_open scull_globals_init 0 d2 h2 = Inr (0, d2, h2) \<and>
    read_all scull_get 2 0 (simple_kernel, scull_globals_init, d2, h2) = Some ([5, 6, 7], s)"
  by (rule scull_copy_in_out [OF simple_kernel_ok simple_kernel_plenty demo_inv])
    (simp_all add: cache_ready_def params_ok_def alloc_fits_def demo_dev_def scull_globals_init_def QUANTUM_SIZE_def QSET_SIZE_def
      O_ACCMODE_def O_WRONLY_def)

end
