(* ===== verification/Scull_System.thy ===== *)
theory Scull_System
  imports Scull_File Scull_Ioctl
begin

text \<open>
  The devices of a loaded scull, scullc or scullp as their users see them: each module fills in a table
  of file operations, and a system call goes through it. scullc and scullp leave the ioctl out.
\<close>

section \<open>The tables\<close>

definition scullc_open :: "scull_globals \<Rightarrow> 32 word \<Rightarrow> scull_dev \<Rightarrow> heap \<Rightarrow> (int \<times> scull_dev \<times> heap) res" where
  "scullc_open g fl d h =
     (if fl AND O_ACCMODE = O_WRONLY then bindE (scull_trim g d h) (\<lambda>(d', h'). Inr (0, d', h')) else Inr (0, d, h))"

definition scullc_release :: int where "scullc_release = 0"

definition scullp_open :: "scull_globals \<Rightarrow> 32 word \<Rightarrow> scull_dev \<Rightarrow> heap \<Rightarrow> (int \<times> scull_dev \<times> heap) res" where
  "scullp_open g fl d h =
     (if fl AND O_ACCMODE = O_WRONLY then bindE (scull_trim g d h) (\<lambda>(d', h'). Inr (0, d', h')) else Inr (0, d, h))"

definition scullp_release :: int where "scullp_release = 0"

text \<open>\<open>fo_seeks\<close>: the entry is not \<open>no_llseek\<close>; an ioctl that is \<open>NULL\<close> is \<open>None\<close>.\<close>

record 'u file_operations =
  fo_seeks :: bool
  fo_read :: "kernel \<Rightarrow> bool \<Rightarrow> scull_dev \<Rightarrow> scull_dev \<Rightarrow> heap \<Rightarrow> nat \<Rightarrow> int \<Rightarrow> io_result res"
  fo_write :: "kernel \<Rightarrow> scull_globals \<Rightarrow> bool \<Rightarrow> scull_dev \<Rightarrow> scull_dev \<Rightarrow> heap \<Rightarrow> byte list \<Rightarrow> nat \<Rightarrow> int \<Rightarrow> io_result res"
  fo_ioctl :: "('u uaccess \<Rightarrow> bool \<Rightarrow> 32 word \<Rightarrow> 64 word \<Rightarrow> scull_globals \<Rightarrow> 'u \<Rightarrow> int \<times> scull_globals \<times> 'u) option"
  fo_open :: "scull_globals \<Rightarrow> 32 word \<Rightarrow> scull_dev \<Rightarrow> heap \<Rightarrow> (int \<times> scull_dev \<times> heap) res"
  fo_release :: int

definition scull_fops :: "'u file_operations" where
  "scull_fops = \<lparr>fo_seeks = False, fo_read = scull_read, fo_write = scull_write, fo_ioctl = Some scull_ioctl,
     fo_open = scull_open, fo_release = scull_release\<rparr>"

definition scullc_fops :: "'u file_operations" where
  "scullc_fops = \<lparr>fo_seeks = False, fo_read = scull_read, fo_write = scull_write, fo_ioctl = None,
     fo_open = scullc_open, fo_release = scullc_release\<rparr>"

definition scullp_fops :: "'u file_operations" where
  "scullp_fops = \<lparr>fo_seeks = False, fo_read = scull_read, fo_write = scull_write, fo_ioctl = None,
     fo_open = scullp_open, fo_release = scullp_release\<rparr>"

fun module_fops :: "module \<Rightarrow> 'u file_operations" where
  "module_fops M_scull = scull_fops"
| "module_fops M_scullc = scullc_fops"
| "module_fops M_scullp = scullp_fops"

section \<open>System calls\<close>

text \<open>
  A call on device \<open>i\<close> of the module. The kernel hands it to the function of the table; it answers
  itself when there is none (\<open>-ENOTTY\<close> for an ioctl, \<open>-ESPIPE\<close> for a seek). The flag of reads and writes is the signal that comes before the
  semaphore, that of an ioctl the capability.
\<close>

datatype call =
    Open nat "32 word"
  | Read nat bool nat int
  | Write nat bool "byte list" nat int
  | Ioctl nat bool "32 word" "64 word"
  | Seek nat
  | Close nat

record 'u sys =
  sy_globals :: scull_globals
  sy_devs :: "scull_dev list"
  sy_heap :: heap
  sy_user :: 'u

definition ESPIPE :: int where "ESPIPE = 29"

fun sys_call :: "module \<Rightarrow> kernel \<Rightarrow> 'u uaccess \<Rightarrow> call \<Rightarrow> 'u sys \<Rightarrow> (int \<times> 'u sys) res" where
  "sys_call m k a (Open i fl) s =
     bindE (fo_open (module_fops m :: 'u file_operations) (sy_globals s) fl (sy_devs s ! i) (sy_heap s)) (\<lambda>(v, d, h).
       Inr (v, s\<lparr>sy_devs := (sy_devs s)[i := d], sy_heap := h\<rparr>))"
| "sys_call m k a (Read i intr count pos) s =
     (let d = sy_devs s ! i in
      bindE (fo_read (module_fops m :: 'u file_operations) k intr d d (sy_heap s) count pos) (\<lambda>r.
        Inr (ret r, s\<lparr>sy_devs := (sy_devs s)[i := dev' r], sy_heap := heap' r\<rparr>)))"
| "sys_call m k a (Write i intr ubuf count pos) s =
     (let d = sy_devs s ! i in
      bindE (fo_write (module_fops m :: 'u file_operations) k (sy_globals s) intr d d (sy_heap s) ubuf count pos) (\<lambda>r.
        Inr (ret r, s\<lparr>sy_devs := (sy_devs s)[i := dev' r], sy_heap := heap' r\<rparr>)))"
| "sys_call m k a (Ioctl i cap cmd arg) s =
     (case fo_ioctl (module_fops m) of
        None \<Rightarrow> Inr (- ENOTTY, s)
      | Some f \<Rightarrow> (case f a cap cmd arg (sy_globals s) (sy_user s) of (v, g, u) \<Rightarrow> Inr (v, s\<lparr>sy_globals := g, sy_user := u\<rparr>)))"
| "sys_call m k a (Seek i) s = Inr (if fo_seeks (module_fops m :: 'u file_operations) then 0 else - ESPIPE, s)"
| "sys_call m k a (Close i) s = Inr (fo_release (module_fops m :: 'u file_operations), s)"

fun run_calls :: "module \<Rightarrow> kernel \<Rightarrow> 'u uaccess \<Rightarrow> call list \<Rightarrow> 'u sys \<Rightarrow> (int list \<times> 'u sys) res" where
  "run_calls m k a [] s = Inr ([], s)"
| "run_calls m k a (c # cs) s =
     bindE (sys_call m k a c s) (\<lambda>(v, s1). bindE (run_calls m k a cs s1) (\<lambda>(vs, s2). Inr (v # vs, s2)))"

fun call_dev :: "call \<Rightarrow> nat" where
  "call_dev (Open i fl) = i"
| "call_dev (Read i intr count pos) = i"
| "call_dev (Write i intr ubuf count pos) = i"
| "call_dev (Ioctl i cap cmd arg) = i"
| "call_dev (Seek i) = i"
| "call_dev (Close i) = i"

fun call_bytes :: "call \<Rightarrow> nat" where
  "call_bytes (Read i intr count pos) = count"
| "call_bytes (Write i intr ubuf count pos) = count"
| "call_bytes c = 0"

text \<open>Positions below 2 GiB are in range whatever the parameters are.\<close>

fun call_near :: "call \<Rightarrow> bool" where
  "call_near (Read i intr count pos) = (0 \<le> pos \<and> pos < 2 ^ 31)"
| "call_near (Write i intr ubuf count pos) = (0 \<le> pos \<and> pos < 2 ^ 31)"
| "call_near c = True"

fun privileged :: "call \<Rightarrow> bool" where
  "privileged (Ioctl i cap cmd arg) = cap"
| "privileged c = False"

definition calls_ok :: "nat \<Rightarrow> call list \<Rightarrow> bool" where
  "calls_ok n cs \<longleftrightarrow> list_all (\<lambda>c. call_dev c < n \<and> call_near c) cs \<and> sum_list (map call_bytes cs) < 2 ^ 62"

section \<open>The invariant of a loaded module\<close>

fun module_type :: "module \<Rightarrow> scull_type" where
  "module_type M_scull = scull_type_basic"
| "module_type M_scullc = scull_type_c"
| "module_type M_scullp = scull_type_p"

definition dev_of :: "module \<Rightarrow> nat \<Rightarrow> nat \<Rightarrow> scull_dev \<Rightarrow> bool" where
  "dev_of m ord n d \<longleftrightarrow> dtype d = module_type m \<and> (m = M_scullp \<longrightarrow> order d = ord) \<and> 0 \<le> dsize d \<and> dsize d \<le> int n"

definition globals_of :: "module \<Rightarrow> scull_globals \<Rightarrow> bool" where
  \<comment> \<open>the parameters are usable, and those of scullc and scullp are the initial ones\<close>
  "globals_of m g \<longleftrightarrow> globals_ok g \<and> (m \<noteq> M_scull \<longrightarrow> g = cached m scull_globals_init)"

definition mod_inv :: "module \<Rightarrow> kernel \<Rightarrow> nat \<Rightarrow> heap \<Rightarrow> nat \<Rightarrow> 'u sys \<Rightarrow> bool" where
  \<comment> \<open>\<open>n\<close> bytes were asked for so far; without the devices the heap is \<open>h0\<close>\<close>
  "mod_inv m k ord h0 n s \<longleftrightarrow>
     globals_of m (sy_globals s) \<and> list_all (dev_of m ord n) (sy_devs s) \<and>
     (\<exists>gss. devs_ok k (sy_globals s) (sy_heap s) (sy_devs s) gss \<and> without (sy_heap s) (concat gss) = h0)"

definition pages_fit :: "module \<Rightarrow> kernel \<Rightarrow> nat \<Rightarrow> bool" where
  \<comment> \<open>the pages of scullp have room for the default quantum\<close>
  "pages_fit m k ord \<longleftrightarrow> (m = M_scullp \<longrightarrow> QUANTUM_SIZE \<le> int (page_size k * 2 ^ ord))"

lemma module_open: "fo_open (module_fops m) = scull_open"
  by (cases m) (auto simp: fun_eq_iff scull_fops_def scullc_fops_def scullp_fops_def scull_open_def scullc_open_def
      scullp_open_def open_trim_def)

lemma module_io:
  "fo_read (module_fops m) = scull_read \<and> fo_write (module_fops m) = scull_write \<and>
   fo_ioctl (module_fops m) = (if m = M_scull then Some scull_ioctl else None)"
  by (cases m) (simp_all add: scull_fops_def scullc_fops_def scullp_fops_def)

declare module_fops.simps [simp del]

lemma ioctl_unprivileged:
  assumes "scull_ioctl a False cmd arg g u = (v, g', u')"
  shows "g' = g \<or> g' = g\<lparr>scull_quantum := QUANTUM_SIZE, scull_qset_n := QSET_SIZE\<rparr>"
  using assms by (auto simp: scull_ioctl_def Let_def split: if_splits prod.splits)

text \<open>A device that has just been trimmed can be written again.\<close>

lemma trimmed_dev:
  assumes "globals_of m g" and "dev_of m ord n d" and "pages_fit m k ord"
  defines "d' \<equiv> d\<lparr>dsize := 0, data := NULL, qset := scull_qset_n g, quantum := scull_quantum g\<rparr>"
  shows "dev_inv h d' []" and "alloc_fits k g d'" and "dev_of m ord n d'"
proof -
  have g: "0 < scull_quantum g" "0 < scull_qset_n g" "scull_quantum g * scull_qset_n g < 2 ^ 31"
    using assms(1) by (simp_all add: globals_of_def globals_ok_def)
  then show "dev_inv h d' []" by (simp add: d'_def dev_inv_def params_ok_def arr_addrs_def blk_addrs_def)
  show "dev_of m ord n d'" using assms(2) by (simp add: d'_def dev_of_def)
  show "alloc_fits k g d'"
    using assms(1-3)
    by (cases m) (auto simp: d'_def alloc_fits_def dev_of_def globals_of_def cached_def pages_fit_def scull_globals_init_def
        QUANTUM_SIZE_def u64_def)
qed

lemma mod_inv_update:
  assumes "mod_inv m k ord h0 n s" and i: "i < length (sy_devs s)" and "dev_of m ord n' d'" and "n \<le> n'"
    and new: "\<And>gss. devs_ok k (sy_globals s) (sy_heap s) (sy_devs s) gss \<Longrightarrow>
        \<exists>gs'. dev_inv h' d' gs' \<and> alloc_fits k (sy_globals s) d' \<and> without h' gs' = without (sy_heap s) (gss ! i) \<and>
          (\<forall>j < length (sy_devs s). j \<noteq> i \<longrightarrow> dev_inv h' (sy_devs s ! j) (gss ! j) \<and> footprint (gss ! j) \<inter> footprint gs' = {})"
  shows "mod_inv m k ord h0 n' (s\<lparr>sy_devs := (sy_devs s)[i := d'], sy_heap := h'\<rparr>)"
proof -
  from assms(1) obtain gss where gss: "devs_ok k (sy_globals s) (sy_heap s) (sy_devs s) gss" "without (sy_heap s) (concat gss) = h0"
    by (auto simp: mod_inv_def)
  obtain gs' where gs': "dev_inv h' d' gs'" "alloc_fits k (sy_globals s) d'" "without h' gs' = without (sy_heap s) (gss ! i)"
    "\<forall>j < length (sy_devs s). j \<noteq> i \<longrightarrow> dev_inv h' (sy_devs s ! j) (gss ! j) \<and> footprint (gss ! j) \<inter> footprint gs' = {}"
    using new [OF gss(1)] by blast
  have "devs_ok k (sy_globals s) h' ((sy_devs s)[i := d']) (gss[i := gs'])" "without h' (concat (gss[i := gs'])) = h0"
    using devs_ok_update [OF gss(1) i gs'(1-3)] gs'(4) gss(2) by auto
  moreover have "list_all (dev_of m ord n') ((sy_devs s)[i := d'])"
    using assms(1,3,4) by (auto simp: mod_inv_def list_all_iff dev_of_def dest!: set_update_subset_insert [THEN subsetD])
  ultimately show ?thesis using assms(1) by (auto simp: mod_inv_def)
qed

lemma mod_invD:
  assumes "mod_inv m k ord h0 n s" and "i < length (sy_devs s)"
  shows "globals_of m (sy_globals s)" "dev_of m ord n (sy_devs s ! i)"
    and "\<exists>gss. devs_ok k (sy_globals s) (sy_heap s) (sy_devs s) gss"
  using assms by (auto simp: mod_inv_def list_all_length)

section \<open>Each call keeps it\<close>

lemma sys_open:
  assumes inv: "mod_inv m k ord h0 n s" and i: "i < length (sy_devs s)" and fit: "pages_fit m k ord"
  shows "\<exists>s'. sys_call m k a (Open i fl) s = Inr (0, s') \<and> mod_inv m k ord h0 n s' \<and> length (sy_devs s') = length (sy_devs s)"
proof (cases "fl AND O_ACCMODE = O_WRONLY")
  case False
  then show ?thesis using inv scull_open_other [OF False] by (simp add: module_open)
next
  case True
  let ?d = "sy_devs s ! i" and ?g = "sy_globals s"
  let ?d' = "?d\<lparr>dsize := 0, data := NULL, qset := scull_qset_n ?g, quantum := scull_quantum ?g\<rparr>"
  obtain gss where gss: "devs_ok k ?g (sy_heap s) (sy_devs s) gss" using mod_invD(3) [OF inv i] by blast
  then have d: "dev_inv (sy_heap s) ?d (gss ! i)" "alloc_fits k ?g ?d" using i by (simp_all add: devs_ok_def)
  note t = trimmed_dev [OF mod_invD(1,2) [OF inv i] fit]
  let ?h' = "without (sy_heap s) (gss ! i)"
  have op: "scull_open ?g fl ?d (sy_heap s) = Inr (0, ?d', ?h')"
    by (rule scull_open_write [OF d(1) alloc_fits_cache [OF d(2)] True])
  have uniq: "gss' ! i = gss ! i" if "devs_ok k ?g (sy_heap s) (sy_devs s) gss'" for gss'
    using that i d(1) nodes_eq [of "sy_heap s" ?d] by (metis devs_ok_def)
  have "mod_inv m k ord h0 n (s\<lparr>sy_devs := (sy_devs s)[i := ?d'], sy_heap := ?h'\<rparr>)"
  proof (rule mod_inv_update [OF inv i t(3) order_refl])
    fix gss' assume ok: "devs_ok k ?g (sy_heap s) (sy_devs s) gss'"
    have "dev_inv ?h' (sy_devs s ! j) (gss' ! j)" if "j < length (sy_devs s)" "j \<noteq> i" for j
      unfolding uniq [OF ok, symmetric] using ok that i by (intro without_other(1)) (simp_all add: devs_ok_def)
    with t uniq [OF ok] show "\<exists>gs'. dev_inv ?h' ?d' gs' \<and> alloc_fits k ?g ?d' \<and> without ?h' gs' = without (sy_heap s) (gss' ! i) \<and>
        (\<forall>j < length (sy_devs s). j \<noteq> i \<longrightarrow> dev_inv ?h' (sy_devs s ! j) (gss' ! j) \<and> footprint (gss' ! j) \<inter> footprint gs' = {})"
      by (intro exI [of _ "[]"]) (simp add: footprint_def arr_addrs_def blk_addrs_def)
  qed
  with op show ?thesis by (simp add: module_open)
qed

lemma near_in_range:
  assumes inv: "dev_inv h d gs" and "dev_of m ord n d" and "0 \<le> pos" and "pos < 2 ^ 31" and b: "n + count < 2 ^ 62"
  shows "in_range d pos count"
proof -
  have "1 \<le> quantum d * qset d" using dev_invD(1) [OF inv] by (simp add: params_ok_def int_one_le_iff_zero_less)
  then have "(2 :: int) ^ 31 * 1 \<le> 2 ^ 31 * (quantum d * qset d)" by (intro mult_left_mono) simp_all
  then have "pos < 2 ^ 31 * (quantum d * qset d)" using assms(4) by linarith
  moreover have "int (n + count) < 2 ^ 62" using b by (simp add: of_nat_less_iff [symmetric] del: of_nat_less_iff of_nat_add)
  ultimately show ?thesis using assms(2-4) by (auto simp: in_range_def dev_of_def)
qed

lemma sys_access:
  assumes k: "kernel_ok k" and inv: "mod_inv m k ord h0 n s" and i: "i < length (sy_devs s)"
    and "0 \<le> access_pos c" and "access_pos c < 2 ^ 31" and b: "n + access_count c < 2 ^ 62"
  obtains d' h' where "access_step k (sy_globals s) c (sy_devs s ! i, sy_heap s) = Inr (d', h')"
    and "mod_inv m k ord h0 (n + access_count c) (s\<lparr>sy_devs := (sy_devs s)[i := d'], sy_heap := h'\<rparr>)"
proof -
  let ?d = "sy_devs s ! i" and ?g = "sy_globals s"
  note d = mod_invD(2) [OF inv i]
  have fact: "\<exists>d' h' gs'. access_step k ?g c (?d, sy_heap s) = Inr (d', h') \<and> dev_inv h' d' gs' \<and> same_shape ?d d' \<and>
      framed (sy_heap s) (gss ! i) h' gs' \<and> dsize ?d \<le> dsize d' \<and> dsize d' \<le> dsize ?d + int (access_count c)"
    if ok: "devs_ok k ?g (sy_heap s) (sy_devs s) gss" for gss
  proof -
    have di: "dev_inv (sy_heap s) ?d (gss ! i)" "alloc_fits k ?g ?d" using ok i by (simp_all add: devs_ok_def)
    have "in_range ?d (access_pos c) (access_count c)" by (rule near_in_range [OF di(1) d assms(4,5) b])
    then show ?thesis by (rule access_step_ok [OF k di]) blast
  qed
  obtain gss where gss: "devs_ok k ?g (sy_heap s) (sy_devs s) gss" using mod_invD(3) [OF inv i] by blast
  obtain d' h' where st: "access_step k ?g c (?d, sy_heap s) = Inr (d', h')" "same_shape ?d d'"
    "dsize ?d \<le> dsize d'" "dsize d' \<le> dsize ?d + int (access_count c)"
    using fact [OF gss] by blast
  have "dev_of m ord (n + access_count c) d'" using d st(2-4) by (simp add: dev_of_def same_shape_def)
  then have "mod_inv m k ord h0 (n + access_count c) (s\<lparr>sy_devs := (sy_devs s)[i := d'], sy_heap := h'\<rparr>)"
  proof (rule mod_inv_update [OF inv i])
    fix gss' assume ok: "devs_ok k ?g (sy_heap s) (sy_devs s) gss'"
    obtain gs' where gs': "dev_inv h' d' gs'" "framed (sy_heap s) (gss' ! i) h' gs'"
      using fact [OF ok] st(1) by auto
    have "alloc_fits k ?g d'" using ok i same_shape_accesses(3) [OF st(2), of k ?g] by (simp add: devs_ok_def)
    moreover have "dev_inv h' (sy_devs s ! j) (gss' ! j) \<and> footprint (gss' ! j) \<inter> footprint gs' = {}"
      if "j < length (sy_devs s)" "j \<noteq> i" for j
      using framed_other [OF gs'(2), of "sy_devs s ! j" "gss' ! j"] ok that i by (simp add: devs_ok_def)
    ultimately show "\<exists>gs'. dev_inv h' d' gs' \<and> alloc_fits k ?g d' \<and> without h' gs' = without (sy_heap s) (gss' ! i) \<and>
        (\<forall>j < length (sy_devs s). j \<noteq> i \<longrightarrow> dev_inv h' (sy_devs s ! j) (gss' ! j) \<and> footprint (gss' ! j) \<inter> footprint gs' = {})"
      using gs'(1) without_framed [OF gs'(2)] by blast
  qed simp
  with st(1) show thesis by (rule that)
qed

lemma sys_ioctl:
  assumes inv: "mod_inv m k ord h0 n s" and "m = M_scull \<longrightarrow> \<not> cap"
  shows "\<exists>v s'. sys_call m k a (Ioctl i cap cmd arg) s = Inr (v, s') \<and> mod_inv m k ord h0 n s' \<and> sy_devs s' = sy_devs s \<and>
    (m \<noteq> M_scull \<longrightarrow> v = - ENOTTY \<and> s' = s)"
proof (cases "m = M_scull")
  case False
  with inv show ?thesis by (simp add: module_io)
next
  case True
  obtain v g u where io: "scull_ioctl a False cmd arg (sy_globals s) (sy_user s) = (v, g, u)" by (metis prod.exhaust)
  have ok: "globals_of m g"
    using ioctl_unprivileged [OF io] inv True
    by (auto simp: mod_inv_def globals_of_def globals_ok_def QUANTUM_SIZE_def QSET_SIZE_def)
  have "dtype d = scull_type_basic" if "d \<in> set (sy_devs s)" for d
    using inv that True by (auto simp: mod_inv_def list_all_iff dev_of_def)
  then have "devs_ok k g (sy_heap s) (sy_devs s) gss" if "devs_ok k (sy_globals s) (sy_heap s) (sy_devs s) gss" for gss
    using that by (auto simp: devs_ok_def alloc_fits_def)
  with inv ok have "mod_inv m k ord h0 n (s\<lparr>sy_globals := g, sy_user := u\<rparr>)" by (auto simp: mod_inv_def)
  with True io assms(2) show ?thesis by (simp add: module_io)
qed

lemma sys_step:
  assumes k: "kernel_ok k" and inv: "mod_inv m k ord h0 n s" and fit: "pages_fit m k ord"
    and c: "call_dev c < length (sy_devs s)" "call_near c" "n + call_bytes c < 2 ^ 62" and p: "m = M_scull \<longrightarrow> \<not> privileged c"
  shows "\<exists>v s'. sys_call m k a c s = Inr (v, s') \<and> mod_inv m k ord h0 (n + call_bytes c) s' \<and> length (sy_devs s') = length (sy_devs s)"
proof (cases c)
  case (Open i fl)
  then have "i < length (sy_devs s)" "call_bytes c = 0" using c by simp_all
  then show ?thesis using sys_open [OF inv _ fit, of i a fl] by (auto simp del: sys_call.simps simp: Open)
next
  case (Read i intr count pos)
  obtain d' h' where "access_step k (sy_globals s) (Rd intr count pos) (sy_devs s ! i, sy_heap s) = Inr (d', h')"
    "mod_inv m k ord h0 (n + count) (s\<lparr>sy_devs := (sy_devs s)[i := d'], sy_heap := h'\<rparr>)"
    by (rule sys_access [OF k inv, of i "Rd intr count pos"]) (use c Read in simp_all)
  then show ?thesis by (auto simp: Read module_io Let_def)
next
  case (Write i intr ubuf count pos)
  obtain d' h' where "access_step k (sy_globals s) (Wr intr ubuf count pos) (sy_devs s ! i, sy_heap s) = Inr (d', h')"
    "mod_inv m k ord h0 (n + count) (s\<lparr>sy_devs := (sy_devs s)[i := d'], sy_heap := h'\<rparr>)"
    by (rule sys_access [OF k inv, of i "Wr intr ubuf count pos"]) (use c Write in simp_all)
  then show ?thesis by (auto simp: Write module_io Let_def)
next
  case (Ioctl i cap cmd arg)
  then show ?thesis using sys_ioctl [OF inv, of cap a i cmd arg] p by (auto simp del: sys_call.simps)
qed (use inv in simp_all)

lemma run_calls_ok:
  assumes "kernel_ok k" and "pages_fit m k ord" and "mod_inv m k ord h0 n s" and "n + sum_list (map call_bytes cs) < 2 ^ 62"
    and "list_all (\<lambda>c. call_dev c < length (sy_devs s) \<and> call_near c) cs" and "m = M_scull \<longrightarrow> list_all (\<lambda>c. \<not> privileged c) cs"
  shows "\<exists>vs s' n'. run_calls m k a cs s = Inr (vs, s') \<and> length vs = length cs \<and> mod_inv m k ord h0 n' s'"
  using assms(3-)
proof (induction cs arbitrary: s n)
  case Nil
  then show ?case by auto
next
  case (Cons c cs)
  have "\<exists>v s1. sys_call m k a c s = Inr (v, s1) \<and> mod_inv m k ord h0 (n + call_bytes c) s1 \<and> length (sy_devs s1) = length (sy_devs s)"
    by (rule sys_step [OF assms(1) Cons.prems(1) assms(2)]) (use Cons.prems in auto)
  then obtain v s1 where 1: "sys_call m k a c s = Inr (v, s1)" "mod_inv m k ord h0 (n + call_bytes c) s1"
    "length (sy_devs s1) = length (sy_devs s)" by blast
  with Cons.IH [OF 1(2)] Cons.prems show ?case by (auto simp: add.assoc)
qed

text \<open>A module that has just been loaded.\<close>

definition loaded_sys :: "module \<Rightarrow> kernel \<Rightarrow> nat \<Rightarrow> heap \<Rightarrow> 'u \<Rightarrow> 'u sys" where
  "loaded_sys m k ord h u = \<lparr>sy_globals = cached m scull_globals_init,
     sy_devs = replicate scull_nr_devs (init_dev m k ord scull_globals_init), sy_heap = h, sy_user = u\<rparr>"

lemma loaded_inv:
  assumes "module_params_ok m k ord scull_globals_init"
  shows "mod_inv m k ord h 0 (loaded_sys m k ord h u)"
proof -
  have "dev_of m ord 0 (init_dev m k ord scull_globals_init)" by (cases m) (simp_all add: dev_of_def init_dev_def zero_dev_def)
  moreover have "globals_of m (cached m scull_globals_init)"
    by (simp add: globals_of_def globals_ok_def cached_def scull_globals_init_def QUANTUM_SIZE_def QSET_SIZE_def)
  moreover have "without h (concat (replicate n [])) = h" for n by simp
  ultimately show ?thesis using fresh_devs_ok [OF assms, of h scull_nr_devs]
    by (auto simp: mod_inv_def loaded_sys_def list_all_iff intro!: exI [of _ "replicate scull_nr_devs []"])
qed

lemma zero_quantum_crashes:
  assumes "access_ok a u 0 0"
  shows "run_calls M_scull k a [Ioctl 0 True SCULL_IOCTQUANTUM 0, Open 0 1, Write 0 False [1] 1 0] (loaded_sys M_scull k ord h u) = Inl Div_by_zero"
proof -
  have io: "scull_ioctl a True SCULL_IOCTQUANTUM 0 g u = (0, g\<lparr>scull_quantum := 0\<rparr>, u)" for g
    using assms by (simp add: scull_ioctl_def ioc_numbers IOC_TYPE_def IOC_NR_def IOC_SIZE_def SCULL_IOC_MAGIC_def SCULL_IOC_MAXNR_def
        int_of_arg_def s32_def)
  let ?d = "init_dev M_scull k ord scull_globals_init"
  have "dev_inv h ?d []" using init_dev_ok(1) [OF default_params_ok [of M_scull]] by simp
  then have "scull_open (g\<lparr>scull_quantum := 0\<rparr>) 1 ?d h = Inr (0, ?d\<lparr>dsize := 0, data := NULL, qset := scull_qset_n g, quantum := 0\<rparr>, h)" for g
    using scull_open_write [of h ?d "[]" "g\<lparr>scull_quantum := 0\<rparr>" 1]
    by (simp add: cache_ready_def init_dev_def O_ACCMODE_def O_WRONLY_def)
  then show ?thesis
    by (simp add: loaded_sys_def module_io module_open io scull_nr_devs_def nth_append scull_write_def cdiv_def Let_def s32_def)
qed

section \<open>Properties\<close>

text \<open>
  C3. Ordinary users cannot crash the drivers, one call at a time. After scull, scullc or scullp is loaded, any sequence of
  system calls on its devices (opens that truncate or not, reads and writes that are interrupted, fail or succeed at positions below 2 GiB,
  any ioctl without the capability, seeks, closes) runs without a fault, and unloading
  afterwards gives back every block. For scullc and scullp the capability does not matter, since they have no ioctl. For scull it
  does: three calls of a privileged user divide by zero.
\<close>

theorem unprivileged_calls_safe:
  assumes "kernel_ok k" and "module_params_ok m k ord scull_globals_init" and "pages_fit m k ord"
    and "calls_ok scull_nr_devs cs" and "m = M_scull \<longrightarrow> list_all (\<lambda>c. \<not> privileged c) cs"
  shows "(\<exists>vs s'. run_calls m k a cs (loaded_sys m k ord h u) = Inr (vs, s') \<and> length vs = length cs \<and>
      (\<forall>ms. ms_devices ms = Array_live (sy_devs s') \<and> ms_globals ms = sy_globals s' \<longrightarrow>
         (\<exists>ms'. unload_devices ms (sy_heap s') = Inr (ms', h)))) \<and>
    (access_ok a u 0 0 \<longrightarrow>
      run_calls M_scull k a [Ioctl 0 True SCULL_IOCTQUANTUM 0, Open 0 1, Write 0 False [1] 1 0] (loaded_sys M_scull k ord h u) = Inl Div_by_zero)"
proof
  have "length (sy_devs (loaded_sys m k ord h u)) = scull_nr_devs" by (simp add: loaded_sys_def)
  then obtain vs s' n' where r: "run_calls m k a cs (loaded_sys m k ord h u) = Inr (vs, s')" "length vs = length cs" "mod_inv m k ord h n' s'"
    using run_calls_ok [OF assms(1,3) loaded_inv [OF assms(2)], of cs h u a] assms(4,5) by (auto simp: calls_ok_def)
  then obtain gss where "devs_ok k (sy_globals s') (sy_heap s') (sy_devs s') gss" "without (sy_heap s') (concat gss) = h"
    by (auto simp: mod_inv_def)
  then have "trim_all (sy_globals s') (sy_devs s') (sy_heap s') = Inr h" using trim_all_ok by metis
  with r(1,2) show "\<exists>vs s'. run_calls m k a cs (loaded_sys m k ord h u) = Inr (vs, s') \<and> length vs = length cs \<and>
      (\<forall>ms. ms_devices ms = Array_live (sy_devs s') \<and> ms_globals ms = sy_globals s' \<longrightarrow>
         (\<exists>ms'. unload_devices ms (sy_heap s') = Inr (ms', h)))"
    by (auto simp: unload_devices_def)
qed (intro impI zero_quantum_crashes)

theorem unprivileged_calls_safe_witness:
  "\<exists>vs s'. run_calls M_scullp simple_kernel mapped_user
      [Open 1 1, Write 1 False [1, 2] 2 7, Ioctl 1 True SCULL_IOCTQUANTUM 0, Open 1 1, Write 1 False [3] 1 0, Read 2 False 5 3, Close 1]
      (loaded_sys M_scullp simple_kernel 0 empty_heap Map.empty) = Inr (vs, s') \<and> length vs = 7"
proof -
  have "module_params_ok M_scullp simple_kernel 0 scull_globals_init" "pages_fit M_scullp simple_kernel 0"
    by (simp_all add: module_params_ok_def pages_fit_def globals_ok_def scull_globals_init_def QUANTUM_SIZE_def QSET_SIZE_def simple_kernel_def)
  from unprivileged_calls_safe [OF simple_kernel_ok this, of
      "[Open 1 1, Write 1 False [1, 2] 2 7, Ioctl 1 True SCULL_IOCTQUANTUM 0, Open 1 1, Write 1 False [3] 1 0, Read 2 False 5 3, Close 1]"
      mapped_user empty_heap Map.empty]
  show ?thesis by (auto simp: calls_ok_def scull_nr_devs_def)
qed

end
