(* ===== verification/Scull_Race.thy ===== *)
theory Scull_Race
  imports Scull_File
begin

text \<open>
  What the semaphore of a scull device does not protect. \<open>scull_open\<close> trims the device without taking it, and
  \<open>scull_read\<close> and \<open>scull_write\<close> read the parameters before they take it. The lemmas say where the first halves of the
  handlers stop on a well-formed device, and what the second halves do when an open has run in between.
\<close>

section \<open>Where the first halves stop\<close>

lemma read_locate_ok:
  assumes inv: "dev_inv h d gs" and rng: "in_range d pos count" and nn: "blk_at d gs (nat pos) \<noteq> NULL"
  shows "read_locate k d (down d) h pos =
    Inr (Some (g_addr (gs ! item_of d (nat pos)), int (slot_of d (nat pos)), int (off_of d (nat pos))), down d, h)"
proof -
  let ?p = "nat pos" and ?i = "item_of d (nat pos)"
  have pos: "0 \<le> pos" "pos < 2 ^ 31 * (quantum d * qset d)" using rng by (simp_all add: in_range_def)
  note ar = position_arith [OF dev_invD(1) [OF inv] pos]
  have i: "?i < length gs" using nn by (simp add: blk_at_def split: if_splits)
  obtain q where "scull_follow k (data d) (int ?i) h = Inr (g_addr (gs ! ?i), data d, h)"
    "get_qset h (g_addr (gs ! ?i)) = Inr q" "g_addr (gs ! ?i) \<noteq> NULL"
    "if qs_data q = NULL then blk_at d gs ?p = NULL else get_ptr h (qs_data q) (int (slot_of d ?p)) = Inr (blk_at d gs ?p)"
    by (rule located [OF inv i])
  moreover have "data (down d) = data d" "(down d)\<lparr>data := data d\<rparr> = down d" by (simp_all add: down_def)
  ultimately show ?thesis using nn by (simp add: read_locate_def Let_def ar split: if_splits)
qed

text \<open>Once the node is freed, the second halves load from freed memory.\<close>

lemma trimmed_access:
  assumes "dptr \<in> set (map g_addr gs)" and "dptr \<noteq> NULL"
  shows "get_qset (without h gs) dptr = Inl Bad_access"
  using assms by (simp add: get_qset_def load_def without_def)

lemma dev_inv_node:
  assumes "dev_inv h d gs" and "i < length gs"
  shows "g_addr (gs ! i) \<in> set (map g_addr gs)" "g_addr (gs ! i) \<noteq> NULL"
proof -
  show "g_addr (gs ! i) \<in> set (map g_addr gs)" using assms(2) by simp
  obtain as bs where "gs = as @ gs ! i # bs" using split_at [OF assms(2)] by blast
  then show "g_addr (gs ! i) \<noteq> NULL" using chain_node dev_invD(2) [OF assms(1)] by metis
qed

section \<open>A block smaller than the quantum the writer knows\<close>

lemma scull_alloc_shape: "same_shape d d' \<Longrightarrow> scull_alloc k g d' = scull_alloc k g d"
  by (simp add: fun_eq_iff scull_alloc_def same_shape_def cong: scull_type.case_cong)

lemma small_block_faults:
  assumes "kernel_ok k" and "arr \<noteq> NULL" and "fmlookup (hp_ptrs h) arr = Some ps" and "s < length ps" and "ps ! s = NULL"
    and "scull_alloc k g d h = Inr (new_blk k al n a h)" and "a \<noteq> NULL" and "n < u64 quant"
  shows "ensure_block k g d quant arr (int s) h = Inl Bad_access"
  using assms
  by (simp add: ensure_block_def get_ptr_def set_ptr_def load_def new_blk_def write_blk_def poke_def kernel_okD)

text \<open>
  A write to an empty device, with the parameters \<open>d0\<close> read before the semaphore was taken: the memset of
  a whole quantum reaches beyond the block.
\<close>

lemma small_block_write:
  assumes k: "kernel_ok k" and plenty: "plenty k" and par: "params_ok d0" and "data d = NULL"
    and pos: "0 \<le> pos" "pos < 2 ^ 31 * (quantum d0 * qset d0)"
    and small: "\<And>h. \<exists>n<nat (quantum d0). scull_alloc k g d h = Inr (new_blk k (dev_allocator d) n (blk_source k d h) h)"
  shows "scull_write k g False d0 d h ubuf count pos = Inl Bad_access"
proof -
  let ?i = "item_of d0 (nat pos)" and ?s = "slot_of d0 (nat pos)"
  note ar = position_arith [OF par pos, unfolded mult.commute [of "quantum d0"]]
  have nz: "kmalloc k h n \<noteq> NULL" for h n using plentyD(1) [OF plenty] by simp
  have "chain h NULL [] NULL" by simp
  then obtain r head h1 gs1 where f: "scull_follow k NULL (int ?i) h = Inr (r, head, h1)"
    "if r = NULL then kmalloc k h1 16 = NULL else \<exists>q. fmlookup (hp_qset h1) r = Some q \<and> qs_data q = NULL"
    by (rule scull_follow_miss [OF k, of _ _ _ ?i]) auto
  then obtain q where r: "r \<noteq> NULL" and q: "fmlookup (hp_qset h1) r = Some q" "qs_data q = NULL"
    using nz by metis
  define arr where "arr = kmalloc k h1 (u64 (8 * qset d0))"
  obtain h2 where a: "ensure_array k (qset d0) r h1 = Inr (arr, h2)"
    "fmlookup (hp_ptrs h2) arr = Some (replicate (nat (qset d0)) NULL)"
    using r q nz array_size [OF par]
    by (simp add: ensure_array_def alloc_ptrs_def arr_def get_qset_def put_qset_def load_def Let_def)
  obtain n where n: "n < nat (quantum d0)" "scull_alloc k g d h2 = Inr (new_blk k (dev_allocator d) n (blk_source k d h2) h2)"
    using small by blast
  have "ensure_block k g ((down d)\<lparr>data := head\<rparr>) (quantum d0) arr (int ?s) h2 = Inl Bad_access"
    using n nz plentyD(2) [OF plenty] slot_bound [OF par] scull_alloc_shape [OF held_shape [of d head], of k g]
    by (intro small_block_faults [OF k _ a(2)]) (simp_all add: arr_def u64_quantum [OF par])
  moreover have "data (down d) = NULL" "arr \<noteq> NULL" using assms(4) nz by (simp_all add: down_def arr_def)
  ultimately show ?thesis
    using f(1) r a(1) by (simp add: scull_write_def Let_def ar)
qed

section \<open>Properties\<close>

text \<open>
  C8. What the missing lock in \<open>scull_open\<close> costs. An open for writing that runs while a reader or a writer,
  holding the semaphore, is about to copy succeeds and frees the list under it: the other process then
  follows a pointer into freed memory. And a writer that waited for the semaphore while the device
  was reopened with a smaller quantum clears a block of the old size in a block of the new one.
\<close>

theorem open_during_access:
  assumes "kernel_ok k" and "plenty k" and "dev_inv h d gs" and "alloc_fits k g d" and "in_range d pos count"
    and "fl AND O_ACCMODE = O_WRONLY"
  shows "(pos < dsize d \<and> blk_at d gs (nat pos) \<noteq> NULL \<longrightarrow>
      (\<exists>dptr s q d2 h2. read_locate k d (down d) h pos = Inr (Some (dptr, s, q), down d, h) \<and>
        scull_open g fl (down d) h = Inr (0, d2, h2) \<and>
        read_rest k (s64 (dsize d - pos)) (quantum d) dptr s q count pos d2 h2 = Inl Bad_access)) \<and>
    (\<exists>dptr s q d1 h1 d2 h2. write_locate k g d (down d) h pos = Inr (Some (dptr, s, q), d1, h1) \<and>
        scull_open g fl d1 h1 = Inr (0, d2, h2) \<and>
        write_rest k dptr s q ubuf count pos d2 h2 = Inl Bad_access) \<and>
    (dtype d = scull_type_basic \<and> 0 < scull_quantum g \<and> scull_quantum g < quantum d \<longrightarrow>
      (\<exists>d2 h2. scull_open g fl d h = Inr (0, d2, h2) \<and> scull_write k g False d d2 h2 ubuf count pos = Inl Bad_access))"
proof (intro conjI impI)
  let ?d = "\<lambda>d. d\<lparr>dsize := 0, data := NULL, qset := scull_qset_n g, quantum := scull_quantum g\<rparr>"
  have cache: "cache_ready g d" using assms(4) by (rule alloc_fits_cache)
  have op: "scull_open g fl d1 h1 = Inr (0, ?d d1, without h1 gs1)" if "dev_inv h1 d1 gs1" "dtype d1 = dtype d" for d1 h1 gs1
    using that cache assms(6) by (intro scull_open_write) (simp_all add: cache_ready_def)
  {
    assume at: "pos < dsize d \<and> blk_at d gs (nat pos) \<noteq> NULL"
    then have "item_of d (nat pos) < length gs" by (simp add: blk_at_def split: if_splits)
    note nd = dev_inv_node [OF assms(3) this]
    show "\<exists>dptr s q d2 h2. read_locate k d (down d) h pos = Inr (Some (dptr, s, q), down d, h) \<and>
        scull_open g fl (down d) h = Inr (0, d2, h2) \<and>
        read_rest k (s64 (dsize d - pos)) (quantum d) dptr s q count pos d2 h2 = Inl Bad_access"
      using read_locate_ok [OF assms(3,5)] at op [of h "down d" gs] assms(3) trimmed_access [OF nd]
      by (intro exI conjI) (auto simp: read_rest_def down_def)
  next
    obtain dptr head h1 gs1 s q where w: "write_locate k g d (down d) h pos = Inr (Some (dptr, s, q), (down d)\<lparr>data := head\<rparr>, h1)"
      "dev_inv h1 ((down d)\<lparr>data := head\<rparr>) gs1" "dptr \<in> set (map g_addr gs1)" "dptr \<noteq> NULL"
      by (rule write_locate_ok [OF assms(1,3-5)]) (use plentyD(3) [OF assms(2)] in \<open>auto simp: evolves_def\<close>)
    then show "\<exists>dptr s q d1 h1 d2 h2. write_locate k g d (down d) h pos = Inr (Some (dptr, s, q), d1, h1) \<and>
        scull_open g fl d1 h1 = Inr (0, d2, h2) \<and> write_rest k dptr s q ubuf count pos d2 h2 = Inl Bad_access"
      using op [OF w(2)] trimmed_access [OF w(3,4)]
      by (intro exI conjI) (auto simp: write_rest_def down_def)
  next
    assume small: "dtype d = scull_type_basic \<and> 0 < scull_quantum g \<and> scull_quantum g < quantum d"
    note par = dev_invD(1) [OF assms(3)]
    have "u64 (scull_quantum g) < nat (quantum d)" using small params_bounds(3) [OF par] by (simp add: u64_id)
    then have "scull_write k g False d (?d d) (without h gs) ubuf count pos = Inl Bad_access"
      using small assms(5)
      by (intro small_block_write [OF assms(1,2) par]) (auto simp: in_range_def scull_alloc_def dev_allocator_def blk_source_def Let_def)
    then show "\<exists>d2 h2. scull_open g fl d h = Inr (0, d2, h2) \<and> scull_write k g False d d2 h2 ubuf count pos = Inl Bad_access"
      using op [OF assms(3) refl] by blast
  }
qed

theorem open_during_access_witness:
  "(\<exists>dptr s q d2 h2. read_locate simple_kernel demo_dev (down demo_dev) demo_heap 0 = Inr (Some (dptr, s, q), down demo_dev, demo_heap) \<and>
      scull_open scull_globals_init 1 (down demo_dev) demo_heap = Inr (0, d2, h2) \<and>
      read_rest simple_kernel (s64 (dsize demo_dev - 0)) (quantum demo_dev) dptr s q 2 0 d2 h2 = Inl Bad_access) \<and>
   (\<exists>d2 h2. scull_open (scull_globals_init\<lparr>scull_quantum := 1\<rparr>) 1 demo_dev demo_heap = Inr (0, d2, h2) \<and>
      scull_write simple_kernel (scull_globals_init\<lparr>scull_quantum := 1\<rparr>) False demo_dev d2 h2 [7] 1 0 = Inl Bad_access)"
  using open_during_access [OF simple_kernel_ok simple_kernel_plenty(1) demo_inv demo_fits demo_range, of 0 2 1 scull_globals_init "[7]"]
    open_during_access [OF simple_kernel_ok simple_kernel_plenty(1) demo_inv demo_fits demo_range, of 0 1 1
      "scull_globals_init\<lparr>scull_quantum := 1\<rparr>" "[7]"]
  by (simp add: O_ACCMODE_def O_WRONLY_def demo_dev_def demo_nodes_def blk_at_def item_of_def slot_of_def isz_def)

end
