(* ===== verification/Printf.thy ===== *)
theory Printf
  imports Kernel
begin

text \<open>
  The part of the kernel's \<open>sprintf\<close> that the drivers use: the conversions
  \<^verbatim>\<open>%d\<close>, \<^verbatim>\<open>%i\<close> and \<^verbatim>\<open>%li\<close> (decimal), their padded forms,
  \<^verbatim>\<open>%lx\<close> and \<^verbatim>\<open>%px\<close> (hexadecimal), and the store of the text with
  its final zero byte into a buffer on the heap. A text that does not fit is a
  store outside the block.
\<close>

section \<open>Conversions\<close>

definition nl :: string where "nl = [CHR 0x0A]"

definition digit :: "nat \<Rightarrow> char" where
  "digit n = (if n < 10 then char_of (48 + n) else char_of (87 + n))"

fun dec_nat :: "nat \<Rightarrow> string" where
  "dec_nat n = (if n < 10 then [digit n] else dec_nat (n div 10) @ [digit (n mod 10)])"

declare dec_nat.simps [simp del]

definition dec :: "int \<Rightarrow> string" where
  "dec i = (if i < 0 then CHR ''-'' # dec_nat (nat (- i)) else dec_nat (nat i))"

definition pad :: "char \<Rightarrow> nat \<Rightarrow> string \<Rightarrow> string" where
  "pad c w s = replicate (w - length s) c @ s"

fun hex :: "nat \<Rightarrow> nat \<Rightarrow> string" where
  \<comment> \<open>the last \<open>w\<close> hexadecimal digits\<close>
  "hex 0 n = []"
| "hex (Suc w) n = hex w (n div 16) @ [digit (n mod 16)]"

definition px :: "addr \<Rightarrow> string" where
  "px p = hex 16 p"

section \<open>Storing text\<close>

definition text_bytes :: "string \<Rightarrow> byte list" where
  "text_bytes s = map of_char s"

definition sprintf_at :: "addr \<Rightarrow> int \<Rightarrow> string \<Rightarrow> heap \<Rightarrow> (int \<times> heap) res" where
  \<comment> \<open>\<open>len += sprintf(buf + len, ...)\<close>: the new \<open>len\<close> and the heap; the buffers are so small that
      \<open>len\<close> leaves the block long before it leaves the range of \<open>int\<close>\<close>
  "sprintf_at p len s h =
     bindE (write_blk h p len (text_bytes s @ [0])) (\<lambda>h'. Inr (len + int (length s), h'))"

definition strlen :: "heap \<Rightarrow> addr \<Rightarrow> nat res" where
  "strlen h p = bindE (load (hp_blk h) p) (\<lambda>(al, bs).
     let n = length (takeWhile (\<lambda>b. b \<noteq> 0) bs) in if n < length bs then Inr n else Inl Bad_access)"

section \<open>Lengths\<close>

lemma length_hex [simp]: "length (hex w n) = w"
  by (induction w arbitrary: n) simp_all

lemma length_px [simp]: "length (px p) = 16"
  by (simp add: px_def)

lemma length_pad: "length (pad c w s) = max w (length s)"
  by (simp add: pad_def)

lemma length_text_bytes [simp]: "length (text_bytes s) = length s"
  by (simp add: text_bytes_def)

lemma text_bytes_append [simp]: "text_bytes (s @ t) = text_bytes s @ text_bytes t"
  by (simp add: text_bytes_def)

lemma text_bytes_Nil [simp]: "text_bytes [] = []"
  by (simp add: text_bytes_def)

lemma dec_nat_pos: "0 < length (dec_nat n)"
  by (subst dec_nat.simps) simp

lemma dec_nat_length: "n < 10 ^ d \<Longrightarrow> 0 < d \<Longrightarrow> length (dec_nat n) \<le> d"
proof (induction n arbitrary: d rule: dec_nat.induct)
  case (1 n)
  show ?case
  proof (cases "n < 10")
    case True
    with 1 show ?thesis by (subst dec_nat.simps) simp
  next
    case False
    with "1.prems" obtain e where d: "d = Suc e" "0 < e" by (cases d; cases "d - 1") auto
    have "n div 10 < 10 ^ e" using "1.prems"(1) d by (simp add: less_mult_imp_div_less mult.commute)
    with "1.IH" [OF False this d(2)] False d show ?thesis by (subst dec_nat.simps) simp
  qed
qed

lemma dec_nat_length_ge: "10 ^ d \<le> n \<Longrightarrow> d < length (dec_nat n)"
proof (induction n arbitrary: d rule: dec_nat.induct)
  case (1 n)
  show ?case
  proof (cases d)
    case 0
    then show ?thesis using dec_nat_pos by simp
  next
    case (Suc e)
    then have "\<not> n < 10" using "1.prems" by (auto simp: not_less intro: order_trans [rotated])
    moreover have "10 ^ e \<le> n div 10" using "1.prems" Suc by (simp add: less_eq_div_iff_mult_less_eq mult.commute)
    ultimately show ?thesis using "1.IH" [of e] Suc by (subst dec_nat.simps) simp
  qed
qed

lemma dec_length: "\<bar>i\<bar> < 10 ^ d \<Longrightarrow> 0 < d \<Longrightarrow> length (dec i) \<le> Suc d"
  using dec_nat_length [of "nat i" d] dec_nat_length [of "nat (- i)" d]
  by (auto simp: dec_def nat_less_iff)

lemma dec_pos: "0 < length (dec i)"
  using dec_nat_pos [of "nat i"] by (auto simp: dec_def)

section \<open>Text in a buffer\<close>

text \<open>
  The buffer at \<open>p\<close> has room for \<open>cap\<close> bytes and starts with the text \<open>s\<close>; the rest of the heap is
  that of \<open>h0\<close>. A printer \<open>f\<close> of the text \<open>t\<close> appends it when it fits together with its
  final zero byte, and is a fault otherwise.
\<close>

definition holds_text :: "heap \<Rightarrow> addr \<Rightarrow> nat \<Rightarrow> string \<Rightarrow> heap \<Rightarrow> bool" where
  "holds_text h0 p cap s h \<longleftrightarrow> p \<noteq> NULL \<and> length s < cap \<and> hp_qset h = hp_qset h0 \<and> hp_ptrs h = hp_ptrs h0 \<and>
     (\<forall>a. a \<noteq> p \<longrightarrow> fmlookup (hp_blk h) a = fmlookup (hp_blk h0) a) \<and>
     (\<exists>bs. fmlookup (hp_blk h) p = Some (By_kmalloc, bs) \<and> length bs = cap \<and> take (length s) bs = text_bytes s \<and>
           (s = [] \<or> bs ! length s = 0))"

definition prints :: "heap \<Rightarrow> addr \<Rightarrow> nat \<Rightarrow> (int \<Rightarrow> heap \<Rightarrow> (int \<times> heap) res) \<Rightarrow> string \<Rightarrow> bool" where
  "prints h0 p cap f t \<longleftrightarrow> (\<forall>s h. holds_text h0 p cap s h \<longrightarrow>
     (if length s + length t < cap
      then \<exists>h'. f (int (length s)) h = Inr (int (length (s @ t)), h') \<and> holds_text h0 p cap (s @ t) h'
      else f (int (length s)) h = Inl Bad_access))"

lemma prints_fits:
  assumes "prints h0 p cap f t" and "holds_text h0 p cap s h" and "length s + length t < cap"
  obtains h' where "f (int (length s)) h = Inr (int (length (s @ t)), h')" "holds_text h0 p cap (s @ t) h'"
  using assms(1) [unfolded prints_def, rule_format, OF assms(2)] assms(3) by auto

lemma prints_full:
  assumes "prints h0 p cap f t" and "holds_text h0 p cap s h" and "cap \<le> length s + length t"
  shows "f (int (length s)) h = Inl Bad_access"
  using assms(1) [unfolded prints_def, rule_format, OF assms(2)] assms(3) by simp

lemma prints_sprintf: "prints h0 p cap (\<lambda>len h. sprintf_at p len t h) t"
  unfolding prints_def
proof (intro allI impI)
  fix s h assume ht: "holds_text h0 p cap s h"
  then obtain bs where b: "p \<noteq> NULL" "fmlookup (hp_blk h) p = Some (By_kmalloc, bs)" "length bs = cap"
    "take (length s) bs = text_bytes s" by (auto simp: holds_text_def)
  let ?bs = "overwrite bs (length s) (text_bytes t @ [0])"
  let ?h = "h\<lparr>hp_blk := fmupd p (By_kmalloc, ?bs) (hp_blk h)\<rparr>"
  show "if length s + length t < cap
      then \<exists>h'. sprintf_at p (int (length s)) t h = Inr (int (length (s @ t)), h') \<and> holds_text h0 p cap (s @ t) h'
      else sprintf_at p (int (length s)) t h = Inl Bad_access"
  proof (cases "length s + length t < cap")
    case True
    then have "poke bs (int (length s)) (text_bytes t @ [0]) = Inr ?bs" using b by (simp add: poke_def)
    then have "sprintf_at p (int (length s)) t h = Inr (int (length (s @ t)), ?h)"
      using b by (simp add: sprintf_at_def write_blk_def load_def)
    moreover have "?bs ! (length s + length t) = 0" using True b(3) by (simp add: overwrite_def nth_append)
    then have "holds_text h0 p cap (s @ t) ?h"
      using ht True b by (auto simp: holds_text_def overwrite_def)
    ultimately show ?thesis using True by simp
  next
    case False
    with b show ?thesis by (simp add: sprintf_at_def write_blk_def load_def poke_def)
  qed
qed

lemma prints_skip: "prints h0 p cap (\<lambda>len h. Inr (len, h)) []"
  by (simp add: prints_def holds_text_def)

lemma prints_seq:
  assumes "prints h0 p cap f t" and "prints h0 p cap g u"
  shows "prints h0 p cap (\<lambda>len h. bindE (f len h) (\<lambda>(len', h'). g len' h')) (t @ u)"
  unfolding prints_def
proof (intro allI impI)
  fix s h assume ht: "holds_text h0 p cap s h"
  show "if length s + length (t @ u) < cap
      then \<exists>h'. bindE (f (int (length s)) h) (\<lambda>(len', h'). g len' h') = Inr (int (length (s @ t @ u)), h') \<and>
        holds_text h0 p cap (s @ t @ u) h'
      else bindE (f (int (length s)) h) (\<lambda>(len', h'). g len' h') = Inl Bad_access"
  proof (cases "length s + length t < cap")
    case True
    then obtain h1 where 1: "f (int (length s)) h = Inr (int (length (s @ t)), h1)" "holds_text h0 p cap (s @ t) h1"
      by (rule prints_fits [OF assms(1) ht])
    from assms(2) [unfolded prints_def, rule_format, OF this(2)] have "if length (s @ t) + length u < cap
      then \<exists>h'. g (int (length (s @ t))) h1 = Inr (int (length ((s @ t) @ u)), h') \<and> holds_text h0 p cap ((s @ t) @ u) h'
      else g (int (length (s @ t))) h1 = Inl Bad_access" .
    then show ?thesis unfolding 1(1) by (simp add: add.assoc split: if_splits)
  next
    case False
    then have "f (int (length s)) h = Inl Bad_access" by (intro prints_full [OF assms(1) ht]) simp
    with False show ?thesis by simp
  qed
qed

text \<open>A successful \<open>sprintf_at\<close> moves forward inside a block whose size it keeps: loops over it end.\<close>

definition blk_size :: "heap \<Rightarrow> addr \<Rightarrow> nat" where
  "blk_size h p = (case fmlookup (hp_blk h) p of None \<Rightarrow> 0 | Some (al, bs) \<Rightarrow> length bs)"

lemma sprintf_at_moves:
  assumes "sprintf_at p len s h = Inr (len', h')"
  shows "0 \<le> len" "len' = len + int (length s)" "len' < int (blk_size h p)" "blk_size h' p = blk_size h p"
proof -
  obtain bs al bs' where b: "fmlookup (hp_blk h) p = Some (al, bs)" "poke bs len (text_bytes s @ [0]) = Inr bs'"
    "h' = h\<lparr>hp_blk := fmupd p (al, bs') (hp_blk h)\<rparr>" and l: "len' = len + int (length s)"
    using assms by (auto simp: sprintf_at_def write_blk_def)
  then have *: "0 \<le> len" "nat len + Suc (length s) \<le> length bs" "bs' = overwrite bs (nat len) (text_bytes s @ [0])"
    by (auto simp: poke_def split: if_splits)
  then show "0 \<le> len" "len' = len + int (length s)" "len' < int (blk_size h p)" "blk_size h' p = blk_size h p"
    using b l by (simp_all add: blk_size_def)
qed

section \<open>Zero-terminated text\<close>

definition no_nul :: "string \<Rightarrow> bool" where
  "no_nul s \<longleftrightarrow> CHR 0x00 \<notin> set s"

lemma no_nul_simps [simp]:
  "no_nul []" "no_nul (c # s) \<longleftrightarrow> c \<noteq> CHR 0x00 \<and> no_nul s" "no_nul (s @ t) \<longleftrightarrow> no_nul s \<and> no_nul t"
  by (auto simp: no_nul_def)

lemma digit_no_nul: "n < 16 \<Longrightarrow> digit n \<noteq> CHR 0x00"
proof
  assume n: "n < 16" and "digit n = CHR 0x00"
  then have "(of_char (digit n) :: nat) = 0" by simp
  with n show False by (auto simp: digit_def split: if_splits)
qed

lemma dec_nat_no_nul: "no_nul (dec_nat n)"
proof (induction n rule: dec_nat.induct)
  case (1 n)
  then show ?case by (subst dec_nat.simps) (simp add: digit_no_nul)
qed

lemma dec_no_nul [simp]: "no_nul (dec i)"
  by (simp add: dec_def dec_nat_no_nul)

lemma pad_no_nul [simp]: "no_nul (pad c w s) \<longleftrightarrow> (w \<le> length s \<or> c \<noteq> CHR 0x00) \<and> no_nul s"
  by (auto simp: pad_def no_nul_def)

lemma nl_no_nul [simp]: "no_nul nl"
  by (simp add: nl_def)

lemma text_bytes_nonzero: "no_nul s \<Longrightarrow> b \<in> set (text_bytes s) \<Longrightarrow> b \<noteq> 0"
proof
  assume s: "no_nul s" and "b \<in> set (text_bytes s)" "b = 0"
  then obtain c where c: "c \<in> set s" "(of_char c :: byte) = 0" by (auto simp: text_bytes_def)
  have "(of_nat (of_char c) :: byte) = 0" using c(2) by (simp add: of_nat_of_char)
  then have "256 dvd (of_char c :: nat)" by (simp add: word_of_nat_eq_0_iff)
  moreover have "(of_char c :: nat) < 256" by (rule nat_of_char_less_256)
  ultimately have "(of_char c :: nat) = 0" by (metis nat_dvd_not_less not_gr_zero)
  then have "(of_char c :: nat) = of_char (CHR 0x00)" by simp
  then have "c = CHR 0x00" by (rule of_char_eqI)
  with c(1) s show False by (simp add: no_nul_def)
qed

lemma strlen_text:
  assumes "holds_text h0 p cap s h" and "s \<noteq> []" and "no_nul s"
  shows "strlen h p = Inr (length s)"
proof -
  obtain bs where b: "p \<noteq> NULL" "fmlookup (hp_blk h) p = Some (By_kmalloc, bs)" "length s < length bs"
    "take (length s) bs = text_bytes s" "bs ! length s = 0"
    using assms(1,2) by (auto simp: holds_text_def)
  have bs: "bs = text_bytes s @ 0 # drop (Suc (length s)) bs"
    using id_take_nth_drop [OF b(3)] b(4,5) by simp
  have "takeWhile (\<lambda>b. b \<noteq> 0) (text_bytes s @ 0 # r) = text_bytes s" for r
    using text_bytes_nonzero [OF assms(3)] by (subst takeWhile_append2) auto
  with bs have "takeWhile (\<lambda>b. b \<noteq> 0) bs = text_bytes s" by metis
  with b(1-3) show ?thesis by (simp add: strlen_def load_def)
qed

lemma read_text:
  assumes "holds_text h0 p cap s h"
  shows "read_blk h p 0 (length s) = Inr (text_bytes s)"
proof -
  obtain bs where "p \<noteq> NULL" "fmlookup (hp_blk h) p = Some (By_kmalloc, bs)" "length s < length bs" "take (length s) bs = text_bytes s"
    using assms by (auto simp: holds_text_def)
  then show ?thesis by (simp add: read_blk_def load_def peek_def)
qed

section \<open>A temporary buffer\<close>

lemma new_text_buffer:
  assumes k: "kernel_ok k" and p: "kmalloc k h n \<noteq> NULL" and n: "0 < n"
  obtains h1 where "new_blk k By_kmalloc n (kmalloc k h n) h = (kmalloc k h n, h1)"
    "holds_text h1 (kmalloc k h n) n [] h1"
    "h1 = h\<lparr>hp_blk := fmupd (kmalloc k h n) (By_kmalloc, uninit k n) (hp_blk h)\<rparr>"
    "\<And>s h2. holds_text h1 (kmalloc k h n) n s h2 \<Longrightarrow> free_blk By_kmalloc h2 (kmalloc k h n) = Inr h"
proof -
  let ?p = "kmalloc k h n" let ?h1 = "h\<lparr>hp_blk := fmupd ?p (By_kmalloc, uninit k n) (hp_blk h)\<rparr>"
  have fresh: "?p \<notin> allocated h" by (rule kmalloc_fresh [OF k p])
  show thesis
  proof (rule that [of ?h1])
    show "new_blk k By_kmalloc n ?p h = (?p, ?h1)" using p by (simp add: new_blk_def)
    show "holds_text ?h1 ?p n [] ?h1" using p n k by (simp add: holds_text_def length_uninit)
    fix s h2 assume ht: "holds_text ?h1 ?p n s h2"
    then have "h2\<lparr>hp_blk := fmdrop ?p (hp_blk h2)\<rparr> = h"
      using not_allocatedD(3) [OF fresh] by (intro heap.equality) (auto simp: holds_text_def intro!: fmap_ext)
    with ht p show "free_blk By_kmalloc h2 ?p = Inr h" by (auto simp: free_blk_def holds_text_def)
  qed simp
qed

end
