(* ===== verification/Scull_Proc.thy ===== *)
theory Scull_Proc
  imports Scull_Modules Printf
begin

text \<open>
  The \<^verbatim>\<open>/proc\<close> files of \<^verbatim>\<open>scull/proc.c\<close>: \<open>proc_read\<close> formats all devices
  into one buffer of twenty pages and hands out a part of it; the \<open>seq_file\<close> version
  prints one device per step. The buffer is a block on the heap, so that a text too long for it
  is a store outside the block.
\<close>

section \<open>Lines\<close>

definition dev_line :: "nat \<Rightarrow> scull_dev \<Rightarrow> string" where
  "dev_line i d = nl @ '' Device '' @ dec (int i) @ '': qset '' @ dec (qset d) @ '', quantum '' @ dec (quantum d) @
     '', sz '' @ dec (dsize d) @ nl"

definition item_line :: "addr \<Rightarrow> addr \<Rightarrow> string" where
  "item_line qs arr = ''    item at '' @ px qs @ '', qset at '' @ px arr @ nl"

definition block_line :: "int \<Rightarrow> addr \<Rightarrow> string" where
  "block_line j b = ''    '' @ pad (CHR '' '') 4 (dec j) @ '': '' @ px b @ nl"

lemma length_item_line [simp]: "length (item_line qs arr) = 55"
  by (simp add: item_line_def nl_def)

lemma length_block_line: "27 \<le> length (block_line j b)"
  by (simp add: block_line_def nl_def length_pad)

section \<open>proc_read\<close>

function proc_blocks :: "addr \<Rightarrow> scull_dev \<Rightarrow> addr \<Rightarrow> int \<Rightarrow> int \<Rightarrow> heap \<Rightarrow> (int \<times> heap) res" where
  "proc_blocks sbuf d arr j len h =
     (if j < qset d then
        bindE (get_ptr h arr j) (\<lambda>b.
        bindE (sprintf_at sbuf len (block_line j b) h) (\<lambda>(len', h').
        proc_blocks sbuf d arr (j + 1) len' h'))
      else Inr (len, h))"
  by pat_completeness auto
termination
  by (relation "measure (\<lambda>(sbuf, d, arr, j, len, h). nat (qset d - j))") auto

declare proc_blocks.simps [simp del]

definition proc_node :: "addr \<Rightarrow> scull_dev \<Rightarrow> addr \<Rightarrow> scull_qset \<Rightarrow> int \<Rightarrow> heap \<Rightarrow> (int \<times> heap) res" where
  "proc_node sbuf d qs q len h =
     bindE (sprintf_at sbuf len (item_line qs (qs_data q)) h) (\<lambda>(len', h').
       if qs_data q \<noteq> NULL \<and> qs_next q = NULL then proc_blocks sbuf d (qs_data q) 0 len' h' else Inr (len', h'))"

lemma proc_blocks_moves:
  "proc_blocks sbuf d arr j len h = Inr (len', h') \<Longrightarrow> len \<le> len' \<and> blk_size h' sbuf = blk_size h sbuf"
proof (induction sbuf d arr j len h rule: proc_blocks.induct)
  case (1 sbuf d arr j len h)
  show ?case
  proof (cases "j < qset d")
    case True
    with "1.prems" obtain b len1 h1 where b: "get_ptr h arr j = Inr b"
      and s: "sprintf_at sbuf len (block_line j b) h = Inr (len1, h1)"
      and r: "proc_blocks sbuf d arr (j + 1) len1 h1 = Inr (len', h')"
      by (subst (asm) proc_blocks.simps) auto
    from "1.IH" [OF True b s refl r] sprintf_at_moves [OF s] show ?thesis by simp
  next
    case False
    with "1.prems" show ?thesis by (subst (asm) proc_blocks.simps) simp
  qed
qed

lemma proc_node_moves:
  assumes "proc_node sbuf d qs q len h = Inr (len', h')"
  shows "len < len' \<and> blk_size h' sbuf = blk_size h sbuf \<and> len < int (blk_size h sbuf)"
proof -
  obtain len1 h1 where s: "sprintf_at sbuf len (item_line qs (qs_data q)) h = Inr (len1, h1)"
    and r: "(if qs_data q \<noteq> NULL \<and> qs_next q = NULL then proc_blocks sbuf d (qs_data q) 0 len1 h1 else Inr (len1, h1)) = Inr (len', h')"
    using assms by (auto simp: proc_node_def)
  have "len1 \<le> len' \<and> blk_size h' sbuf = blk_size h1 sbuf"
    using r by (auto split: if_splits dest: proc_blocks_moves)
  then show ?thesis using sprintf_at_moves [OF s] by simp
qed

text \<open>The loop over the nodes: every round prints a line, so it ends at the latest at the end of the buffer.\<close>

function proc_nodes :: "addr \<Rightarrow> scull_dev \<Rightarrow> addr \<Rightarrow> int \<Rightarrow> heap \<Rightarrow> (int \<times> heap) res" where
  "proc_nodes sbuf d qs len h =
     (if qs = NULL then Inr (len, h)
      else bindE (get_qset h qs) (\<lambda>q.
           bindE (proc_node sbuf d qs q len h) (\<lambda>(len', h').
           proc_nodes sbuf d (qs_next q) len' h')))"
  by pat_completeness auto
termination
  by (relation "measure (\<lambda>(sbuf, d, qs, len, h). nat (int (blk_size h sbuf) - len))") (auto dest: proc_node_moves)

declare proc_nodes.simps [simp del]

fun proc_devs ::
  "addr \<Rightarrow> (nat \<Rightarrow> bool) \<Rightarrow> nat \<Rightarrow> scull_dev list \<Rightarrow> int \<Rightarrow> heap \<Rightarrow> (int option \<times> scull_dev list \<times> heap) res" where
  \<comment> \<open>\<open>intr i\<close>: a signal comes while waiting for the semaphore of device \<open>i\<close>; \<open>None\<close>: interrupted\<close>
  "proc_devs sbuf intr i [] len h = Inr (Some len, [], h)"
| "proc_devs sbuf intr i (d # ds) len h =
     (if intr i then Inr (None, d # ds, h)
      else
      let qs = data d; d1 = down d in
      bindE (sprintf_at sbuf len (dev_line i d1) h) (\<lambda>(len1, h1).
      bindE (proc_nodes sbuf d1 qs len1 h1) (\<lambda>(len2, h2).
      bindE (proc_devs sbuf intr (Suc i) ds len2 h2) (\<lambda>(r, ds', h3).
        Inr (r, up d1 # ds', h3)))))"

record proc_result =
  pr_ret :: int
  pr_pos :: int
  pr_out :: "byte list"
  pr_devs :: "scull_dev list"
  pr_heap :: heap

definition SBUF_SIZE :: nat where
  \<comment> \<open>\<open>max_pages * page_size\<close>\<close>
  "SBUF_SIZE = 20 * 4096"

definition proc_read ::
  "kernel \<Rightarrow> (nat \<Rightarrow> bool) \<Rightarrow> scull_dev list \<Rightarrow> heap \<Rightarrow> nat \<Rightarrow> int \<Rightarrow> proc_result res" where
  "proc_read k intr ds h count ppos =
     (case new_blk k By_kmalloc SBUF_SIZE (kmalloc k h SBUF_SIZE) h of (sbuf, h1) \<Rightarrow>
      if sbuf = NULL then Inr \<lparr>pr_ret = 0, pr_pos = ppos, pr_out = [], pr_devs = ds, pr_heap = h1\<rparr>
      else
      bindE (proc_devs sbuf intr 0 ds 0 h1) (\<lambda>(r, ds', h2).
      let leave = (\<lambda>ret pos out. bindE (free_blk By_kmalloc h2 sbuf) (\<lambda>h3.
            Inr \<lparr>pr_ret = ret, pr_pos = pos, pr_out = out, pr_devs = ds', pr_heap = h3\<rparr>)) in
      case r of
        None \<Rightarrow> leave (- ERESTARTSYS) ppos []
      | Some len \<Rightarrow>
          if ppos \<ge> len then leave 0 ppos []
          else
          let count = (if u64 (ppos + int count) > u64 len then u64 (len - ppos) else count) in
          bindE (read_blk h2 sbuf ppos count) (\<lambda>bs.
            if copy_to_user k bs \<noteq> 0 then leave (- EFAULT) ppos bs
            else leave (s64 (int count)) (s64 (ppos + int count)) bs)))"

section \<open>The sequence file\<close>

definition scull_seq_start :: "int \<Rightarrow> int option" where
  \<comment> \<open>the index of the device, or \<open>NULL\<close>\<close>
  "scull_seq_start pos = (if pos \<ge> int scull_nr_devs then None else Some pos)"

definition scull_seq_next :: "int \<Rightarrow> int option \<times> int" where
  \<comment> \<open>the device and the new position\<close>
  "scull_seq_next pos = (let pos = s64 (pos + 1) in (if pos \<ge> int scull_nr_devs then None else Some pos, pos))"

definition seq_dev_line :: "int \<Rightarrow> scull_dev \<Rightarrow> string" where
  "seq_dev_line i d = nl @ ''Device '' @ dec i @ '' : qset '' @ dec (qset d) @ '', q '' @ dec (quantum d) @
     '', sz '' @ dec (dsize d) @ nl"

definition seq_item_line :: "addr \<Rightarrow> addr \<Rightarrow> string" where
  "seq_item_line qs arr = ''     item at '' @ px qs @ '' qset at '' @ px arr @ nl"

definition seq_block_line :: "int \<Rightarrow> addr \<Rightarrow> string" where
  "seq_block_line i b = ''             '' @ pad (CHR '' '') 4 (dec i) @ '': '' @ px b"

function seq_blocks :: "scull_dev \<Rightarrow> addr \<Rightarrow> int \<Rightarrow> string \<Rightarrow> heap \<Rightarrow> string res" where
  "seq_blocks d arr i m h =
     (if i < qset d then
        bindE (get_ptr h arr i) (\<lambda>b.
        seq_blocks d arr (i + 1) (if b \<noteq> NULL then m @ seq_block_line i b else m) h)
      else Inr m)"
  by pat_completeness auto
termination
  by (relation "measure (\<lambda>(d, arr, i, m, h). nat (qset d - i))") auto

declare seq_blocks.simps [simp del]

definition seq_node :: "scull_dev \<Rightarrow> addr \<Rightarrow> scull_qset \<Rightarrow> string \<Rightarrow> heap \<Rightarrow> string res" where
  "seq_node d p q m h =
     (let m = m @ seq_item_line p (qs_data q) in
      if qs_data q \<noteq> NULL \<and> qs_next q = NULL then seq_blocks d (qs_data q) 0 m h else Inr m)"

text \<open>\<open>seq_printf\<close> never runs m of room, so on a cyclic list this loop does not end: \<open>None\<close>.\<close>

partial_function (option) seq_nodes :: "scull_dev \<Rightarrow> addr \<Rightarrow> string \<Rightarrow> heap \<Rightarrow> string res option" where
  "seq_nodes d p m h =
     (if p = NULL then Some (Inr m)
      else case get_qset h p of Inl f \<Rightarrow> Some (Inl f)
      | Inr q \<Rightarrow> (case seq_node d p q m h of Inl f \<Rightarrow> Some (Inl f) | Inr m' \<Rightarrow> seq_nodes d (qs_next q) m' h))"

definition scull_seq_show ::
  "bool \<Rightarrow> int \<Rightarrow> scull_dev \<Rightarrow> string \<Rightarrow> heap \<Rightarrow> (int \<times> string \<times> scull_dev) res option" where
  "scull_seq_show intr i d m h =
     (let p = data d in
      if intr then Some (Inr (- ERESTARTSYS, m, d))
      else let d1 = down d in
        case seq_nodes d1 p (m @ seq_dev_line i d1) h of
          None \<Rightarrow> None
        | Some (Inl f) \<Rightarrow> Some (Inl f)
        | Some (Inr m') \<Rightarrow> Some (Inr (0, m', up d1)))"

text \<open>
  How the kernel's sequence files use \<open>scull_seq_ops\<close>, with a buffer that has room: start, and then show and next until one of them
  returns \<open>NULL\<close> or the show an error. The device pointers are indices into \<open>scull_devices\<close>. The result is the error or 0, the text, the devices
  and the position; \<open>None\<close> stands for a run that has not ended after \<open>fuel\<close> devices.
\<close>

fun seq_visit :: "nat \<Rightarrow> (nat \<Rightarrow> bool) \<Rightarrow> int option \<Rightarrow> int \<Rightarrow> scull_dev list \<Rightarrow> string \<Rightarrow> heap \<Rightarrow> (int \<times> string \<times> scull_dev list \<times> int) res option" where
  "seq_visit fuel intr None pos ds m h = Some (Inr (0, m, ds, pos))"
| "seq_visit 0 intr (Some i) pos ds m h = None"
| "seq_visit (Suc fuel) intr (Some i) pos ds m h =
     (if i < 0 \<or> int (length ds) \<le> i then Some (Inl Bad_access)
      else case scull_seq_show (intr (nat i)) i (ds ! nat i) m h of
        None \<Rightarrow> None
      | Some (Inl f) \<Rightarrow> Some (Inl f)
      | Some (Inr (r, m', d)) \<Rightarrow>
          (if r < 0 then Some (Inr (r, m', ds[nat i := d], pos))
           else case scull_seq_next pos of (p, q) \<Rightarrow> seq_visit fuel intr p q (ds[nat i := d]) m' h))"

definition seq_file :: "(nat \<Rightarrow> bool) \<Rightarrow> int \<Rightarrow> scull_dev list \<Rightarrow> heap \<Rightarrow> (int \<times> string \<times> scull_dev list \<times> int) res option" where
  "seq_file intr pos ds h = seq_visit scull_nr_devs intr (scull_seq_start pos) pos ds [] h"

section \<open>What is printed\<close>

fun blocks_text :: "int \<Rightarrow> addr list \<Rightarrow> string" where
  "blocks_text j [] = []"
| "blocks_text j (b # bs) = block_line j b @ blocks_text (j + 1) bs"

fun nodes_text :: "gnode list \<Rightarrow> string" where
  \<comment> \<open>the blocks of the last node only\<close>
  "nodes_text [] = []"
| "nodes_text (x # gs) = item_line (g_addr x) (g_arr x) @
     (if g_arr x \<noteq> NULL \<and> gs = [] then blocks_text 0 (g_blks x) else []) @ nodes_text gs"

fun devs_text :: "nat \<Rightarrow> scull_dev list \<Rightarrow> gnode list list \<Rightarrow> string" where
  "devs_text i (d # ds) (gs # gss) = dev_line i d @ nodes_text gs @ devs_text (Suc i) ds gss"
| "devs_text i ds gss = []"

fun seq_blocks_text :: "int \<Rightarrow> addr list \<Rightarrow> string" where
  "seq_blocks_text j [] = []"
| "seq_blocks_text j (b # bs) = (if b \<noteq> NULL then seq_block_line j b else []) @ seq_blocks_text (j + 1) bs"

fun seq_nodes_text :: "gnode list \<Rightarrow> string" where
  "seq_nodes_text [] = []"
| "seq_nodes_text (x # gs) = seq_item_line (g_addr x) (g_arr x) @
     (if g_arr x \<noteq> NULL \<and> gs = [] then seq_blocks_text 0 (g_blks x) else []) @ seq_nodes_text gs"

fun seq_devs_text :: "int \<Rightarrow> scull_dev list \<Rightarrow> gnode list list \<Rightarrow> string" where
  "seq_devs_text i (d # ds) (gs # gss) = seq_dev_line i d @ seq_nodes_text gs @ seq_devs_text (i + 1) ds gss"
| "seq_devs_text i _ _ = []"

section \<open>The printers\<close>

lemma prints_cong:
  assumes "\<And>len h. hp_qset h = hp_qset h0 \<Longrightarrow> hp_ptrs h = hp_ptrs h0 \<Longrightarrow> f len h = g len h" and "prints h0 p cap g t"
  shows "prints h0 p cap f t"
  unfolding prints_def
proof (intro allI impI)
  fix s h assume ht: "holds_text h0 p cap s h"
  then have "f (int (length s)) h = g (int (length s)) h" by (intro assms(1)) (simp_all add: holds_text_def)
  with assms(2) [unfolded prints_def, rule_format, OF ht]
  show "if length s + length t < cap
      then \<exists>h'. f (int (length s)) h = Inr (int (length (s @ t)), h') \<and> holds_text h0 p cap (s @ t) h'
      else f (int (length s)) h = Inl Bad_access" by (simp only:)
qed

lemma proc_blocks_prints:
  assumes "fmlookup (hp_ptrs h0) arr = Some bs" and "arr \<noteq> NULL" and "length bs = nat (qset d)" and "0 \<le> j" and "j \<le> int (length bs)"
  shows "prints h0 p cap (proc_blocks p d arr j) (blocks_text j (drop (nat j) bs))"
  using assms(4,5)
proof (induction "nat (int (length bs) - j)" arbitrary: j)
  case 0
  then have j: "j = int (length bs)" by simp
  have "proc_blocks p d arr j len h = Inr (len, h)" for len h
    using j assms(3) by (subst proc_blocks.simps) simp
  with j prints_skip [of h0 p cap] show ?case by (auto intro: prints_cong)
next
  case (Suc n)
  then have j: "j < int (length bs)" by simp
  have jq: "j < qset d" using j Suc.prems(1) assms(3) by (simp split: if_splits)
  have nj: "nat j < length bs" using j Suc.prems(1) by (simp add: nat_less_iff)
  let ?b = "bs ! nat j"
  have "prints h0 p cap (proc_blocks p d arr (j + 1)) (blocks_text (j + 1) (drop (nat (j + 1)) bs))"
    using Suc.hyps(2) Suc.prems j by (intro Suc.hyps(1)) simp_all
  from prints_seq [OF prints_sprintf [of h0 p cap "block_line j ?b"] this]
  have "prints h0 p cap (proc_blocks p d arr j) (block_line j ?b @ blocks_text (j + 1) (drop (nat (j + 1)) bs))"
    by (rule prints_cong [rotated], subst proc_blocks.simps)
      (use assms(1,2) Suc.prems(1) nj jq in \<open>simp add: get_ptr_def load_def\<close>)
  moreover have "drop (nat j) bs = ?b # drop (nat (j + 1)) bs"
    using Suc.prems j by (simp add: Cons_nth_drop_Suc nat_add_distrib)
  ultimately show ?case by simp
qed

lemma proc_nodes_prints:
  "chain h0 qs gs NULL \<Longrightarrow> list_all (node_ok h0 d) gs \<Longrightarrow> prints h0 p cap (proc_nodes p d qs) (nodes_text gs)"
proof (induction gs arbitrary: qs)
  case Nil
  then show ?case by (auto simp: proc_nodes.simps intro: prints_cong prints_skip)
next
  case (Cons x gs)
  obtain q where q: "qs \<noteq> NULL" "g_addr x = qs" "fmlookup (hp_qset h0) qs = Some q" "qs_data q = g_arr x"
    "chain h0 (qs_next q) gs NULL" using Cons.prems(1) by (auto split: option.splits)
  have last: "qs_next q = NULL \<longleftrightarrow> gs = []" using q(5) by (cases gs) auto
  have "prints h0 p cap (\<lambda>len h. if g_arr x \<noteq> NULL \<and> gs = [] then proc_blocks p d (g_arr x) 0 len h else Inr (len, h))
    (if g_arr x \<noteq> NULL \<and> gs = [] then blocks_text 0 (g_blks x) else [])"
    using proc_blocks_prints [of h0 "g_arr x" "g_blks x" d 0 p cap] prints_skip [of h0 p cap] Cons.prems(2)
    by (auto simp: node_ok_def)
  from prints_seq [OF prints_seq [OF prints_sprintf this] Cons.IH [OF q(5)], of "item_line qs (g_arr x)"] Cons.prems(2)
  have "prints h0 p cap
    (\<lambda>len h. bindE (bindE (sprintf_at p len (item_line qs (g_arr x)) h)
       (\<lambda>(len, h). if g_arr x \<noteq> NULL \<and> gs = [] then proc_blocks p d (g_arr x) 0 len h else Inr (len, h)))
       (\<lambda>(len, h). proc_nodes p d (qs_next q) len h)) (nodes_text (x # gs))"
    by (simp add: q(2))
  then show ?case
  proof (rule prints_cong [rotated])
    fix len :: int and h :: heap assume "hp_qset h = hp_qset h0"
    then have "get_qset h qs = Inr q" using q by (simp add: get_qset_def)
    then show "proc_nodes p d qs len h = bindE (bindE (sprintf_at p len (item_line qs (g_arr x)) h)
       (\<lambda>(len, h). if g_arr x \<noteq> NULL \<and> gs = [] then proc_blocks p d (g_arr x) 0 len h else Inr (len, h)))
       (\<lambda>(len, h). proc_nodes p d (qs_next q) len h)"
      using q(1) by (subst proc_nodes.simps) (simp add: proc_node_def q(4) last cong: if_cong)
  qed
qed

lemma up_down [simp]: "up (down d) = d"
  by (simp add: up_def down_def)

definition dev_printer :: "addr \<Rightarrow> nat \<Rightarrow> scull_dev \<Rightarrow> int \<Rightarrow> heap \<Rightarrow> (int \<times> heap) res" where
  "dev_printer sbuf i d len h =
     bindE (sprintf_at sbuf len (dev_line i (down d)) h) (\<lambda>(len1, h1). proc_nodes sbuf (down d) (data d) len1 h1)"

lemma proc_devs_Cons:
  "proc_devs sbuf intr i (d # ds) len h =
     (if intr i then Inr (None, d # ds, h)
      else bindE (dev_printer sbuf i d len h) (\<lambda>(len2, h2).
           bindE (proc_devs sbuf intr (Suc i) ds len2 h2) (\<lambda>(r, ds', h3). Inr (r, d # ds', h3))))"
  by (cases "sprintf_at sbuf len (dev_line i (down d)) h") (auto simp: dev_printer_def Let_def)

lemma dev_printer_prints:
  assumes "dev_inv h0 d gs"
  shows "prints h0 p cap (dev_printer p i d) (dev_line i d @ nodes_text gs)"
proof -
  have "dev_line i (down d) = dev_line i d" by (simp add: dev_line_def down_def)
  moreover have "prints h0 p cap (proc_nodes p (down d) (data d)) (nodes_text gs)"
  proof (rule proc_nodes_prints)
    have "dev_inv h0 (down d) gs" using assms by simp
    then show "chain h0 (data d) gs NULL" "list_all (node_ok h0 (down d)) gs"
      by (simp_all add: dev_inv_def down_def)
  qed
  ultimately show ?thesis using prints_seq [OF prints_sprintf [of h0 p cap "dev_line i d"]]
    by (simp add: dev_printer_def [abs_def])
qed

lemma proc_devs_prints:
  assumes "holds_text h0 p cap s h" and "list_all2 (dev_inv h0) ds gss"
    and "length s + length (devs_text i ds gss) < cap"
  shows "if \<exists>j. i \<le> j \<and> j < i + length ds \<and> intr j
    then \<exists>s' h'. proc_devs p intr i ds (int (length s)) h = Inr (None, ds, h') \<and> holds_text h0 p cap s' h'
    else \<exists>h'. proc_devs p intr i ds (int (length s)) h = Inr (Some (int (length (s @ devs_text i ds gss))), ds, h') \<and>
       holds_text h0 p cap (s @ devs_text i ds gss) h'"
  using assms(2,1,3)
proof (induction ds gss arbitrary: i s h rule: list_all2_induct)
  case Nil
  then show ?case by simp
next
  case (Cons d ds gs gss)
  let ?t = "dev_line i d @ nodes_text gs"
  show ?case
  proof (cases "intr i")
    case True
    then have "\<exists>j. i \<le> j \<and> j < i + length (d # ds) \<and> intr j" by (intro exI [of _ i]) simp
    with True Cons.prems(1) show ?thesis by (auto simp: proc_devs_Cons)
  next
    case False
    have "length s + length ?t < cap" using Cons.prems(2) by simp
    then obtain h1 where 1: "dev_printer p i d (int (length s)) h = Inr (int (length (s @ ?t)), h1)" "holds_text h0 p cap (s @ ?t) h1"
      by (rule prints_fits [OF dev_printer_prints [OF Cons.hyps(1)] Cons.prems(1)])
    have "(\<exists>j. i \<le> j \<and> j < i + length (d # ds) \<and> intr j) \<longleftrightarrow> (\<exists>j. Suc i \<le> j \<and> j < Suc i + length ds \<and> intr j)"
      using False by (metis Suc_le_eq add_Suc add_Suc_right length_Cons order_le_less)
    with Cons.IH [of "s @ ?t" h1 "Suc i"] 1 False Cons.prems(2) show ?thesis
      by (auto simp: proc_devs_Cons split: if_splits simp del: proc_devs.simps)
  qed
qed

lemma proc_devs_overflow:
  assumes "holds_text h0 p cap s h" and "list_all2 (dev_inv h0) ds gss"
    and "cap \<le> length s + length (devs_text i ds gss)"
  shows "proc_devs p (\<lambda>j. False) i ds (int (length s)) h = Inl Bad_access"
  using assms(2,1,3)
proof (induction ds gss arbitrary: i s h rule: list_all2_induct)
  case Nil
  then show ?case by (simp add: holds_text_def)
next
  case (Cons d ds gs gss)
  let ?t = "dev_line i d @ nodes_text gs"
  note pr = dev_printer_prints [OF Cons.hyps(1), of p cap i]
  show ?case
  proof (cases "length s + length ?t < cap")
    case True
    then obtain h1 where 1: "dev_printer p i d (int (length s)) h = Inr (int (length (s @ ?t)), h1)" "holds_text h0 p cap (s @ ?t) h1"
      by (rule prints_fits [OF pr Cons.prems(1)])
    have "proc_devs p (\<lambda>j. False) (Suc i) ds (int (length (s @ ?t))) h1 = Inl Bad_access"
      using Cons.prems(2) by (intro Cons.IH [OF 1(2)]) simp
    with 1(1) show ?thesis unfolding proc_devs_Cons by (simp del: length_append)
  next
    case False
    then have "dev_printer p i d (int (length s)) h = Inl Bad_access"
      by (intro prints_full [OF pr Cons.prems(1)]) (simp add: not_less)
    then show ?thesis unfolding proc_devs_Cons by simp
  qed
qed

section \<open>The temporary buffer\<close>

lemma new_buffer:
  assumes k: "kernel_ok k" and p: "kmalloc k h n \<noteq> NULL" and n: "0 < n"
  obtains h1 where "new_blk k By_kmalloc n (kmalloc k h n) h = (kmalloc k h n, h1)"
    "holds_text h1 (kmalloc k h n) n [] h1"
    "\<And>s h2. holds_text h1 (kmalloc k h n) n s h2 \<Longrightarrow> free_blk By_kmalloc h2 (kmalloc k h n) = Inr h"
    "\<And>d gs. dev_inv h d gs \<Longrightarrow> dev_inv h1 d gs"
proof (rule new_text_buffer [OF assms])
  fix h1 assume h1: "new_blk k By_kmalloc n (kmalloc k h n) h = (kmalloc k h n, h1)"
    "holds_text h1 (kmalloc k h n) n [] h1"
    "h1 = h\<lparr>hp_blk := fmupd (kmalloc k h n) (By_kmalloc, uninit k n) (hp_blk h)\<rparr>"
    "\<And>s h2. holds_text h1 (kmalloc k h n) n s h2 \<Longrightarrow> free_blk By_kmalloc h2 (kmalloc k h n) = Inr h"
  have "dev_inv h1 d gs" if inv: "dev_inv h d gs" for d gs
    using footprint_allocated [OF inv] kmalloc_fresh [OF k p] h1(3) by (intro same_memory(1) [OF inv]) auto
  then show thesis using h1 by (intro that [of h1])
qed

section \<open>How long a description is\<close>

lemma blocks_text_length: "27 * length bs \<le> length (blocks_text j bs)"
proof (induction bs arbitrary: j)
  case (Cons b bs)
  show ?case using Cons.IH [of "j + 1"] length_block_line [of j b] by simp
qed simp

lemma nodes_text_length:
  "list_all (node_ok h d) gs \<Longrightarrow> gs \<noteq> [] \<Longrightarrow> g_arr (last gs) \<noteq> NULL \<Longrightarrow> 55 + 27 * nat (qset d) \<le> length (nodes_text gs)"
proof (induction gs)
  case (Cons x gs)
  show ?case
  proof (cases "gs = []")
    case True
    with Cons.prems have "length (g_blks x) = nat (qset d)" "g_arr x \<noteq> NULL" by (simp_all add: node_ok_def)
    with True blocks_text_length [of "g_blks x" 0] show ?thesis by simp
  next
    case False
    with Cons show ?thesis by simp
  qed
qed simp

lemma devs_text_length:
  "list_all2 (dev_inv h) ds gss \<Longrightarrow> list_all2 (\<lambda>d gs. 757 \<le> qset d \<and> gs \<noteq> [] \<and> g_arr (last gs) \<noteq> NULL) ds gss \<Longrightarrow>
   20494 * length ds \<le> length (devs_text i ds gss)"
proof (induction ds gss arbitrary: i rule: list_all2_induct)
  case (Cons d ds gs gss)
  have "55 + 27 * nat (qset d) \<le> length (nodes_text gs)"
    using Cons.prems Cons.hyps(1) by (intro nodes_text_length [of h]) (simp_all add: dev_inv_def)
  moreover have "757 \<le> nat (qset d)" using Cons.prems by (simp add: le_nat_iff)
  ultimately show ?case using Cons.IH [of "Suc i"] Cons.prems by simp
qed simp

section \<open>Sequence files\<close>

lemma seq_blocks_ok:
  assumes "fmlookup (hp_ptrs h) arr = Some bs" and "arr \<noteq> NULL" and "length bs = nat (qset d)" and "0 \<le> j" and "j \<le> int (length bs)"
  shows "seq_blocks d arr j m h = Inr (m @ seq_blocks_text j (drop (nat j) bs))"
  using assms(4,5)
proof (induction "nat (int (length bs) - j)" arbitrary: j m)
  case 0
  then show ?case using assms(3) by (subst seq_blocks.simps) simp
next
  case (Suc n)
  then have j: "j < int (length bs)" by simp
  have jq: "j < qset d" using j Suc.prems(1) assms(3) by (simp split: if_splits)
  have nj: "nat j < length bs" using j Suc.prems(1) by (simp add: nat_less_iff)
  have d: "drop (nat j) bs = bs ! nat j # drop (nat (j + 1)) bs"
    using Suc.prems nj by (simp add: Cons_nth_drop_Suc nat_add_distrib)
  have "seq_blocks d arr (j + 1) m' h = Inr (m' @ seq_blocks_text (j + 1) (drop (nat (j + 1)) bs))" for m'
    using Suc.hyps(2) Suc.prems j by (intro Suc.hyps(1)) simp_all
  then show ?case using assms(1,2) Suc.prems(1) nj jq
    by (subst seq_blocks.simps) (simp add: get_ptr_def load_def d)
qed

lemma seq_nodes_ok:
  "chain h p gs NULL \<Longrightarrow> list_all (node_ok h d) gs \<Longrightarrow> seq_nodes d p m h = Some (Inr (m @ seq_nodes_text gs))"
proof (induction gs arbitrary: p m)
  case Nil
  then show ?case by (simp add: seq_nodes.simps)
next
  case (Cons x gs)
  obtain q where q: "p \<noteq> NULL" "g_addr x = p" "fmlookup (hp_qset h) p = Some q" "qs_data q = g_arr x"
    "chain h (qs_next q) gs NULL" using Cons.prems(1) by (auto split: option.splits)
  have last: "qs_next q = NULL \<longleftrightarrow> gs = []" using q(5) by (cases gs) auto
  have "seq_node d p q m h = Inr (m @ seq_item_line p (g_arr x) @
      (if g_arr x \<noteq> NULL \<and> gs = [] then seq_blocks_text 0 (g_blks x) else []))"
    using Cons.prems(2) seq_blocks_ok [of h "g_arr x" "g_blks x" d 0 "m @ seq_item_line p (g_arr x)"]
    by (auto simp: seq_node_def q(4) last node_ok_def)
  with q Cons.IH [OF q(5)] Cons.prems(2) show ?case
    by (subst seq_nodes.simps) (simp add: get_qset_def load_def)
qed

section \<open>Properties\<close>

lemma proc_read_fits:
  assumes "kernel_ok k" and "list_all2 (dev_inv h) ds gss" and "length (devs_text 0 ds gss) < SBUF_SIZE"
    and "0 \<le> ppos" and "ppos + int count < 2 ^ 63"
  shows "\<exists>r. proc_read k intr ds h count ppos = Inr r \<and> pr_heap r = h \<and> pr_devs r = ds \<and>
    (let bs = take count (drop (nat ppos) (text_bytes (devs_text 0 ds gss))) in
     if kmalloc k h SBUF_SIZE = NULL \<or> \<not> (\<exists>j<length ds. intr j) \<and> length (devs_text 0 ds gss) \<le> nat ppos
     then pr_ret r = 0 \<and> pr_pos r = ppos \<and> pr_out r = []
     else if \<exists>j<length ds. intr j then pr_ret r = - ERESTARTSYS \<and> pr_pos r = ppos \<and> pr_out r = []
     else pr_out r = bs \<and>
       (if copy_to_user k bs = 0 then pr_ret r = int (length bs) \<and> pr_pos r = ppos + int (length bs)
        else pr_ret r = - EFAULT \<and> pr_pos r = ppos))"
proof (cases "kmalloc k h SBUF_SIZE = NULL")
  case True
  then show ?thesis by (simp add: proc_read_def new_blk_def)
next
  case False
  let ?p = "kmalloc k h SBUF_SIZE" and ?t = "devs_text 0 ds gss"
  obtain h1 where b: "new_blk k By_kmalloc SBUF_SIZE ?p h = (?p, h1)" "holds_text h1 ?p SBUF_SIZE [] h1"
    "\<And>s h2. holds_text h1 ?p SBUF_SIZE s h2 \<Longrightarrow> free_blk By_kmalloc h2 ?p = Inr h"
    "\<And>d gs. dev_inv h d gs \<Longrightarrow> dev_inv h1 d gs"
    by (rule new_buffer [OF assms(1) False]) (simp_all add: SBUF_SIZE_def)
  have inv: "list_all2 (dev_inv h1) ds gss" using assms(2) b(4) by (auto elim: list_all2_mono)
  note pr = proc_devs_prints [OF b(2) inv, of 0 intr]
  show ?thesis
  proof (cases "\<exists>j<length ds. intr j")
    case True
    then obtain s' h2 where "proc_devs ?p intr 0 ds 0 h1 = Inr (None, ds, h2)" "holds_text h1 ?p SBUF_SIZE s' h2"
      using pr assms(3) by (auto split: if_splits)
    with True False b(1,3) show ?thesis by (simp add: proc_read_def Let_def)
  next
    case no: False
    then obtain h2 where 2: "proc_devs ?p intr 0 ds 0 h1 = Inr (Some (int (length ?t)), ds, h2)" "holds_text h1 ?p SBUF_SIZE ?t h2"
      using pr assms(3) by (auto split: if_splits)
    show ?thesis
    proof (cases "int (length ?t) \<le> ppos")
      case True
      with 2 no False b(1,3) show ?thesis by (simp add: proc_read_def Let_def le_nat_iff)
    next
      case inside: False
      define n where "n = min count (length ?t - nat ppos)"
      define bs where "bs = take count (drop (nat ppos) (text_bytes ?t))"
      have u: "(if u64 (ppos + int count) > u64 (int (length ?t)) then u64 (int (length ?t) - ppos) else count) = n"
        using assms(3-5) inside unfolding n_def by (auto simp: u64_id SBUF_SIZE_def min_def nat_diff_distrib)
      have rd: "read_blk h2 ?p ppos n = Inr bs"
      proof -
        obtain cs where cs: "fmlookup (hp_blk h2) ?p = Some (By_kmalloc, cs)" "length cs = SBUF_SIZE"
          "take (length ?t) cs = text_bytes ?t" using 2(2) by (auto simp: holds_text_def)
        have "take n (drop (nat ppos) cs) = take n (drop (nat ppos) (take (length ?t) cs))"
          by (simp add: drop_take min_def n_def)
        also have "\<dots> = bs" unfolding cs(3) bs_def n_def by (simp add: min_def)
        finally show ?thesis
          using cs(1,2) False assms(3,4) inside by (simp add: read_blk_def load_def peek_def n_def)
      qed
      have n: "length bs = n" "s64 (int n) = int n" "s64 (ppos + int n) = ppos + int n"
        using assms(4,5) by (simp_all add: s64_id bs_def n_def)
      have "proc_read k intr ds h count ppos = Inr
          \<lparr>pr_ret = if copy_to_user k bs \<noteq> 0 then - EFAULT else int n,
           pr_pos = if copy_to_user k bs \<noteq> 0 then ppos else ppos + int n, pr_out = bs, pr_devs = ds, pr_heap = h\<rparr>"
        unfolding proc_read_def b(1) prod.case using False inside
        by (simp only: if_False 2(1) bindE_simps prod.case option.case Let_def u rd b(3) [OF 2(2)] n(2,3)) simp
      moreover have "\<not> length ?t \<le> nat ppos" using inside assms(4) by linarith
      ultimately show ?thesis using no False n(1) by (simp add: bs_def [symmetric] Let_def)
    qed
  qed
qed

lemma proc_read_full:
  assumes "kernel_ok k" and "list_all2 (dev_inv h) ds gss" and "SBUF_SIZE \<le> length (devs_text 0 ds gss)" and "kmalloc k h SBUF_SIZE \<noteq> NULL"
  shows "proc_read k (\<lambda>j. False) ds h count ppos = Inl Bad_access"
proof -
  let ?p = "kmalloc k h SBUF_SIZE"
  obtain h1 where b: "new_blk k By_kmalloc SBUF_SIZE ?p h = (?p, h1)" "holds_text h1 ?p SBUF_SIZE [] h1"
    "\<And>d gs. dev_inv h d gs \<Longrightarrow> dev_inv h1 d gs"
    by (rule new_buffer [OF assms(1,4)]) (simp_all add: SBUF_SIZE_def)
  have inv: "list_all2 (dev_inv h1) ds gss" using assms(2) b(3) by (auto elim: list_all2_mono)
  then have "proc_devs ?p (\<lambda>j. False) 0 ds 0 h1 = Inl Bad_access"
    using proc_devs_overflow [OF b(2) inv, of 0] assms(3) by simp
  with b(1) assms(4) show ?thesis by (simp add: proc_read_def)
qed

lemma demo_text_fits: "length (devs_text 0 [demo_dev] [demo_nodes]) < SBUF_SIZE"
  by (simp add: demo_dev_def demo_nodes_def SBUF_SIZE_def dev_line_def block_line_def nl_def dec_def dec_nat.simps length_pad)

definition full_dev :: "nat \<Rightarrow> scull_dev" where
  "full_dev i = \<lparr>data = i, quantum = 1024, qset = 1000, sem = 1, dsize = 1, order = 0, dtype = scull_type_basic\<rparr>"

definition empty_dev :: scull_dev where
  "empty_dev = \<lparr>data = NULL, quantum = 4, qset = 2, sem = 1, dsize = 0, order = 0, dtype = scull_type_basic\<rparr>"

definition full_heap :: heap where
  "full_heap = \<lparr>hp_qset = fmap_of_list (map (\<lambda>i. (i, \<lparr>qs_data = 10 + i, qs_next = NULL\<rparr>)) [1, 2, 3, 4]),
     hp_ptrs = fmap_of_list (map (\<lambda>i. (10 + i, replicate 1000 NULL)) [1, 2, 3, 4]), hp_blk = fmempty\<rparr>"

lemma full_inv:
  "i \<in> {1, 2, 3, 4} \<Longrightarrow> dev_inv full_heap (full_dev i) [\<lparr>g_addr = i, g_arr = 10 + i, g_blks = replicate 1000 NULL\<rparr>]"
  by (auto simp: dev_inv_def params_ok_def full_dev_def full_heap_def node_ok_def arr_addrs_def blk_addrs_def
      fmlookup_of_list list_all_iff)

text \<open>
  C30. \<open>proc_read\<close> on well-formed devices. If their description fits into the buffer of twenty pages, it never faults,
  leaves the devices and the heap as they were (the buffer is given back on every path), and
  hands out the part of the description that starts at the position and has at most
  \<open>count\<close> bytes, returning its length and advancing the position. The other outcomes are 0 at
  the end of the text or without memory, \<open>-ERESTARTSYS\<close> on a signal and \<open>-EFAULT\<close>, all
  with the position kept. If it does not fit, reading the file stores outside the buffer. With the parameters the
  driver starts with it does not fit when each of the four devices has data: it is enough that the last quantum set of each
  has its pointer array, with 757 pointers or more (the default is 1000).
\<close>

theorem proc_read_correct:
  assumes "kernel_ok k" and "list_all2 (dev_inv h) ds gss" and "0 \<le> ppos" and "ppos + int count < 2 ^ 63"
  shows "(length (devs_text 0 ds gss) < SBUF_SIZE \<longrightarrow>
      (\<exists>r. proc_read k intr ds h count ppos = Inr r \<and> pr_heap r = h \<and> pr_devs r = ds \<and>
        (let bs = take count (drop (nat ppos) (text_bytes (devs_text 0 ds gss))) in
         if kmalloc k h SBUF_SIZE = NULL \<or> \<not> (\<exists>j<length ds. intr j) \<and> length (devs_text 0 ds gss) \<le> nat ppos
         then pr_ret r = 0 \<and> pr_pos r = ppos \<and> pr_out r = []
         else if \<exists>j<length ds. intr j then pr_ret r = - ERESTARTSYS \<and> pr_pos r = ppos \<and> pr_out r = []
         else pr_out r = bs \<and>
           (if copy_to_user k bs = 0 then pr_ret r = int (length bs) \<and> pr_pos r = ppos + int (length bs)
            else pr_ret r = - EFAULT \<and> pr_pos r = ppos)))) \<and>
    (SBUF_SIZE \<le> length (devs_text 0 ds gss) \<and> kmalloc k h SBUF_SIZE \<noteq> NULL \<longrightarrow>
      proc_read k (\<lambda>j. False) ds h count ppos = Inl Bad_access) \<and>
    (length ds = scull_nr_devs \<and> list_all2 (\<lambda>d gs. 757 \<le> qset d \<and> gs \<noteq> [] \<and> g_arr (last gs) \<noteq> NULL) ds gss \<longrightarrow>
      SBUF_SIZE \<le> length (devs_text 0 ds gss))"
proof (intro conjI impI)
  assume "length ds = scull_nr_devs \<and> list_all2 (\<lambda>d gs. 757 \<le> qset d \<and> gs \<noteq> [] \<and> g_arr (last gs) \<noteq> NULL) ds gss"
  then show "SBUF_SIZE \<le> length (devs_text 0 ds gss)"
    using devs_text_length [OF assms(2), of 0] by (simp add: SBUF_SIZE_def scull_nr_devs_def)
qed (use proc_read_fits [OF assms(1,2) _ assms(3,4)] proc_read_full [OF assms(1,2)] in simp_all)

theorem proc_read_correct_witness:
  "(\<exists>r. proc_read simple_kernel (\<lambda>j. False) [demo_dev] demo_heap 10 1 = Inr r \<and> pr_heap r = demo_heap \<and>
     pr_devs r = [demo_dev] \<and> pr_out r = text_bytes '' Device 0:'' \<and> pr_ret r = 10 \<and> pr_pos r = 11) \<and>
   proc_read simple_kernel (\<lambda>j. False) (map full_dev [1, 2, 3, 4]) full_heap 100 0 = Inl Bad_access"
proof
  have k: "kmalloc simple_kernel h SBUF_SIZE \<noteq> NULL" "copy_to_user simple_kernel bs = 0" for bs h
    by (simp_all add: simple_kernel_def next_addr_def)
  have "digit 0 = CHR ''0''" by code_simp
  then have t: "take 10 (drop 1 (text_bytes (devs_text 0 [demo_dev] [demo_nodes]))) = text_bytes '' Device 0:''"
    by (simp add: dev_line_def nl_def dec_def dec_nat.simps [of 0] text_bytes_def)
  have "11 \<le> length (dev_line 0 demo_dev)" by (simp add: dev_line_def nl_def)
  then show "\<exists>r. proc_read simple_kernel (\<lambda>j. False) [demo_dev] demo_heap 10 1 = Inr r \<and> pr_heap r = demo_heap \<and>
     pr_devs r = [demo_dev] \<and> pr_out r = text_bytes '' Device 0:'' \<and> pr_ret r = 10 \<and> pr_pos r = 11"
    using proc_read_correct [OF simple_kernel_ok, of demo_heap "[demo_dev]" "[demo_nodes]" 1 10 "\<lambda>j. False", THEN conjunct1]
      demo_inv demo_text_fits k t
    by (simp add: Let_def)
  let ?gss = "map (\<lambda>i. [\<lparr>g_addr = i, g_arr = 10 + i, g_blks = replicate 1000 NULL\<rparr>]) [1, 2, 3, 4]"
  let ?ds = "map full_dev [1, 2, 3, 4]"
  have inv: "list_all2 (dev_inv full_heap) ?ds ?gss"
    using full_inv [of 1] full_inv [of 2] full_inv [of 3] full_inv [of 4] by simp
  have "length ?ds = scull_nr_devs \<and> list_all2 (\<lambda>d gs. 757 \<le> qset d \<and> gs \<noteq> [] \<and> g_arr (last gs) \<noteq> NULL) ?ds ?gss"
    by (simp add: full_dev_def scull_nr_devs_def)
  with proc_read_correct [OF simple_kernel_ok inv, of 0 100 "\<lambda>j. False", THEN conjunct2] k(1)
  show "proc_read simple_kernel (\<lambda>j. False) ?ds full_heap 100 0 = Inl Bad_access" by (simp del: list.map)
qed

lemma scull_seq_show_ok:
  assumes "dev_inv h d gs"
  shows "scull_seq_show intr i d m h =
    Some (Inr (if intr then (- ERESTARTSYS, m, d) else (0, m @ seq_dev_line i d @ seq_nodes_text gs, d)))"
proof -
  have "seq_nodes (down d) (data d) m' h = Some (Inr (m' @ seq_nodes_text gs))" for m'
  proof (rule seq_nodes_ok)
    have "dev_inv h (down d) gs" using assms by simp
    then show "chain h (data d) gs NULL" "list_all (node_ok h (down d)) gs" by (simp_all add: dev_inv_def down_def)
  qed
  moreover have "seq_dev_line i (down d) = seq_dev_line i d" by (simp add: seq_dev_line_def down_def)
  ultimately show ?thesis by (auto simp: scull_seq_show_def Let_def)
qed

lemma seq_visit_ok:
  assumes "list_all2 (dev_inv h) ds gss" and "length ds = scull_nr_devs" and "n \<le> j" and "j \<le> scull_nr_devs"
    and "\<And>i. n \<le> i \<Longrightarrow> i < j \<Longrightarrow> \<not> intr i" and "j < scull_nr_devs \<Longrightarrow> intr j" and "scull_nr_devs - n \<le> fuel"
  shows "seq_visit fuel intr (if n < scull_nr_devs then Some (int n) else None) (int n) ds m h =
    Some (Inr (if j < scull_nr_devs then - ERESTARTSYS else 0, m @ seq_devs_text (int n) (take (j - n) (drop n ds)) (take (j - n) (drop n gss)), ds, int j))"
  using assms(3,5,7)
proof (induction "j - n" arbitrary: n m fuel)
  case 0
  then have n: "n = j" by simp
  show ?case
  proof (cases "j < scull_nr_devs")
    case True
    then obtain f where f: "fuel = Suc f" using 0 n by (cases fuel) auto
    have "dev_inv h (ds ! j) (gss ! j)" using assms(1,2) True by (simp add: list_all2_nthD)
    then show ?thesis using True assms(2,6) by (simp add: n f scull_seq_show_ok)
  qed (use assms(4) n in simp)
next
  case (Suc r)
  then have n: "n < j" "n < scull_nr_devs" "\<not> intr n" using assms(4) by simp_all
  then obtain f where f: "fuel = Suc f" "scull_nr_devs - Suc n \<le> f" using Suc.prems(3) by (cases fuel) auto
  have len: "length gss = length ds" using list_all2_lengthD [OF assms(1)] by simp
  have inv: "dev_inv h (ds ! n) (gss ! n)" using assms(1,2) n by (simp add: list_all2_nthD)
  have next_is: "scull_seq_next (int n) = (if Suc n < scull_nr_devs then Some (int (Suc n)) else None, int (Suc n))"
    using n(2) by (simp add: scull_seq_next_def scull_nr_devs_def s64_id Let_def)
  have d: "drop n ds = ds ! n # drop (Suc n) ds" "drop n gss = gss ! n # drop (Suc n) gss"
    using n(2) assms(2) len by (simp_all add: Cons_nth_drop_Suc)
  have jn: "j - n = Suc (j - Suc n)" using n(1) by simp
  have IH: "seq_visit f intr (if Suc n < scull_nr_devs then Some (int (Suc n)) else None) (int (Suc n)) ds m' h =
    Some (Inr (if j < scull_nr_devs then - ERESTARTSYS else 0,
      m' @ seq_devs_text (int (Suc n)) (take (j - Suc n) (drop (Suc n) ds)) (take (j - Suc n) (drop (Suc n) gss)), ds, int j))" for m'
    using Suc.hyps(2) Suc.prems(1,2) n(1) f(2) by (intro Suc.hyps(1)) simp_all
  have "seq_visit (Suc f) intr (Some (int n)) (int n) ds m h =
    (case scull_seq_next (int n) of (p, q) \<Rightarrow> seq_visit f intr p q ds (m @ seq_dev_line (int n) (ds ! n) @ seq_nodes_text (gss ! n)) h)"
    using n assms(2) by (simp add: scull_seq_show_ok [OF inv])
  also have "\<dots> = seq_visit f intr (if Suc n < scull_nr_devs then Some (int (Suc n)) else None) (int (Suc n)) ds
      (m @ seq_dev_line (int n) (ds ! n) @ seq_nodes_text (gss ! n)) h" by (simp only: next_is prod.case)
  finally show ?case unfolding IH f(1) jn d using n(2) by (simp add: add.commute)
qed

text \<open>
  C31. The sequence file. \<open>scull_seq_show\<close> terminates on every well-formed device and appends exactly its
  description, with the semaphore released (or prints nothing on a signal). A read from any position prints the descriptions of the devices from
  there on, each once and in order, and ends after the last of them, or at the first one whose semaphore a signal keeps it from getting;
  from a position behind the devices it prints nothing. The devices stay as they are.
\<close>

theorem seq_file_correct:
  assumes "list_all2 (dev_inv h) ds gss" and "length ds = scull_nr_devs"
  shows "(\<forall>i < scull_nr_devs. \<forall>intr m. scull_seq_show intr (int i) (ds ! i) m h =
      Some (Inr (if intr then (- ERESTARTSYS, m, ds ! i) else (0, m @ seq_dev_line (int i) (ds ! i) @ seq_nodes_text (gss ! i), ds ! i)))) \<and>
    (\<forall>n intr. n \<le> scull_nr_devs \<and> (\<forall>i. n \<le> i \<and> i < scull_nr_devs \<longrightarrow> \<not> intr i) \<longrightarrow>
      seq_file intr (int n) ds h = Some (Inr (0, seq_devs_text (int n) (drop n ds) (drop n gss), ds, int scull_nr_devs))) \<and>
    (\<forall>n j intr. n \<le> j \<and> j < scull_nr_devs \<and> intr j \<and> (\<forall>i. n \<le> i \<and> i < j \<longrightarrow> \<not> intr i) \<longrightarrow>
      seq_file intr (int n) ds h =
        Some (Inr (- ERESTARTSYS, seq_devs_text (int n) (take (j - n) (drop n ds)) (take (j - n) (drop n gss)), ds, int j))) \<and>
    (\<forall>pos intr. int scull_nr_devs \<le> pos \<longrightarrow> seq_file intr pos ds h = Some (Inr (0, [], ds, pos)))"
proof (intro conjI allI impI)
  have run: "seq_file intr (int n) ds h = seq_visit scull_nr_devs intr (if n < scull_nr_devs then Some (int n) else None) (int n) ds [] h" for intr n
    by (simp add: seq_file_def scull_seq_start_def)
  show "scull_seq_show intr (int i) (ds ! i) m h =
      Some (Inr (if intr then (- ERESTARTSYS, m, ds ! i) else (0, m @ seq_dev_line (int i) (ds ! i) @ seq_nodes_text (gss ! i), ds ! i)))"
    if "i < scull_nr_devs" for i intr m
    using that assms by (intro scull_seq_show_ok) (simp add: list_all2_nthD)
  show "seq_file intr (int n) ds h = Some (Inr (0, seq_devs_text (int n) (drop n ds) (drop n gss), ds, int scull_nr_devs))"
    if "n \<le> scull_nr_devs \<and> (\<forall>i. n \<le> i \<and> i < scull_nr_devs \<longrightarrow> \<not> intr i)" for n intr
    using seq_visit_ok [OF assms, of n scull_nr_devs intr scull_nr_devs "[]"] that list_all2_lengthD [OF assms(1)] assms(2) by (simp add: run)
  show "seq_file intr (int n) ds h =
        Some (Inr (- ERESTARTSYS, seq_devs_text (int n) (take (j - n) (drop n ds)) (take (j - n) (drop n gss)), ds, int j))"
    if "n \<le> j \<and> j < scull_nr_devs \<and> intr j \<and> (\<forall>i. n \<le> i \<and> i < j \<longrightarrow> \<not> intr i)" for n j intr
    using seq_visit_ok [OF assms, of n j intr scull_nr_devs "[]"] that by (simp add: run)
  show "seq_file intr pos ds h = Some (Inr (0, [], ds, pos))" if "int scull_nr_devs \<le> pos" for pos intr
    using that by (simp add: seq_file_def scull_seq_start_def scull_nr_devs_def)
qed

theorem seq_file_correct_witness:
  "seq_file (\<lambda>i. i = 3) 2 [empty_dev, empty_dev, demo_dev, empty_dev] demo_heap =
    Some (Inr (- ERESTARTSYS, seq_dev_line 2 demo_dev @ seq_nodes_text demo_nodes, [empty_dev, empty_dev, demo_dev, empty_dev], 3))"
proof -
  let ?ds = "[empty_dev, empty_dev, demo_dev, empty_dev]"
  have "dev_inv demo_heap empty_dev []" by (simp add: dev_inv_def empty_dev_def params_ok_def arr_addrs_def blk_addrs_def)
  then have "list_all2 (dev_inv demo_heap) ?ds [[], [], demo_nodes, []]" using demo_inv by simp
  from seq_file_correct [OF this, THEN conjunct2, THEN conjunct2, THEN conjunct1, rule_format, of 2 3 "\<lambda>i. i = 3"] show ?thesis
    by (simp add: scull_nr_devs_def)
qed

end
