(* ===== verification/Jit.thy ===== *)
theory Jit
  imports Printf
begin

text \<open>
  The timing modules \<^verbatim>\<open>misc_modules/jit.c\<close> and \<^verbatim>\<open>misc_modules/jiq.c\<close>: files that
  print the clock, delay the reader, or let a timer, a tasklet or a work item append lines to a
  buffer until a count reaches zero. The clock, the context a deferred function runs in and
  the scheduler are parameters. The four deferred functions obey one contract, the locale
  \<open>repeater\<close>.
\<close>

section \<open>The clock and the context\<close>

definition time_before :: "64 word \<Rightarrow> 64 word \<Rightarrow> bool" where
  "time_before a b \<longleftrightarrow> sint (a - b) < 0"

text \<open>What a deferred function reads when it runs: \<open>jiffies\<close>, \<open>in_interrupt\<close>, the current process and processor.\<close>

record tick =
  t_jiffies :: "64 word"
  t_inirq :: bool
  t_pid :: int
  t_cpu :: int
  t_comm :: string

definition tick_ok :: "tick \<Rightarrow> bool" where
  \<comment> \<open>\<open>int\<close>s, and a zero-terminated command name of less than \<open>TASK_COMM_LEN\<close> characters\<close>
  "tick_ok t \<longleftrightarrow> \<bar>t_pid t\<bar> < 2 ^ 31 \<and> \<bar>t_cpu t\<bar> < 2 ^ 31 \<and> length (t_comm t) \<le> 15 \<and> no_nul (t_comm t)"

datatype jit_files = JIT_CURRENT | JIT_BUSY | JIT_SCHED | JIT_QUEUE | JIT_SCHEDTO | JIT_TIMER | JIT_TASKLET | JIT_TASKLET_HI

text \<open>The result of reading one of the files: return value, position, the bytes handed out, the heap.\<close>

record jit_result =
  jr_ret :: int
  jr_pos :: int
  jr_out :: "byte list"
  jr_heap :: heap

definition give_text :: "kernel \<Rightarrow> addr \<Rightarrow> int \<Rightarrow> int \<Rightarrow> int \<Rightarrow> heap \<Rightarrow> jit_result res" where
  \<comment> \<open>\<open>copy_to_user\<close> of \<open>len\<close> bytes, \<open>*ppos += len\<close> to \<open>pos'\<close>, \<open>kfree\<close> on both paths\<close>
  "give_text k sbuf len ppos pos' h =
     bindE (read_blk h sbuf 0 (u64 len)) (\<lambda>bs.
     bindE (free_blk By_kmalloc h sbuf) (\<lambda>h'.
       if copy_to_user k bs \<noteq> 0 then Inr \<lparr>jr_ret = - EFAULT, jr_pos = ppos, jr_out = bs, jr_heap = h'\<rparr>
       else Inr \<lparr>jr_ret = len, jr_pos = pos', jr_out = bs, jr_heap = h'\<rparr>))"

section \<open>jit_current\<close>

fun hex_nat :: "nat \<Rightarrow> string" where
  "hex_nat n = (if n < 16 then [digit n] else hex_nat (n div 16) @ [digit (n mod 16)])"

declare hex_nat.simps [simp del]

definition current_line :: "64 word \<Rightarrow> 64 word \<Rightarrow> int \<Rightarrow> int \<Rightarrow> string" where
  \<comment> \<open>\<^verbatim>\<open>"j1 = 0x%08lx, j2 = 0x%016Lx\n%40i %09i\n"\<close>\<close>
  "current_line j1 j2 sec nsec =
     ''j1 = 0x'' @ pad (CHR ''0'') 8 (hex_nat (unat j1)) @ '', j2 = 0x'' @ pad (CHR ''0'') 16 (hex_nat (unat j2)) @ nl @
     pad (CHR '' '') 40 (dec sec) @ '' '' @ pad (CHR ''0'') 9 (dec nsec) @ nl"

definition jit_current ::
  "kernel \<Rightarrow> 64 word \<Rightarrow> 64 word \<Rightarrow> int \<Rightarrow> int \<Rightarrow> int \<Rightarrow> heap \<Rightarrow> jit_result res" where
  \<comment> \<open>the two clock readings and the time of day, whose nanoseconds are never negative\<close>
  "jit_current k j1 j2 tv_sec tv_nsec ppos h =
     (case new_blk k By_kmalloc 240 (kmalloc k h 240) h of (sbuf, h1) \<Rightarrow>
      if sbuf = NULL then Inr \<lparr>jr_ret = 0, jr_pos = ppos, jr_out = [], jr_heap = h1\<rparr>
      else if ppos > 0 then
        bindE (free_blk By_kmalloc h1 sbuf) (\<lambda>h2. Inr \<lparr>jr_ret = 0, jr_pos = ppos, jr_out = [], jr_heap = h2\<rparr>)
      else
      bindE (sprintf_at sbuf 0 (current_line j1 j2 (s32 tv_sec) (s32 tv_nsec)) h1) (\<lambda>(len, h2).
        give_text k sbuf len ppos (s64 (ppos + len)) h2))"

section \<open>jit_delay\<close>

text \<open>
  \<open>clock i\<close> is the \<open>i\<close>-th reading of \<open>jiffies\<close> by this call, \<open>timeout i\<close> what the \<open>i\<close>-th
  \<open>schedule_timeout\<close> returns. The loops may not end: \<open>None\<close>.
\<close>

partial_function (option) busy_loop :: "(nat \<Rightarrow> 64 word) \<Rightarrow> 64 word \<Rightarrow> nat \<Rightarrow> nat option" where
  "busy_loop clock j1 i = (if time_before (clock i) j1 then busy_loop clock j1 (Suc i) else Some (Suc i))"

partial_function (option) timeout_loop :: "(nat \<Rightarrow> 64 word) \<Rightarrow> 64 word \<Rightarrow> nat \<Rightarrow> nat option" where
  "timeout_loop timeout delay i = (if 0 < delay then timeout_loop timeout (timeout i) (Suc i) else Some i)"

definition delay_wait :: "64 word \<Rightarrow> jit_files \<Rightarrow> (nat \<Rightarrow> 64 word) \<Rightarrow> (nat \<Rightarrow> 64 word) \<Rightarrow> nat option" where
  \<comment> \<open>the \<open>switch\<close>; the number of the next reading of the clock; \<open>HZ\<close> is a constant of the kernel's configuration\<close>
  "delay_wait HZ file clock timeout =
     (case file of
        JIT_BUSY \<Rightarrow> busy_loop clock (clock 0 + HZ) 1
      | JIT_SCHED \<Rightarrow> busy_loop clock (clock 0 + HZ) 1
      | JIT_SCHEDTO \<Rightarrow> map_option (\<lambda>n. 1) (timeout_loop timeout HZ 0)
      | _ \<Rightarrow> Some 1)"

definition delay_line :: "64 word \<Rightarrow> 64 word \<Rightarrow> string" where
  "delay_line j0 j1 = dec (sint j0) @ '' '' @ dec (sint j1) @ nl"

definition jit_delay ::
  "kernel \<Rightarrow> 64 word \<Rightarrow> jit_files \<Rightarrow> (nat \<Rightarrow> 64 word) \<Rightarrow> (nat \<Rightarrow> 64 word) \<Rightarrow> nat \<Rightarrow> int \<Rightarrow> heap \<Rightarrow> jit_result res option" where
  "jit_delay k HZ file clock timeout count ppos h =
     (case new_blk k By_kmalloc 24 (kmalloc k h 24) h of (sbuf, h1) \<Rightarrow>
      if sbuf = NULL then Some (Inr \<lparr>jr_ret = 0, jr_pos = ppos, jr_out = [], jr_heap = h1\<rparr>)
      else if u64 ppos \<ge> count then
        Some (bindE (free_blk By_kmalloc h1 sbuf) (\<lambda>h2. Inr \<lparr>jr_ret = 0, jr_pos = ppos, jr_out = [], jr_heap = h2\<rparr>))
      else case delay_wait HZ file clock timeout of
        None \<Rightarrow> None
      | Some i \<Rightarrow>
          Some (bindE (sprintf_at sbuf 0 (delay_line (clock 0) (clock i)) h1) (\<lambda>(len, h2).
            give_text k sbuf len ppos (s64 (ppos + len)) h2)))"

section \<open>Timer and tasklet\<close>

datatype sched = By_timer "64 word" | By_tasklet | By_tasklet_hi | By_work | By_delayed_work int

record jit_data =
  left_loops :: "32 word"
  prevjiffies :: "64 word"
  scheduled :: "sched option"   \<comment> \<open>the timer or tasklet, when it is queued\<close>
  hi :: bool
  sbuf_of :: addr               \<comment> \<open>\<open>buf\<close> points into this block\<close>
  buf :: int                    \<comment> \<open>at this offset\<close>

definition jit_line :: "tick \<Rightarrow> 64 word \<Rightarrow> string" where
  \<comment> \<open>\<^verbatim>\<open>"%li  %4li  %i   %6i    %i    %s\n"\<close>\<close>
  "jit_line t delta =
     dec (sint (t_jiffies t)) @ ''  '' @ pad (CHR '' '') 4 (dec (sint delta)) @ ''  '' @ dec (of_bool (t_inirq t)) @ ''   '' @
     pad (CHR '' '') 6 (dec (t_pid t)) @ ''    '' @ dec (t_cpu t) @ ''    '' @ t_comm t @ nl"

definition interval :: "64 word" where "interval = 100"

definition jit_timer_fn :: "tick \<Rightarrow> jit_data \<Rightarrow> heap \<Rightarrow> (jit_data \<times> bool \<times> heap) res" where
  \<comment> \<open>the flag: the waiting reader is woken\<close>
  "jit_timer_fn t d h =
     bindE (sprintf_at (sbuf_of d) (buf d) (jit_line t (t_jiffies t - prevjiffies d)) h) (\<lambda>(buf', h').
       let d1 = d\<lparr>buf := buf', left_loops := left_loops d - 1, scheduled := None\<rparr> in
       if left_loops d1 > 0
       then Inr (d1\<lparr>prevjiffies := t_jiffies t, scheduled := Some (By_timer (t_jiffies t + interval))\<rparr>, False, h')
       else Inr (d1, True, h'))"

definition jit_tlet_fn :: "tick \<Rightarrow> jit_data \<Rightarrow> heap \<Rightarrow> (jit_data \<times> bool \<times> heap) res" where
  "jit_tlet_fn t d h =
     bindE (sprintf_at (sbuf_of d) (buf d) (jit_line t (t_jiffies t - prevjiffies d)) h) (\<lambda>(buf', h').
       let d1 = d\<lparr>buf := buf', left_loops := left_loops d - 1, scheduled := None\<rparr> in
       if left_loops d1 \<noteq> 0
       then Inr (d1\<lparr>prevjiffies := t_jiffies t, scheduled := Some (if hi d1 then By_tasklet_hi else By_tasklet)\<rparr>, False, h')
       else Inr (d1, True, h'))"

definition jit_header :: string where
  "jit_header = ''time        duration     inirq    pid       cpu      proc'' @ nl"

definition jit_timer_start :: "kernel \<Rightarrow> 64 word \<Rightarrow> jit_data \<Rightarrow> heap \<Rightarrow> (jit_data option \<times> heap) res" where
  \<comment> \<open>\<open>jit_timer\<close> up to \<open>add_timer\<close>; \<open>None\<close>: no memory, the call returns 0\<close>
  "jit_timer_start k j d h =
     (case new_blk k By_kmalloc 2400 (kmalloc k h 2400) h of (sbuf, h1) \<Rightarrow>
      if sbuf = NULL then Inr (None, h1)
      else bindE (sprintf_at sbuf 0 jit_header h1) (\<lambda>(len, h2).
        Inr (Some (d\<lparr>buf := len, sbuf_of := sbuf, left_loops := 10, prevjiffies := j,
                     scheduled := Some (By_timer (j + interval))\<rparr>), h2)))"

definition jit_tasklet_start :: "kernel \<Rightarrow> bool \<Rightarrow> tick \<Rightarrow> jit_data \<Rightarrow> heap \<Rightarrow> (jit_data option \<times> heap) res" where
  \<comment> \<open>\<open>jit_tasklet\<close> up to the scheduling of the tasklet; \<open>hi\<close>: the file is \<open>JIT_TASKLET_HI\<close>\<close>
  "jit_tasklet_start k high t d h =
     (case new_blk k By_kmalloc 2400 (kmalloc k h 2400) h of (sbuf, h1) \<Rightarrow>
      if sbuf = NULL then Inr (None, h1)
      else bindE (sprintf_at sbuf 0 jit_header h1) (\<lambda>(len, h2).
           bindE (sprintf_at sbuf len (jit_line t 0) h2) (\<lambda>(len', h3).
        Inr (Some (d\<lparr>left_loops := 10, prevjiffies := t_jiffies t, buf := len', sbuf_of := sbuf, hi := high,
                     scheduled := Some (if high then By_tasklet_hi else By_tasklet)\<rparr>), h3))))"

definition jit_finish :: "kernel \<Rightarrow> addr \<Rightarrow> int \<Rightarrow> heap \<Rightarrow> jit_result res" where
  \<comment> \<open>\<open>jit_timer\<close> and \<open>jit_tasklet\<close> after \<open>wait_event_interruptible\<close>, whose result they ignore; the buffer is
      freed only when the copy fails\<close>
  "jit_finish k sbuf ppos h =
     bindE (strlen h sbuf) (\<lambda>len.
     bindE (read_blk h sbuf 0 len) (\<lambda>bs.
       if copy_to_user k bs \<noteq> 0
       then bindE (free_blk By_kmalloc h sbuf) (\<lambda>h'. Inr \<lparr>jr_ret = - EFAULT, jr_pos = ppos, jr_out = bs, jr_heap = h'\<rparr>)
       else Inr \<lparr>jr_ret = int len, jr_pos = ppos, jr_out = bs, jr_heap = h\<rparr>))"

section \<open>Work queue\<close>

record client_data =
  c_left_loops :: int
  c_prevjiffies :: "64 word"
  c_delay :: int
  c_scheduled :: "sched option"
  c_sbuf :: addr
  c_buf :: int

definition jiq_line :: "tick \<Rightarrow> 64 word \<Rightarrow> string" where
  \<comment> \<open>\<^verbatim>\<open>"%li  %li   %i   %i   %i   %s\n"\<close>\<close>
  "jiq_line t delta =
     dec (sint (t_jiffies t)) @ ''  '' @ dec (sint delta) @ ''   '' @ dec (of_bool (t_inirq t)) @ ''   '' @
     dec (t_pid t) @ ''   '' @ dec (t_cpu t) @ ''   '' @ t_comm t @ nl"

definition jiq_print :: "tick \<Rightarrow> client_data \<Rightarrow> heap \<Rightarrow> (int \<times> client_data \<times> heap) res" where
  "jiq_print t d h =
     (let d1 = d\<lparr>c_left_loops := s32 (c_left_loops d - 1)\<rparr> in
      bindE (sprintf_at (c_sbuf d1) (c_buf d1) (jiq_line t (t_jiffies t - c_prevjiffies d1)) h) (\<lambda>(buf', h').
        Inr (c_left_loops d1, d1\<lparr>c_buf := buf', c_prevjiffies := t_jiffies t\<rparr>, h')))"

definition jiq_print_wq :: "tick \<Rightarrow> client_data \<Rightarrow> heap \<Rightarrow> (client_data \<times> bool \<times> heap) res" where
  "jiq_print_wq t d h =
     bindE (jiq_print t (d\<lparr>c_scheduled := None\<rparr>) h) (\<lambda>(r, d', h').
       if r = 0 then Inr (d', True, h') else Inr (d'\<lparr>c_scheduled := Some By_work\<rparr>, False, h'))"

definition jiq_print_delayed_wq :: "tick \<Rightarrow> client_data \<Rightarrow> heap \<Rightarrow> (client_data \<times> bool \<times> heap) res" where
  "jiq_print_delayed_wq t d h =
     bindE (jiq_print t (d\<lparr>c_scheduled := None\<rparr>) h) (\<lambda>(r, d', h').
       if r = 0 then Inr (d', True, h') else Inr (d'\<lparr>c_scheduled := Some (By_delayed_work (c_delay d'))\<rparr>, False, h'))"

definition schedule_wq :: "client_data \<Rightarrow> nat \<Rightarrow> client_data" where
  \<comment> \<open>\<open>JIT_WQ\<close> is 0\<close>
  "schedule_wq d param = d\<lparr>c_scheduled := Some (if param = 0 then By_work else By_delayed_work (c_delay d))\<rparr>"

definition jiq_header :: string where
  "jiq_header = ''time   delta   preempt    pid    cpu    command'' @ nl"

definition jiq_wq_start ::
  "kernel \<Rightarrow> nat \<Rightarrow> 64 word \<Rightarrow> int \<Rightarrow> client_data \<Rightarrow> heap \<Rightarrow> (client_data option \<times> heap) res" where
  \<comment> \<open>\<open>jiq_wq\<close> up to \<open>schedule\<close>; \<open>None\<close>: it has returned 0\<close>
  "jiq_wq_start k param j ppos d h =
     (case new_blk k By_kmalloc 2400 (kmalloc k h 2400) h of (sbuf, h1) \<Rightarrow>
      if sbuf = NULL then Inr (None, h1)
      else if ppos > 0 then bindE (free_blk By_kmalloc h1 sbuf) (\<lambda>h2. Inr (None, h2))
      else bindE (sprintf_at sbuf 0 jiq_header h1) (\<lambda>(len, h2).
        Inr (Some (schedule_wq (d\<lparr>c_left_loops := 5, c_prevjiffies := j, c_delay := (if param = 0 then 0 else 1),
               c_sbuf := sbuf, c_buf := len\<rparr>) param), h2)))"

definition jiq_wq_finish :: "kernel \<Rightarrow> addr \<Rightarrow> client_data \<Rightarrow> int \<Rightarrow> heap \<Rightarrow> jit_result res" where
  \<comment> \<open>\<open>jiq_wq\<close> after \<open>schedule\<close>: \<open>len = cdata.buf - sbuf\<close>\<close>
  "jiq_wq_finish k sbuf d ppos h =
     give_text k sbuf (int (c_sbuf d) + c_buf d - int sbuf) ppos (s64 (ppos + (int (c_sbuf d) + c_buf d - int sbuf))) h"

section \<open>Repeated firing\<close>

fun run_fires ::
  "('e \<Rightarrow> 'd \<Rightarrow> heap \<Rightarrow> ('d \<times> bool \<times> heap) res) \<Rightarrow> 'e list \<Rightarrow> 'd \<Rightarrow> heap \<Rightarrow> ('d \<times> bool list \<times> heap) res" where
  "run_fires fire [] d h = Inr (d, [], h)"
| "run_fires fire (e # es) d h =
     bindE (fire e d h) (\<lambda>(d1, w, h1).
     bindE (run_fires fire es d1 h1) (\<lambda>(d2, ws, h2). Inr (d2, w # ws, h2)))"

fun tick_lines :: "(tick \<Rightarrow> 64 word \<Rightarrow> string) \<Rightarrow> 64 word \<Rightarrow> tick list \<Rightarrow> string" where
  "tick_lines ln prev [] = []"
| "tick_lines ln prev (t # ts) = ln t (t_jiffies t - prev) @ tick_lines ln (t_jiffies t) ts"

text \<open>
  The contract of a deferred function: it appends one line at \<open>off\<close> in the block \<open>base\<close>, counts down,
  and either queues itself again or, at zero, wakes the reader.
\<close>

locale repeater =
  fixes fire :: "tick \<Rightarrow> 'd \<Rightarrow> heap \<Rightarrow> ('d \<times> bool \<times> heap) res" and ln :: "tick \<Rightarrow> 64 word \<Rightarrow> string"
    and left :: "'d \<Rightarrow> nat" and prev :: "'d \<Rightarrow> 64 word" and queued :: "'d \<Rightarrow> bool"
    and base :: "'d \<Rightarrow> addr" and off :: "'d \<Rightarrow> int" and bound :: nat
  assumes fire_ok: "holds_text h0 (base d) cap s h \<Longrightarrow> off d = int (length s) \<Longrightarrow> 0 < left d \<Longrightarrow> left d < 2 ^ 31 \<Longrightarrow>
      length s + length (ln t (t_jiffies t - prev d)) < cap \<Longrightarrow>
      \<exists>d' h'. fire t d h = Inr (d', left d = 1, h') \<and> holds_text h0 (base d) cap (s @ ln t (t_jiffies t - prev d)) h' \<and>
        base d' = base d \<and> off d' = int (length (s @ ln t (t_jiffies t - prev d))) \<and> left d' = left d - 1 \<and>
        queued d' = (left d \<noteq> 1) \<and> (left d \<noteq> 1 \<longrightarrow> prev d' = t_jiffies t)"
    and fire_freed: "base d \<noteq> NULL \<Longrightarrow> fmlookup (hp_blk h) (base d) = None \<Longrightarrow> fire t d h = Inl Bad_access"
    and line_short: "tick_ok t \<Longrightarrow> length (ln t delta) \<le> bound"
begin

lemma lines_short: "list_all tick_ok ts \<Longrightarrow> length (tick_lines ln p ts) \<le> bound * length ts"
proof (induction ts arbitrary: p)
  case (Cons t ts)
  have "length (ln t (t_jiffies t - p)) \<le> bound" using Cons.prems by (simp add: line_short)
  moreover have "length (tick_lines ln (t_jiffies t) ts) \<le> bound * length ts" using Cons by simp
  ultimately show ?case by simp
qed simp

lemma partial_run:
  "holds_text h0 (base d) cap s h \<Longrightarrow> off d = int (length s) \<Longrightarrow> length ts < left d \<Longrightarrow> left d < 2 ^ 31 \<Longrightarrow>
   list_all tick_ok ts \<Longrightarrow> length s + bound * length ts < cap \<Longrightarrow> queued d \<Longrightarrow>
   \<exists>d' h'. run_fires fire ts d h = Inr (d', replicate (length ts) False, h') \<and>
     holds_text h0 (base d) cap (s @ tick_lines ln (prev d) ts) h' \<and> left d' = left d - length ts \<and> queued d' \<and>
     base d' = base d \<and> off d' = int (length (s @ tick_lines ln (prev d) ts)) \<and>
     (ts \<noteq> [] \<longrightarrow> prev d' = t_jiffies (last ts)) \<and> (ts = [] \<longrightarrow> prev d' = prev d)"
proof (induction ts arbitrary: d s h)
  case (Cons t ts)
  let ?l = "ln t (t_jiffies t - prev d)"
  have l: "length ?l \<le> bound" using Cons.prems(5) by (simp add: line_short)
  then have "length s + length ?l < cap" using Cons.prems(6) by simp
  with fire_ok [OF Cons.prems(1,2) _ Cons.prems(4), of t] Cons.prems(3)
  obtain d1 h1 where 1: "fire t d h = Inr (d1, False, h1)" "holds_text h0 (base d) cap (s @ ?l) h1" "base d1 = base d"
    "off d1 = int (length (s @ ?l))" "left d1 = left d - 1" "queued d1" "prev d1 = t_jiffies t"
    by fastforce
  have "\<exists>d' h'. run_fires fire ts d1 h1 = Inr (d', replicate (length ts) False, h') \<and>
     holds_text h0 (base d1) cap ((s @ ?l) @ tick_lines ln (prev d1) ts) h' \<and> left d' = left d1 - length ts \<and> queued d' \<and>
     base d' = base d1 \<and> off d' = int (length ((s @ ?l) @ tick_lines ln (prev d1) ts)) \<and>
     (ts \<noteq> [] \<longrightarrow> prev d' = t_jiffies (last ts)) \<and> (ts = [] \<longrightarrow> prev d' = prev d1)"
    using Cons.prems l 1 by (intro Cons.IH) simp_all
  with 1 Cons.prems(3) show ?case by auto
qed (simp)

lemma full_run:
  "holds_text h0 (base d) cap s h \<Longrightarrow> off d = int (length s) \<Longrightarrow> length ts = left d \<Longrightarrow> 0 < left d \<Longrightarrow> left d < 2 ^ 31 \<Longrightarrow>
   list_all tick_ok ts \<Longrightarrow> length s + bound * length ts < cap \<Longrightarrow>
   \<exists>d' h'. run_fires fire ts d h = Inr (d', replicate (left d - 1) False @ [True], h') \<and>
     holds_text h0 (base d) cap (s @ tick_lines ln (prev d) ts) h' \<and> left d' = 0 \<and> \<not> queued d' \<and> base d' = base d \<and>
     off d' = int (length (s @ tick_lines ln (prev d) ts))"
proof (induction ts arbitrary: d s h)
  case (Cons t ts)
  let ?l = "ln t (t_jiffies t - prev d)"
  have l: "length ?l \<le> bound" using Cons.prems(6) by (simp add: line_short)
  then have fit: "length s + length ?l < cap" and rest: "length (s @ ?l) + bound * length ts < cap"
    using Cons.prems(7) by simp_all
  obtain d1 h1 where 1: "fire t d h = Inr (d1, left d = 1, h1)" "holds_text h0 (base d) cap (s @ ?l) h1" "base d1 = base d"
    "off d1 = int (length (s @ ?l))" "left d1 = left d - 1" "queued d1 = (left d \<noteq> 1)" "left d \<noteq> 1 \<longrightarrow> prev d1 = t_jiffies t"
    using fire_ok [OF Cons.prems(1,2,4,5) fit] by blast
  show ?case
  proof (cases "left d = 1")
    case True
    with 1 Cons.prems(3) show ?thesis by auto
  next
    case False
    have "\<exists>d' h'. run_fires fire ts d1 h1 = Inr (d', replicate (left d1 - 1) False @ [True], h') \<and>
       holds_text h0 (base d1) cap ((s @ ?l) @ tick_lines ln (prev d1) ts) h' \<and> left d' = 0 \<and> \<not> queued d' \<and> base d' = base d1 \<and>
       off d' = int (length ((s @ ?l) @ tick_lines ln (prev d1) ts))"
      using False Cons.prems(1-6) rest 1 by (intro Cons.IH) simp_all
    moreover have "replicate (left d - 1) False = False # replicate (left d1 - 1) False"
      using False Cons.prems(4) 1(5) by (cases "left d - 1") simp_all
    ultimately show ?thesis using False 1 by auto
  qed
qed simp

end

section \<open>The four deferred functions\<close>

lemma dec_int_length: "\<bar>i\<bar> < 2 ^ 31 \<Longrightarrow> length (dec i) \<le> 11"
  using dec_length [of i 10] by simp

lemma dec_long_length: "length (dec (sint w)) \<le> 20" for w :: "64 word"
proof -
  have "\<bar>sint w\<bar> < 10 ^ 19" using signed_64_range [of w] by (simp add: abs_less_iff)
  from dec_length [OF this] show ?thesis by simp
qed

lemma dec_bool_length: "length (dec (of_bool b)) = 1"
  by (cases b) (simp_all add: dec_def dec_nat.simps)

lemma jit_line_short: "tick_ok t \<Longrightarrow> length (jit_line t delta) \<le> 94"
  using dec_long_length [of "t_jiffies t"] dec_long_length [of delta] dec_bool_length [of "t_inirq t"]
    dec_int_length [of "t_pid t"] dec_int_length [of "t_cpu t"]
  by (auto simp: jit_line_def tick_ok_def length_pad nl_def max_def)

lemma jiq_line_short: "tick_ok t \<Longrightarrow> length (jiq_line t delta) \<le> 94"
  using dec_long_length [of "t_jiffies t"] dec_long_length [of delta] dec_bool_length [of "t_inirq t"]
    dec_int_length [of "t_pid t"] dec_int_length [of "t_cpu t"]
  by (simp add: jiq_line_def tick_ok_def nl_def)

lemma sprintf_at_freed: "p \<noteq> NULL \<Longrightarrow> fmlookup (hp_blk h) p = None \<Longrightarrow> sprintf_at p len s h = Inl Bad_access"
  by (simp add: sprintf_at_def write_blk_def load_def)

lemma sprintf_at_fits:
  assumes "holds_text h0 p cap s h" and "length s + length t < cap"
  obtains h' where "sprintf_at p (int (length s)) t h = Inr (int (length (s @ t)), h')" "holds_text h0 p cap (s @ t) h'"
  by (rule prints_fits [OF prints_sprintf assms])

lemma left_minus_one:
  fixes l :: "32 word"
  assumes "0 < unat l"
  shows "unat (l - 1) = unat l - 1" "(0 < l - 1) = (unat l \<noteq> 1)" "(l = 1) = (unat l = 1)"
proof -
  show u: "unat (l - 1) = unat l - 1" using assms by (simp add: unat_sub word_le_nat_alt)
  then show "(0 < l - 1) = (unat l \<noteq> 1)" using assms by (auto simp: word_less_nat_alt)
  show "(l = 1) = (unat l = 1)" by (auto simp: word_unat_eq_iff)
qed

abbreviation jd_left :: "jit_data \<Rightarrow> nat" where "jd_left d \<equiv> unat (left_loops d)"
abbreviation jd_queued :: "jit_data \<Rightarrow> bool" where "jd_queued d \<equiv> scheduled d \<noteq> None"
abbreviation cd_left :: "client_data \<Rightarrow> nat" where "cd_left d \<equiv> nat (c_left_loops d)"
abbreviation cd_queued :: "client_data \<Rightarrow> bool" where "cd_queued d \<equiv> c_scheduled d \<noteq> None"

interpretation jt: repeater jit_timer_fn jit_line jd_left prevjiffies jd_queued sbuf_of buf 94
proof
  fix h0 cap s h t and d :: jit_data
  let ?l = "jit_line t (t_jiffies t - prevjiffies d)"
  assume a: "holds_text h0 (sbuf_of d) cap s h" "buf d = int (length s)" "0 < jd_left d" "length s + length ?l < cap"
  obtain h' where "sprintf_at (sbuf_of d) (int (length s)) ?l h = Inr (int (length (s @ ?l)), h')"
    "holds_text h0 (sbuf_of d) cap (s @ ?l) h'"
    by (rule sprintf_at_fits [OF a(1,4)])
  then show "\<exists>d' h'. jit_timer_fn t d h = Inr (d', jd_left d = 1, h') \<and> holds_text h0 (sbuf_of d) cap (s @ ?l) h' \<and>
      sbuf_of d' = sbuf_of d \<and> buf d' = int (length (s @ ?l)) \<and> jd_left d' = jd_left d - 1 \<and>
      jd_queued d' = (jd_left d \<noteq> 1) \<and> (jd_left d \<noteq> 1 \<longrightarrow> prevjiffies d' = t_jiffies t)"
    using a(2,3) by (simp add: jit_timer_fn_def Let_def left_minus_one)
qed (simp_all add: jit_timer_fn_def sprintf_at_freed jit_line_short)

interpretation jl: repeater jit_tlet_fn jit_line jd_left prevjiffies jd_queued sbuf_of buf 94
proof
  fix h0 cap s h t and d :: jit_data
  let ?l = "jit_line t (t_jiffies t - prevjiffies d)"
  assume a: "holds_text h0 (sbuf_of d) cap s h" "buf d = int (length s)" "0 < jd_left d" "length s + length ?l < cap"
  obtain h' where "sprintf_at (sbuf_of d) (int (length s)) ?l h = Inr (int (length (s @ ?l)), h')"
    "holds_text h0 (sbuf_of d) cap (s @ ?l) h'"
    by (rule sprintf_at_fits [OF a(1,4)])
  then show "\<exists>d' h'. jit_tlet_fn t d h = Inr (d', jd_left d = 1, h') \<and> holds_text h0 (sbuf_of d) cap (s @ ?l) h' \<and>
      sbuf_of d' = sbuf_of d \<and> buf d' = int (length (s @ ?l)) \<and> jd_left d' = jd_left d - 1 \<and>
      jd_queued d' = (jd_left d \<noteq> 1) \<and> (jd_left d \<noteq> 1 \<longrightarrow> prevjiffies d' = t_jiffies t)"
    using a(2,3) by (simp add: jit_tlet_fn_def Let_def left_minus_one)
qed (simp_all add: jit_tlet_fn_def sprintf_at_freed jit_line_short)

lemma jiq_print_ok:
  assumes "holds_text h0 (c_sbuf d) cap s h" "c_buf d = int (length s)" "0 < cd_left d" "cd_left d < 2 ^ 31"
    "length s + length (jiq_line t (t_jiffies t - c_prevjiffies d)) < cap"
  obtains h' where "jiq_print t d h = Inr (c_left_loops d - 1, d\<lparr>c_left_loops := c_left_loops d - 1,
      c_buf := int (length (s @ jiq_line t (t_jiffies t - c_prevjiffies d))), c_prevjiffies := t_jiffies t\<rparr>, h')"
    "holds_text h0 (c_sbuf d) cap (s @ jiq_line t (t_jiffies t - c_prevjiffies d)) h'"
proof -
  have "s32 (c_left_loops d - 1) = c_left_loops d - 1" using assms(3,4) by (intro s32_id) simp_all
  moreover obtain h' where "sprintf_at (c_sbuf d) (int (length s)) (jiq_line t (t_jiffies t - c_prevjiffies d)) h =
      Inr (int (length (s @ jiq_line t (t_jiffies t - c_prevjiffies d))), h')"
    "holds_text h0 (c_sbuf d) cap (s @ jiq_line t (t_jiffies t - c_prevjiffies d)) h'"
    by (rule sprintf_at_fits [OF assms(1,5)])
  ultimately show thesis using assms(2) by (intro that) (simp_all add: jiq_print_def Let_def)
qed

interpretation jw: repeater jiq_print_wq jiq_line cd_left c_prevjiffies cd_queued c_sbuf c_buf 94
proof
  fix h0 cap s h t and d :: client_data
  let ?d = "d\<lparr>c_scheduled := None\<rparr>"
  assume a: "holds_text h0 (c_sbuf d) cap s h" "c_buf d = int (length s)" "0 < cd_left d" "cd_left d < 2 ^ 31"
    "length s + length (jiq_line t (t_jiffies t - c_prevjiffies d)) < cap"
  show "\<exists>d' h'. jiq_print_wq t d h = Inr (d', cd_left d = 1, h') \<and>
      holds_text h0 (c_sbuf d) cap (s @ jiq_line t (t_jiffies t - c_prevjiffies d)) h' \<and>
      c_sbuf d' = c_sbuf d \<and> c_buf d' = int (length (s @ jiq_line t (t_jiffies t - c_prevjiffies d))) \<and> cd_left d' = cd_left d - 1 \<and>
      cd_queued d' = (cd_left d \<noteq> 1) \<and> (cd_left d \<noteq> 1 \<longrightarrow> c_prevjiffies d' = t_jiffies t)"
    by (rule jiq_print_ok [of h0 ?d cap s h t]) (use a in \<open>auto simp: jiq_print_wq_def nat_diff_distrib\<close>)
qed (simp_all add: jiq_print_wq_def jiq_print_def Let_def sprintf_at_freed jiq_line_short)

interpretation jdw: repeater jiq_print_delayed_wq jiq_line cd_left c_prevjiffies cd_queued c_sbuf c_buf 94
proof
  fix h0 cap s h t and d :: client_data
  let ?d = "d\<lparr>c_scheduled := None\<rparr>"
  assume a: "holds_text h0 (c_sbuf d) cap s h" "c_buf d = int (length s)" "0 < cd_left d" "cd_left d < 2 ^ 31"
    "length s + length (jiq_line t (t_jiffies t - c_prevjiffies d)) < cap"
  show "\<exists>d' h'. jiq_print_delayed_wq t d h = Inr (d', cd_left d = 1, h') \<and>
      holds_text h0 (c_sbuf d) cap (s @ jiq_line t (t_jiffies t - c_prevjiffies d)) h' \<and>
      c_sbuf d' = c_sbuf d \<and> c_buf d' = int (length (s @ jiq_line t (t_jiffies t - c_prevjiffies d))) \<and> cd_left d' = cd_left d - 1 \<and>
      cd_queued d' = (cd_left d \<noteq> 1) \<and> (cd_left d \<noteq> 1 \<longrightarrow> c_prevjiffies d' = t_jiffies t)"
    by (rule jiq_print_ok [of h0 ?d cap s h t]) (use a in \<open>auto simp: jiq_print_delayed_wq_def nat_diff_distrib\<close>)
qed (simp_all add: jiq_print_delayed_wq_def jiq_print_def Let_def sprintf_at_freed jiq_line_short)

section \<open>Whole reads\<close>

lemma give_text_ok:
  assumes "holds_text h1 p cap s h2" and "free_blk By_kmalloc h2 p = Inr h" and "cap \<le> 2 ^ 64"
  shows "give_text k p (int (length s)) ppos pos' h2 =
    Inr (if copy_to_user k (text_bytes s) \<noteq> 0
         then \<lparr>jr_ret = - EFAULT, jr_pos = ppos, jr_out = text_bytes s, jr_heap = h\<rparr>
         else \<lparr>jr_ret = int (length s), jr_pos = pos', jr_out = text_bytes s, jr_heap = h\<rparr>)"
proof -
  have "length s < cap" using assms(1) by (simp add: holds_text_def)
  then have "u64 (int (length s)) = length s" using assms(3) by (simp add: u64_id)
  then show ?thesis using read_text [OF assms(1)] assms(2) by (simp add: give_text_def)
qed

lemma jit_finish_ok:
  assumes "holds_text h1 p cap s h2" and "s \<noteq> []" and "no_nul s" and "free_blk By_kmalloc h2 p = Inr h"
  shows "jit_finish k p ppos h2 =
    Inr (if copy_to_user k (text_bytes s) \<noteq> 0
         then \<lparr>jr_ret = - EFAULT, jr_pos = ppos, jr_out = text_bytes s, jr_heap = h\<rparr>
         else \<lparr>jr_ret = int (length s), jr_pos = ppos, jr_out = text_bytes s, jr_heap = h2\<rparr>)"
  using strlen_text [OF assms(1-3)] read_text [OF assms(1)] assms(4) by (simp add: jit_finish_def)

lemma jit_line_no_nul: "tick_ok t \<Longrightarrow> no_nul (jit_line t delta)"
  by (simp add: jit_line_def tick_ok_def)

lemma jit_lines_no_nul: "list_all tick_ok ts \<Longrightarrow> no_nul (tick_lines jit_line p ts)"
  by (induction ts arbitrary: p) (simp_all add: jit_line_no_nul)

lemma jit_header_simps: "length jit_header = 58" "no_nul jit_header" "jit_header \<noteq> []"
  by (simp_all add: jit_header_def nl_def)

text \<open>
  What a completed read of a timer or tasklet file looks like: the text is handed out, and the buffer
  is freed when the copy fails and kept otherwise.
\<close>

definition jit_read_done :: "kernel \<Rightarrow> addr \<Rightarrow> string \<Rightarrow> int \<Rightarrow> heap \<Rightarrow> heap \<Rightarrow> jit_result \<Rightarrow> bool" where
  "jit_read_done k sbuf s ppos h h2 r \<longleftrightarrow>
     jr_out r = text_bytes s \<and> jr_pos r = ppos \<and>
     (if copy_to_user k (text_bytes s) \<noteq> 0 then jr_ret r = - EFAULT \<and> jr_heap r = h
      else jr_ret r = int (length s) \<and> jr_heap r = h2 \<and> sbuf \<in> allocated h2 - allocated h)"

lemma jit_finish_done:
  assumes "kernel_ok k" and "kmalloc k h n \<noteq> NULL" and "holds_text h1 (kmalloc k h n) cap s h2" and "s \<noteq> []" and "no_nul s"
    and "free_blk By_kmalloc h2 (kmalloc k h n) = Inr h"
  shows "\<exists>r. jit_finish k (kmalloc k h n) ppos h2 = Inr r \<and> jit_read_done k (kmalloc k h n) s ppos h h2 r"
proof -
  have "kmalloc k h n \<in> allocated h2" using assms(3) by (auto simp: holds_text_def allocated_def fmlookup_dom'_iff)
  with jit_finish_ok [OF assms(3-6), of k ppos] kmalloc_fresh [OF assms(1,2)] show ?thesis
    by (simp add: jit_read_done_def)
qed

lemma jit_start:
  assumes "kernel_ok k" and "kmalloc k h 2400 \<noteq> NULL"
  obtains h0 h1 where "new_blk k By_kmalloc 2400 (kmalloc k h 2400) h = (kmalloc k h 2400, h0)"
    "sprintf_at (kmalloc k h 2400) 0 jit_header h0 = Inr (int (length jit_header), h1)"
    "holds_text h0 (kmalloc k h 2400) 2400 jit_header h1"
    "\<forall>s h2. holds_text h0 (kmalloc k h 2400) 2400 s h2 \<longrightarrow> free_blk By_kmalloc h2 (kmalloc k h 2400) = Inr h"
proof (rule new_text_buffer [OF assms])
  let ?p = "kmalloc k h 2400"
  fix h0 assume b: "new_blk k By_kmalloc 2400 ?p h = (?p, h0)" "holds_text h0 ?p 2400 [] h0"
    "\<And>s h2. holds_text h0 ?p 2400 s h2 \<Longrightarrow> free_blk By_kmalloc h2 ?p = Inr h"
  obtain h1 where "sprintf_at ?p 0 jit_header h0 = Inr (int (length jit_header), h1)" "holds_text h0 ?p 2400 jit_header h1"
    using sprintf_at_fits [OF b(2), of jit_header] by (auto simp: jit_header_simps)
  with b show thesis by (intro that) auto
qed simp

lemma jit_timer_complete:
  assumes "kernel_ok k" and "kmalloc k h 2400 \<noteq> NULL" and "length ts = 10" and "list_all tick_ok ts"
  shows "\<exists>d1 h1 d2 h2 r. jit_timer_start k j d h = Inr (Some d1, h1) \<and>
      run_fires jit_timer_fn ts d1 h1 = Inr (d2, replicate 9 False @ [True], h2) \<and> left_loops d2 = 0 \<and> scheduled d2 = None \<and>
      jit_finish k (sbuf_of d1) ppos h2 = Inr r \<and>
      jit_read_done k (sbuf_of d1) (jit_header @ tick_lines jit_line j ts) ppos h h2 r"
proof -
  let ?p = "kmalloc k h 2400"
  obtain h0 h1 where b: "new_blk k By_kmalloc 2400 ?p h = (?p, h0)"
    "sprintf_at ?p 0 jit_header h0 = Inr (int (length jit_header), h1)" "holds_text h0 ?p 2400 jit_header h1"
    "\<forall>s h2. holds_text h0 ?p 2400 s h2 \<longrightarrow> free_blk By_kmalloc h2 ?p = Inr h"
    by (rule jit_start [OF assms(1,2)])
  define d1 where "d1 = d\<lparr>buf := int (length jit_header), sbuf_of := ?p, left_loops := 10, prevjiffies := j,
                   scheduled := Some (By_timer (j + interval))\<rparr>"
  have st: "jit_timer_start k j d h = Inr (Some d1, h1)"
    using b(1,2) assms(2) by (simp add: jit_timer_start_def d1_def)
  have "\<exists>d2 h2. run_fires jit_timer_fn ts d1 h1 = Inr (d2, replicate (jd_left d1 - 1) False @ [True], h2) \<and>
    holds_text h0 (sbuf_of d1) 2400 (jit_header @ tick_lines jit_line (prevjiffies d1) ts) h2 \<and> jd_left d2 = 0 \<and> \<not> jd_queued d2 \<and>
    sbuf_of d2 = sbuf_of d1 \<and> buf d2 = int (length (jit_header @ tick_lines jit_line (prevjiffies d1) ts))"
    using b(3) assms(3,4) by (intro jt.full_run) (simp_all add: d1_def jit_header_simps)
  then obtain d2 h2 where 2: "run_fires jit_timer_fn ts d1 h1 = Inr (d2, replicate 9 False @ [True], h2)"
    "holds_text h0 ?p 2400 (jit_header @ tick_lines jit_line j ts) h2" "left_loops d2 = 0" "scheduled d2 = None"
    by (auto simp: d1_def unat_eq_zero)
  show ?thesis
    using st 2 jit_finish_done [OF assms(1,2) 2(2), of ppos] b(4) [rule_format, OF 2(2)] jit_lines_no_nul [OF assms(4)]
    by (auto simp: jit_header_simps d1_def)
qed

lemma jit_tasklet_complete:
  assumes "kernel_ok k" and "kmalloc k h 2400 \<noteq> NULL" and "length ts = 10" and "list_all tick_ok ts" and "tick_ok t0"
  shows "\<exists>d1 h1 d2 h2 r. jit_tasklet_start k high t0 d h = Inr (Some d1, h1) \<and>
      run_fires jit_tlet_fn ts d1 h1 = Inr (d2, replicate 9 False @ [True], h2) \<and> left_loops d2 = 0 \<and> scheduled d2 = None \<and>
      jit_finish k (sbuf_of d1) ppos h2 = Inr r \<and>
      jit_read_done k (sbuf_of d1) (jit_header @ jit_line t0 0 @ tick_lines jit_line (t_jiffies t0) ts) ppos h h2 r"
proof -
  let ?p = "kmalloc k h 2400" and ?s = "jit_header @ jit_line t0 0"
  obtain h0 h1 where b: "new_blk k By_kmalloc 2400 ?p h = (?p, h0)"
    "sprintf_at ?p 0 jit_header h0 = Inr (int (length jit_header), h1)" "holds_text h0 ?p 2400 jit_header h1"
    "\<forall>s h2. holds_text h0 ?p 2400 s h2 \<longrightarrow> free_blk By_kmalloc h2 ?p = Inr h"
    by (rule jit_start [OF assms(1,2)])
  have "length jit_header + length (jit_line t0 0) < 2400"
    using jit_line_short [OF assms(5), of 0] by (simp add: jit_header_simps)
  then obtain h2 where 2: "sprintf_at ?p (int (length jit_header)) (jit_line t0 0) h1 = Inr (int (length ?s), h2)"
    "holds_text h0 ?p 2400 ?s h2"
    by (rule sprintf_at_fits [OF b(3)])
  define d1 where "d1 = d\<lparr>left_loops := 10, prevjiffies := t_jiffies t0, buf := int (length ?s), sbuf_of := ?p, hi := high,
                   scheduled := Some (if high then By_tasklet_hi else By_tasklet)\<rparr>"
  have st: "jit_tasklet_start k high t0 d h = Inr (Some d1, h2)"
    using b(1,2) 2(1) assms(2) by (simp add: jit_tasklet_start_def d1_def)
  have "\<exists>d2 h3. run_fires jit_tlet_fn ts d1 h2 = Inr (d2, replicate (jd_left d1 - 1) False @ [True], h3) \<and>
    holds_text h0 (sbuf_of d1) 2400 (?s @ tick_lines jit_line (prevjiffies d1) ts) h3 \<and> jd_left d2 = 0 \<and> \<not> jd_queued d2 \<and>
    sbuf_of d2 = sbuf_of d1 \<and> buf d2 = int (length (?s @ tick_lines jit_line (prevjiffies d1) ts))"
    using 2(2) assms(3,4) jit_line_short [OF assms(5), of 0] by (intro jl.full_run) (simp_all add: d1_def jit_header_simps)
  then obtain d2 h3 where 3: "run_fires jit_tlet_fn ts d1 h2 = Inr (d2, replicate 9 False @ [True], h3)"
    "holds_text h0 ?p 2400 (?s @ tick_lines jit_line (t_jiffies t0) ts) h3" "left_loops d2 = 0" "scheduled d2 = None"
    by (auto simp: d1_def unat_eq_zero)
  show ?thesis
    using st 3 jit_finish_done [OF assms(1,2) 3(2), of ppos] b(4) [rule_format, OF 3(2)] jit_lines_no_nul [OF assms(4)] jit_line_no_nul [OF assms(5)]
    by (auto simp: jit_header_simps d1_def)
qed

definition jiq_fire :: "nat \<Rightarrow> tick \<Rightarrow> client_data \<Rightarrow> heap \<Rightarrow> (client_data \<times> bool \<times> heap) res" where
  \<comment> \<open>the function of the work item that \<open>schedule_wq\<close> queues\<close>
  "jiq_fire param = (if param = 0 then jiq_print_wq else jiq_print_delayed_wq)"

interpretation jq: repeater "jiq_fire param" jiq_line cd_left c_prevjiffies cd_queued c_sbuf c_buf 94
  using jw.repeater_axioms jdw.repeater_axioms by (cases "param = 0") (simp_all add: jiq_fire_def)

lemma jiq_runs:
  assumes ht: "holds_text h0 (c_sbuf d) 2400 s h" and off: "c_buf d = int (length s)" and five: "c_left_loops d = 5" "cd_queued d"
    and ts: "length ts \<le> 5" "list_all tick_ok ts" and s: "length s < 100"
  obtains d' ws h' where "run_fires (jiq_fire param) ts d h = Inr (d', ws, h')"
    "holds_text h0 (c_sbuf d) 2400 (s @ tick_lines jiq_line (c_prevjiffies d) ts) h'" "c_sbuf d' = c_sbuf d"
    "c_buf d' = int (length (s @ tick_lines jiq_line (c_prevjiffies d) ts))"
    "if length ts = 5 then ws = replicate 4 False @ [True] \<and> c_scheduled d' = None
     else ws = replicate (length ts) False \<and> c_scheduled d' \<noteq> None"
proof (cases "length ts = 5")
  case True
  have "\<exists>d' h'. run_fires (jiq_fire param) ts d h = Inr (d', replicate (cd_left d - 1) False @ [True], h') \<and>
     holds_text h0 (c_sbuf d) 2400 (s @ tick_lines jiq_line (c_prevjiffies d) ts) h' \<and> cd_left d' = 0 \<and> \<not> cd_queued d' \<and>
     c_sbuf d' = c_sbuf d \<and> c_buf d' = int (length (s @ tick_lines jiq_line (c_prevjiffies d) ts))"
    using True ht off five ts s by (intro jq.full_run) simp_all
  with True five that show thesis by auto
next
  case False
  have "\<exists>d' h'. run_fires (jiq_fire param) ts d h = Inr (d', replicate (length ts) False, h') \<and>
     holds_text h0 (c_sbuf d) 2400 (s @ tick_lines jiq_line (c_prevjiffies d) ts) h' \<and> cd_left d' = cd_left d - length ts \<and> cd_queued d' \<and>
     c_sbuf d' = c_sbuf d \<and> c_buf d' = int (length (s @ tick_lines jiq_line (c_prevjiffies d) ts)) \<and>
     (ts \<noteq> [] \<longrightarrow> c_prevjiffies d' = t_jiffies (last ts)) \<and> (ts = [] \<longrightarrow> c_prevjiffies d' = c_prevjiffies d)"
    using False ht off five ts s by (intro jq.partial_run) simp_all
  with False that show thesis by auto
qed

section \<open>Delays\<close>

lemma busy_loop_stops:
  "\<not> time_before (clock (i + n)) j1 \<Longrightarrow> \<exists>m. busy_loop clock j1 i = Some (Suc m) \<and> i \<le> m \<and> m \<le> i + n \<and> \<not> time_before (clock m) j1"
proof (induction n arbitrary: i)
  case 0
  then show ?case by (subst busy_loop.simps) simp
next
  case (Suc n)
  show ?case
  proof (cases "time_before (clock i) j1")
    case True
    from Suc.IH [of "Suc i"] Suc.prems obtain m where "busy_loop clock j1 (Suc i) = Some (Suc m)" "Suc i \<le> m"
      "m \<le> Suc i + n" "\<not> time_before (clock m) j1" by auto
    with True show ?thesis by (subst busy_loop.simps) auto
  next
    case False
    then show ?thesis by (subst busy_loop.simps) auto
  qed
qed

lemma delay_line_length: "length (delay_line j0 j1) = length (dec (sint j0)) + length (dec (sint j1)) + 2"
  by (simp add: delay_line_def nl_def)

lemma dec_long_digits:
  fixes w :: "64 word"
  assumes "unat w < 2 ^ 63"
  shows "sint w = int (unat w)" "dec (sint w) = dec_nat (unat w)"
proof -
  have "int (unat w) < int (2 ^ 63)" using assms by (simp only: of_nat_less_iff)
  then have "uint w < 2 ^ 63" by simp
  moreover have "- (2 ^ 63) \<le> uint w" by (rule order_trans [OF _ uint_ge_0]) simp
  ultimately show "sint w = int (unat w)" by (simp add: signed_64 s64_id)
  then show "dec (sint w) = dec_nat (unat w)" by (simp only: dec_def) simp
qed

lemma delay_digits:
  fixes v w :: "64 word"
  shows "unat v < 10 ^ 10 \<and> unat w < 10 ^ 10 \<longrightarrow> length (dec (sint v)) + length (dec (sint w)) < 22"
    and "10 ^ 10 \<le> unat v \<and> unat v < 2 ^ 63 \<and> 10 ^ 10 \<le> unat w \<and> unat w < 2 ^ 63 \<longrightarrow>
      \<not> length (dec (sint v)) + length (dec (sint w)) < 22"
proof -
  have "length (dec (sint u)) \<le> 10" if "unat u < 10 ^ 10" for u :: "64 word"
    using that dec_nat_length [of "unat u" 10] dec_long_digits(2) [of u] by simp
  from this [of v] this [of w]
  show "unat v < 10 ^ 10 \<and> unat w < 10 ^ 10 \<longrightarrow> length (dec (sint v)) + length (dec (sint w)) < 22" by linarith
  have "11 \<le> length (dec (sint u))" if "10 ^ 10 \<le> unat u" "unat u < 2 ^ 63" for u :: "64 word"
    using that dec_nat_length_ge [of 10 "unat u"] dec_long_digits(2) [of u] by simp
  from this [of v] this [of w]
  show "10 ^ 10 \<le> unat v \<and> unat v < 2 ^ 63 \<and> 10 ^ 10 \<le> unat w \<and> unat w < 2 ^ 63 \<longrightarrow>
      \<not> length (dec (sint v)) + length (dec (sint w)) < 22" by linarith
qed

lemma timeout_loop_stops: "timeout t = 0 \<Longrightarrow> i \<le> t \<Longrightarrow> \<exists>m. timeout_loop timeout d i = Some m"
proof (induction "t - i" arbitrary: i d)
  case 0
  then have "i = t" by simp
  with 0 show ?case
    using timeout_loop.simps [of timeout d i] timeout_loop.simps [of timeout "timeout i" "Suc i"] by auto
next
  case (Suc n)
  then have "\<exists>m. timeout_loop timeout (timeout i) (Suc i) = Some m" by (intro Suc.hyps(1)) simp_all
  then show ?case by (subst timeout_loop.simps) auto
qed

lemma hex_nat_length: "n < 16 ^ d \<Longrightarrow> 0 < d \<Longrightarrow> length (hex_nat n) \<le> d"
proof (induction n arbitrary: d rule: hex_nat.induct)
  case (1 n)
  show ?case
  proof (cases "n < 16")
    case True
    with 1 show ?thesis by (subst hex_nat.simps) simp
  next
    case False
    with "1.prems" obtain e where d: "d = Suc e" "0 < e" by (cases d; cases "d - 1") auto
    have "n div 16 < 16 ^ e" using "1.prems"(1) d by (simp add: less_mult_imp_div_less mult.commute)
    with "1.IH" [OF False this d(2)] False d show ?thesis by (subst hex_nat.simps) simp
  qed
qed

lemma current_line_short:
  assumes "\<bar>sec\<bar> \<le> 2 ^ 31" and "\<bar>nsec\<bar> \<le> 2 ^ 31"
  shows "length (current_line j1 j2 sec nsec) < 240"
proof -
  have "length (hex_nat (unat w)) \<le> 16" for w :: "64 word"
    using unsigned_less [where 'a = nat, of w] by (intro hex_nat_length) simp_all
  from this [of j1] this [of j2] dec_length [of sec 10] dec_length [of nsec 10] assms
  show ?thesis by (simp add: current_line_def length_pad nl_def)
qed

text \<open>The end of both handlers: print into the new buffer, hand the text out, free the buffer.\<close>

definition handed_out :: "kernel \<Rightarrow> string \<Rightarrow> int \<Rightarrow> heap \<Rightarrow> jit_result" where
  "handed_out k s ppos h =
     (if copy_to_user k (text_bytes s) = 0
      then \<lparr>jr_ret = int (length s), jr_pos = s64 (ppos + int (length s)), jr_out = text_bytes s, jr_heap = h\<rparr>
      else \<lparr>jr_ret = - EFAULT, jr_pos = ppos, jr_out = text_bytes s, jr_heap = h\<rparr>)"

lemma print_and_give:
  assumes "kernel_ok k" and "kmalloc k h n \<noteq> NULL" and "0 < n" and "n \<le> 2 ^ 64"
  obtains h0 where "new_blk k By_kmalloc n (kmalloc k h n) h = (kmalloc k h n, h0)"
    and "\<And>s. bindE (sprintf_at (kmalloc k h n) 0 s h0)
           (\<lambda>(len, h2). give_text k (kmalloc k h n) len ppos (s64 (ppos + len)) h2) =
         (if length s < n then Inr (handed_out k s ppos h) else Inl Bad_access)"
proof -
  let ?p = "kmalloc k h n"
  obtain h0 where b: "new_blk k By_kmalloc n ?p h = (?p, h0)" "holds_text h0 ?p n [] h0"
    "\<And>s h2. holds_text h0 ?p n s h2 \<Longrightarrow> free_blk By_kmalloc h2 ?p = Inr h"
    by (rule new_text_buffer [OF assms(1,2)]) (use assms(3) in simp_all)
  have "bindE (sprintf_at ?p 0 s h0) (\<lambda>(len, h2). give_text k ?p len ppos (s64 (ppos + len)) h2) =
         (if length s < n then Inr (handed_out k s ppos h) else Inl Bad_access)" for s
  proof (cases "length s < n")
    case True
    then obtain h1 where 1: "sprintf_at ?p (int (length [])) s h0 = Inr (int (length ([] @ s)), h1)" "holds_text h0 ?p n ([] @ s) h1"
      using sprintf_at_fits [OF b(2), of s] by auto
    with True give_text_ok [OF 1(2) b(3) [OF 1(2)] assms(4), of k ppos "s64 (ppos + int (length s))"] show ?thesis
      by (simp add: handed_out_def)
  next
    case False
    then show ?thesis using prints_full [OF prints_sprintf b(2), of s] by simp
  qed
  with b(1) that show thesis by blast
qed

lemma jit_delay_waited:
  assumes "kernel_ok k" and "kmalloc k h 24 \<noteq> NULL" and "u64 ppos < count" and "delay_wait HZ which clock timeout = Some i"
  shows "jit_delay k HZ which clock timeout count ppos h =
    Some (if length (dec (sint (clock 0))) + length (dec (sint (clock i))) < 22
          then Inr (handed_out k (delay_line (clock 0) (clock i)) ppos h) else Inl Bad_access)"
proof -
  obtain h0 where "new_blk k By_kmalloc 24 (kmalloc k h 24) h = (kmalloc k h 24, h0)"
    "\<And>s. bindE (sprintf_at (kmalloc k h 24) 0 s h0)
           (\<lambda>(len, h2). give_text k (kmalloc k h 24) len ppos (s64 (ppos + len)) h2) =
         (if length s < 24 then Inr (handed_out k s ppos h) else Inl Bad_access)"
    using print_and_give [OF assms(1,2), of ppos] by auto
  with assms(2-4) show ?thesis by (simp add: jit_delay_def delay_line_length)
qed

lemma jit_current_ok:
  assumes "kernel_ok k" and "kmalloc k h 240 \<noteq> NULL" and "ppos \<le> 0"
  shows "jit_current k j1 j2 sec nsec ppos h = Inr (handed_out k (current_line j1 j2 (s32 sec) (s32 nsec)) ppos h)"
proof -
  obtain h0 where "new_blk k By_kmalloc 240 (kmalloc k h 240) h = (kmalloc k h 240, h0)"
    "\<And>s. bindE (sprintf_at (kmalloc k h 240) 0 s h0)
           (\<lambda>(len, h2). give_text k (kmalloc k h 240) len ppos (s64 (ppos + len)) h2) =
         (if length s < 240 then Inr (handed_out k s ppos h) else Inl Bad_access)"
    using print_and_give [OF assms(1,2), of ppos] by auto
  moreover have "length (current_line j1 j2 (s32 sec) (s32 nsec)) < 240"
    by (rule current_line_short) (simp_all add: s32_def abs_le_iff)
  ultimately show ?thesis using assms(2,3) by (simp add: jit_current_def)
qed

section \<open>Properties\<close>

text \<open>
  C34. Reading \<^verbatim>\<open>/proc/jitimer\<close> and \<^verbatim>\<open>/proc/jitasklet\<close>: the deferred function runs
  exactly ten times, queueing itself again after each of the first nine and waking the reader at
  the tenth, after which nothing is queued; the header and the ten lines (eleven for the
  tasklet) always fit into the buffer of 2400 bytes, whatever the clock, process and processor; and
  the reader gets exactly this text. After a successful read the buffer is still allocated:
  it is leaked.
\<close>

theorem jit_deferred_complete:
  assumes "kernel_ok k" and "kmalloc k h 2400 \<noteq> NULL" and "length ts = 10" and "list_all tick_ok ts" and "tick_ok t0"
  shows "(\<exists>d1 h1 d2 h2 r. jit_timer_start k j d h = Inr (Some d1, h1) \<and>
      run_fires jit_timer_fn ts d1 h1 = Inr (d2, replicate 9 False @ [True], h2) \<and> left_loops d2 = 0 \<and> scheduled d2 = None \<and>
      jit_finish k (sbuf_of d1) ppos h2 = Inr r \<and>
      jit_read_done k (sbuf_of d1) (jit_header @ tick_lines jit_line j ts) ppos h h2 r) \<and>
    (\<exists>d1 h1 d2 h2 r. jit_tasklet_start k high t0 d h = Inr (Some d1, h1) \<and>
      run_fires jit_tlet_fn ts d1 h1 = Inr (d2, replicate 9 False @ [True], h2) \<and> left_loops d2 = 0 \<and> scheduled d2 = None \<and>
      jit_finish k (sbuf_of d1) ppos h2 = Inr r \<and>
      jit_read_done k (sbuf_of d1) (jit_header @ jit_line t0 0 @ tick_lines jit_line (t_jiffies t0) ts) ppos h h2 r)"
  using jit_timer_complete [OF assms(1-4)] jit_tasklet_complete [OF assms] by (intro conjI)

definition demo_tick :: tick where
  "demo_tick = \<lparr>t_jiffies = 5, t_inirq = True, t_pid = 1, t_cpu = 0, t_comm = ''sh''\<rparr>"

definition demo_jit :: jit_data where
  "demo_jit = \<lparr>left_loops = 0, prevjiffies = 0, scheduled = None, hi = False, sbuf_of = NULL, buf = 0\<rparr>"

lemma demo_tick_ok: "tick_ok demo_tick" "kmalloc simple_kernel h n \<noteq> NULL" "copy_to_user simple_kernel bs = 0"
  by (simp_all add: demo_tick_def tick_ok_def simple_kernel_def next_addr_def)

theorem jit_deferred_complete_witness:
  "\<exists>d1 h1 d2 h2 r. jit_timer_start simple_kernel 0 demo_jit empty_heap = Inr (Some d1, h1) \<and>
     run_fires jit_timer_fn (replicate 10 demo_tick) d1 h1 = Inr (d2, replicate 9 False @ [True], h2) \<and>
     jit_finish simple_kernel (sbuf_of d1) 0 h2 = Inr r \<and>
     jr_out r = text_bytes (jit_header @ tick_lines jit_line 0 (replicate 10 demo_tick))"
proof -
  have "list_all tick_ok (replicate 10 demo_tick)" by (simp add: list_all_iff demo_tick_ok)
  from jit_deferred_complete [where k = simple_kernel and h = empty_heap and j = 0 and d = demo_jit and ppos = 0,
      OF simple_kernel_ok demo_tick_ok(2) _ this demo_tick_ok(1), THEN conjunct1]
  show ?thesis by (simp add: jit_read_done_def) blast
qed

text \<open>
  C35. Reading \<^verbatim>\<open>/proc/jiqwq\<close> and \<^verbatim>\<open>/proc/jiqwqdelay\<close>: whether the reader is woken by the fifth
  run of the work item or comes back earlier because of a signal, it gets the header and
  the lines printed so far, and the buffer is given back on every path. After five runs
  nothing is queued. But when it comes back earlier the work item is still queued, and its next
  run stores into the freed buffer.
\<close>

theorem jiq_wq_complete:
  assumes "kernel_ok k" and "kmalloc k h 2400 \<noteq> NULL" and "length ts \<le> 5" and "list_all tick_ok ts"
  shows "\<exists>d1 h1 d2 ws h2 r. jiq_wq_start k param j 0 d h = Inr (Some d1, h1) \<and>
    run_fires (jiq_fire param) ts d1 h1 = Inr (d2, ws, h2) \<and> jiq_wq_finish k (c_sbuf d1) d2 0 h2 = Inr r \<and>
    jr_out r = text_bytes (jiq_header @ tick_lines jiq_line j ts) \<and> jr_heap r = h \<and>
    jr_ret r = (if copy_to_user k (jr_out r) = 0 then int (length (jr_out r)) else - EFAULT) \<and>
    (if length ts = 5 then ws = replicate 4 False @ [True] \<and> c_scheduled d2 = None
     else ws = replicate (length ts) False \<and> c_scheduled d2 \<noteq> None \<and> (\<forall>t. jiq_fire param t d2 (jr_heap r) = Inl Bad_access))"
proof -
  let ?p = "kmalloc k h 2400"
  obtain h0 where b: "new_blk k By_kmalloc 2400 ?p h = (?p, h0)" "holds_text h0 ?p 2400 [] h0"
    "\<And>s h2. holds_text h0 ?p 2400 s h2 \<Longrightarrow> free_blk By_kmalloc h2 ?p = Inr h"
    by (rule new_text_buffer [OF assms(1,2)]) simp_all
  have hl: "length jiq_header = 48" by (simp add: jiq_header_def nl_def)
  obtain h1 where 1: "sprintf_at ?p 0 jiq_header h0 = Inr (int (length jiq_header), h1)" "holds_text h0 ?p 2400 jiq_header h1"
    using sprintf_at_fits [OF b(2), of jiq_header] by (auto simp: hl)
  define d1 where "d1 = schedule_wq (d\<lparr>c_left_loops := 5, c_prevjiffies := j, c_delay := (if param = 0 then 0 else 1),
               c_sbuf := ?p, c_buf := int (length jiq_header)\<rparr>) param"
  have st: "jiq_wq_start k param j 0 d h = Inr (Some d1, h1)"
    using b(1) 1(1) assms(2) by (simp add: jiq_wq_start_def d1_def)
  have d1: "c_sbuf d1 = ?p" "c_buf d1 = int (length jiq_header)" "c_left_loops d1 = 5" "cd_queued d1" "c_prevjiffies d1 = j"
    by (simp_all add: d1_def schedule_wq_def)
  have "holds_text h0 (c_sbuf d1) 2400 jiq_header h1" "length jiq_header < 100" using 1(2) by (simp_all add: d1 hl)
  then obtain d2 ws h2 where 2: "run_fires (jiq_fire param) ts d1 h1 = Inr (d2, ws, h2)"
    "holds_text h0 (c_sbuf d1) 2400 (jiq_header @ tick_lines jiq_line (c_prevjiffies d1) ts) h2" "c_sbuf d2 = c_sbuf d1"
    "c_buf d2 = int (length (jiq_header @ tick_lines jiq_line (c_prevjiffies d1) ts))"
    "if length ts = 5 then ws = replicate 4 False @ [True] \<and> c_scheduled d2 = None
     else ws = replicate (length ts) False \<and> c_scheduled d2 \<noteq> None"
    using jiq_runs [OF _ d1(2-4) assms(3,4)] by blast
  note 2 = 2 [unfolded d1(1,5)]
  have fin: "jiq_wq_finish k ?p d2 0 h2 = give_text k ?p (c_buf d2) 0 (s64 (0 + c_buf d2)) h2"
    by (simp add: jiq_wq_finish_def 2(3))
  have freed: "jiq_fire param t d2 h = Inl Bad_access" for t
    using not_allocatedD(3) [OF kmalloc_fresh [OF assms(1,2)]] 2(3) assms(2) by (intro jq.fire_freed) simp_all
  show ?thesis
    using st 2(1,5) d1(1) freed give_text_ok [OF 2(2) b(3) [OF 2(2)], of k 0 "s64 (0 + c_buf d2)"] unfolding 2(4)
    by (intro exI [of _ d1] exI [of _ h1] exI [of _ d2] exI [of _ ws] exI [of _ h2]) (auto simp: fin 2(4))
qed

theorem jiq_wq_complete_witness:
  "\<exists>d1 h1 d2 h2 r. jiq_wq_start simple_kernel 0 7 0 undefined empty_heap = Inr (Some d1, h1) \<and>
    run_fires (jiq_fire 0) [demo_tick] d1 h1 = Inr (d2, [False], h2) \<and>
    jiq_wq_finish simple_kernel (c_sbuf d1) d2 0 h2 = Inr r \<and> jiq_fire 0 demo_tick d2 (jr_heap r) = Inl Bad_access"
  using jiq_wq_complete [where ts = "[demo_tick]" and param = 0 and j = 7 and d = undefined,
      OF simple_kernel_ok demo_tick_ok(2) [of empty_heap]]
  by (simp add: demo_tick_ok(1)) blast

text \<open>
  C36. Reading the files that show the clock. Every kind of delay ends: the two busy loops as
  soon as the clock shows one second more than at the start, also when it wraps around in
  between, and not before; the loop over \<open>schedule_timeout\<close> when that returns 0. The text then
  fits into the buffer of 24 bytes exactly if the two numbers have at most 21 digits together: below \<open>10 ^ 10\<close> ticks it
  is handed out and the buffer freed, from \<open>10 ^ 10\<close> ticks on the store leaves the buffer.
  The text of \<^verbatim>\<open>/proc/jitcurrent\<close> always fits into its 240 bytes; it is handed out once, and the buffer freed.
\<close>

theorem jit_delay_correct:
  assumes "kernel_ok k" and "kmalloc k h 24 \<noteq> NULL" and "kmalloc k h 240 \<noteq> NULL" and "u64 ppos < count"
    and "1 \<le> n" and "\<not> time_before (clock n) (clock 0 + HZ)" and "timeout t = 0"
  shows "(\<exists>i \<ge> 1. (which = JIT_BUSY \<or> which = JIT_SCHED \<longrightarrow> 2 \<le> i \<and> i \<le> Suc n \<and> \<not> time_before (clock (i - 1)) (clock 0 + HZ)) \<and>
      jit_delay k HZ which clock timeout count ppos h =
        Some (if length (dec (sint (clock 0))) + length (dec (sint (clock i))) < 22
              then Inr (handed_out k (delay_line (clock 0) (clock i)) ppos h) else Inl Bad_access) \<and>
      (unat (clock 0) < 10 ^ 10 \<and> unat (clock i) < 10 ^ 10 \<longrightarrow>
         length (dec (sint (clock 0))) + length (dec (sint (clock i))) < 22) \<and>
      (10 ^ 10 \<le> unat (clock 0) \<and> unat (clock 0) < 2 ^ 63 \<and> 10 ^ 10 \<le> unat (clock i) \<and> unat (clock i) < 2 ^ 63 \<longrightarrow>
         \<not> length (dec (sint (clock 0))) + length (dec (sint (clock i))) < 22)) \<and>
    (\<exists>r. jit_current k j1 j2 sec nsec ppos h = Inr r \<and> jr_heap r = h \<and>
      (if ppos > 0 then jr_ret r = 0 \<and> jr_out r = []
       else r = handed_out k (current_line j1 j2 (s32 sec) (s32 nsec)) ppos h))"
proof
  obtain m where m: "busy_loop clock (clock 0 + HZ) 1 = Some (Suc m)" "1 \<le> m" "m \<le> n" "\<not> time_before (clock m) (clock 0 + HZ)"
    using busy_loop_stops [of clock 1 "n - 1" "clock 0 + HZ"] assms(5,6) by auto
  obtain t' where "timeout_loop timeout HZ 0 = Some t'" using timeout_loop_stops [of timeout t 0 HZ] assms(7) by auto
  with m obtain i where i: "delay_wait HZ which clock timeout = Some i" "1 \<le> i"
    "which = JIT_BUSY \<or> which = JIT_SCHED \<longrightarrow> 2 \<le> i \<and> i \<le> Suc n \<and> \<not> time_before (clock (i - 1)) (clock 0 + HZ)"
    by (cases which) (auto simp: delay_wait_def)
  show "\<exists>i \<ge> 1. (which = JIT_BUSY \<or> which = JIT_SCHED \<longrightarrow> 2 \<le> i \<and> i \<le> Suc n \<and> \<not> time_before (clock (i - 1)) (clock 0 + HZ)) \<and>
      jit_delay k HZ which clock timeout count ppos h =
        Some (if length (dec (sint (clock 0))) + length (dec (sint (clock i))) < 22
              then Inr (handed_out k (delay_line (clock 0) (clock i)) ppos h) else Inl Bad_access) \<and>
      (unat (clock 0) < 10 ^ 10 \<and> unat (clock i) < 10 ^ 10 \<longrightarrow>
         length (dec (sint (clock 0))) + length (dec (sint (clock i))) < 22) \<and>
      (10 ^ 10 \<le> unat (clock 0) \<and> unat (clock 0) < 2 ^ 63 \<and> 10 ^ 10 \<le> unat (clock i) \<and> unat (clock i) < 2 ^ 63 \<longrightarrow>
         \<not> length (dec (sint (clock 0))) + length (dec (sint (clock i))) < 22)"
    by (intro exI [of _ i] conjI i(2,3) jit_delay_waited [OF assms(1,2,4) i(1)] delay_digits)
  show "\<exists>r. jit_current k j1 j2 sec nsec ppos h = Inr r \<and> jr_heap r = h \<and>
      (if ppos > 0 then jr_ret r = 0 \<and> jr_out r = []
       else r = handed_out k (current_line j1 j2 (s32 sec) (s32 nsec)) ppos h)"
  proof (cases "ppos > 0")
    case True
    obtain h0 where "new_blk k By_kmalloc 240 (kmalloc k h 240) h = (kmalloc k h 240, h0)"
      "free_blk By_kmalloc h0 (kmalloc k h 240) = Inr h"
      by (rule new_text_buffer [OF assms(1,3)]) simp_all
    with True assms(3) show ?thesis by (simp add: jit_current_def)
  next
    case False
    then show ?thesis using jit_current_ok [OF assms(1,3), of ppos] by (auto simp: handed_out_def)
  qed
qed

theorem jit_delay_correct_witness:
  "jit_delay simple_kernel 250 JIT_BUSY (\<lambda>i. of_nat (i * 1000)) (\<lambda>i. 0) 100 0 empty_heap =
     Some (Inr (handed_out simple_kernel (delay_line 0 2000) 0 empty_heap)) \<and>
   (\<exists>r. jit_current simple_kernel 0 0 0 0 0 empty_heap = Inr r \<and> jr_heap r = empty_heap)"
proof -
  have "\<not> time_before (of_nat (1 * 1000)) (of_nat (0 * 1000) + 250)" "u64 0 < 100"
    by (simp_all add: time_before_def u64_def)
  note j = jit_delay_correct [where k = simple_kernel and h = empty_heap and clock = "\<lambda>i. of_nat (i * 1000)" and which = JIT_BUSY
      and timeout = "\<lambda>i. 0" and ?j1.0 = 0 and ?j2.0 = 0 and sec = 0 and nsec = 0,
      OF simple_kernel_ok demo_tick_ok(2) demo_tick_ok(2) this(2) _ this(1)]
  from j obtain i where i: "2 \<le> i" "i \<le> Suc 1"
    "jit_delay simple_kernel 250 JIT_BUSY (\<lambda>i. of_nat (i * 1000)) (\<lambda>i. 0) 100 0 empty_heap =
       Some (if length (dec (sint (of_nat (0 * 1000) :: 64 word))) + length (dec (sint (of_nat (i * 1000) :: 64 word))) < 22
             then Inr (handed_out simple_kernel (delay_line (of_nat (0 * 1000)) (of_nat (i * 1000))) 0 empty_heap) else Inl Bad_access)"
    by auto
  then have "i = 2" by simp
  with i(3) delay_digits(1) [of 0 2000] j show ?thesis by auto
qed

end
