(* ===== verification/Proc_Files.thy ===== *)
theory Proc_Files
  imports Scull_Proc Jit
begin

text \<open>
  The files under \<^verbatim>\<open>/proc\<close> that scull, jit and jiq create when they are loaded and remove when they are unloaded,
  and how jit and jiq find the function that answers a read: each file carries a number, which \<open>proc_read\<close> looks up in
  the table \<open>jd\<close>. The file system is a parameter.
\<close>

section \<open>The file system\<close>

datatype proc_ops = scullmem_ops | scull_proc_ops | jit_ops | jiq_ops

type_synonym proc_entry = "proc_ops \<times> nat"   \<comment> \<open>the operations and \<open>PDE_DATA\<close>\<close>

record 'p procfs =
  proc_create_data :: "string \<Rightarrow> proc_entry \<Rightarrow> 'p \<Rightarrow> bool \<times> 'p"   \<comment> \<open>whether the entry is not \<open>NULL\<close>\<close>
  remove_proc_entry :: "string \<Rightarrow> 'p \<Rightarrow> 'p"
  proc_lookup :: "'p \<Rightarrow> string \<Rightarrow> proc_entry option"

text \<open>
  What the kernel promises: an entry is made only under a name that is free, and then it can be looked up; a call that
  makes none changes nothing; a removed entry is gone, and removing what is not there changes nothing.
\<close>

definition procfs_ok :: "'p procfs \<Rightarrow> bool" where
  "procfs_ok pf \<longleftrightarrow>
     (\<forall>n e s. let (made, s') = proc_create_data pf n e s in
        (made \<longrightarrow> proc_lookup pf s n = None) \<and>
        proc_lookup pf s' = (if made then (proc_lookup pf s)(n \<mapsto> e) else proc_lookup pf s)) \<and>
     (\<forall>n s. proc_lookup pf (remove_proc_entry pf n s) = (proc_lookup pf s)(n := None))"

definition grants :: "'p procfs \<Rightarrow> bool" where
  \<comment> \<open>the kernel has the memory for every entry\<close>
  "grants pf \<longleftrightarrow> (\<forall>n e s. proc_lookup pf s n = None \<longrightarrow> fst (proc_create_data pf n e s))"

lemma procfs_okD:
  assumes "procfs_ok pf"
  shows "fst (proc_create_data pf n e s) \<Longrightarrow> proc_lookup pf s n = None"
    and "proc_lookup pf (snd (proc_create_data pf n e s)) =
      (if fst (proc_create_data pf n e s) then (proc_lookup pf s)(n \<mapsto> e) else proc_lookup pf s)"
    and "proc_lookup pf (remove_proc_entry pf n s) = (proc_lookup pf s)(n := None)"
  using assms unfolding procfs_ok_def split_def Let_def by blast+

section \<open>scull\<close>

definition scull_create_proc :: "'p procfs \<Rightarrow> addr \<Rightarrow> 'p \<Rightarrow> 'p" where
  \<comment> \<open>a failure is only logged\<close>
  "scull_create_proc pf scull_devices s =
     (let s = snd (proc_create_data pf ''scullmem'' (scullmem_ops, scull_devices) s)
      in snd (proc_create_data pf ''scullseq'' (scull_proc_ops, 0) s))"

definition scull_remove_proc :: "'p procfs \<Rightarrow> 'p \<Rightarrow> 'p" where
  "scull_remove_proc pf s = remove_proc_entry pf ''scullseq'' (remove_proc_entry pf ''scullmem'' s)"

section \<open>jit and jiq: creation\<close>

definition create_various_proc_files :: "'p procfs \<Rightarrow> proc_ops \<Rightarrow> string \<Rightarrow> nat \<Rightarrow> 'p \<Rightarrow> int \<times> 'p" where
  "create_various_proc_files pf ops file_name proc_parameter s =
     (case proc_create_data pf file_name (ops, proc_parameter) s of (ent, s') \<Rightarrow> (if \<not> ent then - EFAULT else 0, s'))"

fun jit_code :: "jit_files \<Rightarrow> nat" where
  \<comment> \<open>the values of the enumeration\<close>
  "jit_code JIT_CURRENT = 0"
| "jit_code JIT_BUSY = 1"
| "jit_code JIT_SCHED = 2"
| "jit_code JIT_QUEUE = 3"
| "jit_code JIT_SCHEDTO = 4"
| "jit_code JIT_TIMER = 5"
| "jit_code JIT_TASKLET = 6"
| "jit_code JIT_TASKLET_HI = 7"

definition jit_init :: "'p procfs \<Rightarrow> 'p \<Rightarrow> int \<times> 'p" where
  "jit_init pf s =
     (let create = (\<lambda>n f s. snd (create_various_proc_files pf jit_ops n (jit_code f) s));
          s = create ''jitcurrent'' JIT_CURRENT s;
          s = create ''jitbusy'' JIT_BUSY s;
          s = create ''jitsched'' JIT_SCHED s;
          s = create ''jitqueue'' JIT_QUEUE s;
          s = create ''jitschedto'' JIT_SCHEDTO s;
          s = create ''jitimer'' JIT_TIMER s;
          s = create ''jitasklet'' JIT_TASKLET s;
          s = create ''jitasklethi'' JIT_TASKLET_HI s
      in (0, s))"

definition jit_cleanup :: "'p procfs \<Rightarrow> 'p \<Rightarrow> 'p" where
  "jit_cleanup pf s =
     fold (remove_proc_entry pf)
       [''jitcurrent'', ''jitbusy'', ''jitsched'', ''jitqueue'', ''jitschedto'', ''jitimer'', ''jitasklet'', ''jitasklethi''] s"

definition JIT_WQ :: nat where "JIT_WQ = 0"
definition JIT_WQ_DELAY :: nat where "JIT_WQ_DELAY = 1"

definition jiq_init :: "'p procfs \<Rightarrow> 'p \<Rightarrow> int \<times> 'p" where
  "jiq_init pf s =
     (let s = snd (create_various_proc_files pf jiq_ops ''jiqwq'' JIT_WQ s);
          s = snd (create_various_proc_files pf jiq_ops ''jiqwqdelay'' JIT_WQ_DELAY s)
      in (0, s))"

definition jiq_cleanup :: "'p procfs \<Rightarrow> 'p \<Rightarrow> 'p" where
  "jiq_cleanup pf s = fold (remove_proc_entry pf) [''jiqwq'', ''jiqwqdelay''] s"

section \<open>jit and jiq: reading\<close>

text \<open>
  The handlers as a whole. \<open>je_clock i\<close> is the \<open>i\<close>-th reading of \<open>jiffies\<close> by the call, \<open>je_self\<close> the process that reads, and \<open>je_fires\<close>
  the runs of the timer, tasklet or work item until the reader goes on (at its wake-up, or after a signal).
\<close>

record jit_env =
  je_kernel :: kernel
  je_HZ :: "64 word"
  je_clock :: "nat \<Rightarrow> 64 word"
  je_timeout :: "nat \<Rightarrow> 64 word"
  je_jiffies64 :: "64 word"
  je_sec :: int
  je_nsec :: int
  je_self :: tick
  je_fires :: "tick list"

type_synonym 'd jit_fn = "jit_env \<Rightarrow> nat \<Rightarrow> nat \<Rightarrow> int \<Rightarrow> 'd \<Rightarrow> heap \<Rightarrow> (jit_result \<times> 'd) res option"

type_synonym jit_globals = "jit_data \<times> jit_data"   \<comment> \<open>\<open>jitimer_data\<close> and \<open>jitasklet_data\<close>\<close>

definition deferred ::
  "('d option \<times> heap) res \<Rightarrow> (tick \<Rightarrow> 'd \<Rightarrow> heap \<Rightarrow> ('d \<times> bool \<times> heap) res) \<Rightarrow> tick list \<Rightarrow>
   ('d \<Rightarrow> 'd \<Rightarrow> heap \<Rightarrow> jit_result res) \<Rightarrow> int \<Rightarrow> 'd \<Rightarrow> (jit_result \<times> 'd) res" where
  \<comment> \<open>start, let the deferred function run, finish; a start that returns at once returns 0\<close>
  "deferred start fire ts finish ppos d =
     bindE start (\<lambda>(r, h1). case r of
       None \<Rightarrow> Inr (\<lparr>jr_ret = 0, jr_pos = ppos, jr_out = [], jr_heap = h1\<rparr>, d)
     | Some d1 \<Rightarrow> bindE (run_fires fire ts d1 h1) (\<lambda>(d2, ws, h2). bindE (finish d1 d2 h2) (\<lambda>r. Inr (r, d2))))"

definition jit_current_fn :: "jit_globals jit_fn" where
  "jit_current_fn v param count ppos gl h =
     Some (bindE (jit_current (je_kernel v) (je_clock v 0) (je_jiffies64 v) (je_sec v) (je_nsec v) ppos h) (\<lambda>r. Inr (r, gl)))"

definition jit_file_of :: "nat \<Rightarrow> jit_files" where
  \<comment> \<open>the \<open>switch\<close> of \<open>jit_delay\<close> does nothing for a number that is none of its four\<close>
  "jit_file_of n = (if n = 1 then JIT_BUSY else if n = 2 then JIT_SCHED else if n = 3 then JIT_QUEUE
     else if n = 4 then JIT_SCHEDTO else JIT_CURRENT)"

definition jit_delay_fn :: "jit_globals jit_fn" where
  "jit_delay_fn v param count ppos gl h =
     map_option (\<lambda>m. bindE m (\<lambda>r. Inr (r, gl)))
       (jit_delay (je_kernel v) (je_HZ v) (jit_file_of param) (je_clock v) (je_timeout v) count ppos h)"

definition jit_timer :: "jit_globals jit_fn" where
  "jit_timer v param count ppos gl h =
     Some (bindE (deferred (jit_timer_start (je_kernel v) (je_clock v 0) (fst gl) h) jit_timer_fn (je_fires v)
                   (\<lambda>d1 d2 h2. jit_finish (je_kernel v) (sbuf_of d1) ppos h2) ppos (fst gl))
             (\<lambda>(r, d). Inr (r, d, snd gl)))"

definition jit_tasklet :: "jit_globals jit_fn" where
  "jit_tasklet v param count ppos gl h =
     Some (bindE (deferred (jit_tasklet_start (je_kernel v) (param = jit_code JIT_TASKLET_HI) (je_self v) (snd gl) h) jit_tlet_fn
                   (je_fires v) (\<lambda>d1 d2 h2. jit_finish (je_kernel v) (sbuf_of d1) ppos h2) ppos (snd gl))
             (\<lambda>(r, d). Inr (r, fst gl, d)))"

definition jiq_wq :: "client_data jit_fn" where
  "jiq_wq v param count ppos d h =
     Some (deferred (jiq_wq_start (je_kernel v) param (je_clock v 0) ppos d h) (jiq_fire param) (je_fires v)
            (\<lambda>d1 d2 h2. jiq_wq_finish (je_kernel v) (c_sbuf d1) d2 ppos h2) ppos d)"

text \<open>The loop over \<open>jd\<close>.\<close>

fun jd_find :: "(nat \<times> 'f) list \<Rightarrow> nat \<Rightarrow> 'f option" where
  "jd_find [] d = None"
| "jd_find ((c, f) # jd) d = (if c = d then Some f else jd_find jd d)"

definition jit_jd :: "(nat \<times> jit_globals jit_fn) list" where
  "jit_jd =
     [(jit_code JIT_CURRENT, jit_current_fn), (jit_code JIT_BUSY, jit_delay_fn), (jit_code JIT_QUEUE, jit_delay_fn),
      (jit_code JIT_SCHED, jit_delay_fn), (jit_code JIT_SCHEDTO, jit_delay_fn), (jit_code JIT_TIMER, jit_timer),
      (jit_code JIT_TASKLET, jit_tasklet), (jit_code JIT_TASKLET_HI, jit_tasklet)]"

definition jit_proc_read :: "jit_globals jit_fn" where
  "jit_proc_read v param = (case jd_find jit_jd param of Some f \<Rightarrow> f v param | None \<Rightarrow> jit_current_fn v param)"

definition jiq_jd :: "(nat \<times> client_data jit_fn) list" where
  "jiq_jd = [(JIT_WQ, jiq_wq), (JIT_WQ_DELAY, jiq_wq)]"

definition jiq_proc_read :: "client_data jit_fn" where
  "jiq_proc_read v param = (case jd_find jiq_jd param of Some f \<Rightarrow> f v param | None \<Rightarrow> jiq_wq v param)"

text \<open>Opening the file \<open>name\<close> and reading it: the kernel finds the entry and calls the read function of its operations.\<close>

definition read_jit_file :: "'p procfs \<Rightarrow> 'p \<Rightarrow> string \<Rightarrow> (jit_env \<Rightarrow> nat \<Rightarrow> int \<Rightarrow> jit_globals \<Rightarrow> heap \<Rightarrow> (jit_result \<times> jit_globals) res option) option" where
  "read_jit_file pf s name =
     (case proc_lookup pf s name of Some (jit_ops, param) \<Rightarrow> Some (\<lambda>v. jit_proc_read v param) | _ \<Rightarrow> None)"

definition read_jiq_file :: "'p procfs \<Rightarrow> 'p \<Rightarrow> string \<Rightarrow> (jit_env \<Rightarrow> nat \<Rightarrow> int \<Rightarrow> client_data \<Rightarrow> heap \<Rightarrow> (jit_result \<times> client_data) res option) option" where
  "read_jiq_file pf s name =
     (case proc_lookup pf s name of Some (jiq_ops, param) \<Rightarrow> Some (\<lambda>v. jiq_proc_read v param) | _ \<Rightarrow> None)"

section \<open>A module and its files\<close>

text \<open>
  The contract the three modules share: loading makes the entries of a list, one after the other and whatever
  becomes of the earlier ones; unloading removes all their names.
\<close>

locale proc_user =
  fixes files :: "(string \<times> proc_entry) list" and load :: "'p procfs \<Rightarrow> 'p \<Rightarrow> 'p" and unload :: "'p procfs \<Rightarrow> 'p \<Rightarrow> 'p"
  assumes load_files: "load pf s = fold (\<lambda>(n, e) s. snd (proc_create_data pf n e s)) files s"
    and unload_files: "unload pf s = fold (remove_proc_entry pf) (map fst files) s"
begin

lemma create_one:
  assumes "procfs_ok pf"
  shows "proc_lookup pf (snd (proc_create_data pf m e s)) n = proc_lookup pf s n \<or>
    proc_lookup pf s n = None \<and> n = m \<and> proc_lookup pf (snd (proc_create_data pf m e s)) n = Some e"
  using procfs_okD(1,2) [OF assms, of m e s] by auto

lemma create_fold:
  assumes ok: "procfs_ok pf"
  shows "proc_lookup pf (fold (\<lambda>(n, e) s. snd (proc_create_data pf n e s)) fs s) n = proc_lookup pf s n \<or>
    proc_lookup pf s n = None \<and> (\<exists>e. (n, e) \<in> set fs \<and> proc_lookup pf (fold (\<lambda>(n, e) s. snd (proc_create_data pf n e s)) fs s) n = Some e)"
proof (induction fs arbitrary: s)
  case (Cons x fs)
  obtain m e where x: "x = (m, e)" by (cases x)
  show ?case
    using Cons [of "snd (proc_create_data pf m e s)"] create_one [OF ok, of m e s n]
    by (auto simp: x simp del: split_paired_Ex)
qed simp

lemma loaded:
  "procfs_ok pf \<Longrightarrow> proc_lookup pf (load pf s) n = proc_lookup pf s n \<or>
    proc_lookup pf s n = None \<and> (\<exists>e. (n, e) \<in> set files \<and> proc_lookup pf (load pf s) n = Some e)"
  unfolding load_files by (rule create_fold)

lemma grants_fold:
  assumes ok: "procfs_ok pf" and "grants pf"
  shows "proc_lookup pf (fold (\<lambda>(n, e) s. snd (proc_create_data pf n e s)) fs s) = map_of fs ++ proc_lookup pf s"
proof (induction fs arbitrary: s)
  case (Cons x fs)
  obtain m e where x: "x = (m, e)" by (cases x)
  have "fst (proc_create_data pf m e s) \<longleftrightarrow> proc_lookup pf s m = None"
    using procfs_okD(1) [OF ok] assms(2) unfolding grants_def by blast
  then have "proc_lookup pf (snd (proc_create_data pf m e s)) = [m \<mapsto> e] ++ proc_lookup pf s"
    using procfs_okD(2) [OF ok, of m e s] by (auto simp: fun_eq_iff map_add_def split: option.split)
  with Cons show ?case by (auto simp: x fun_eq_iff map_add_def split: option.splits)
qed simp

lemma all_loaded:
  "procfs_ok pf \<Longrightarrow> grants pf \<Longrightarrow> proc_lookup pf (load pf s) = map_of files ++ proc_lookup pf s"
  unfolding load_files by (rule grants_fold)

lemma remove_fold:
  assumes "procfs_ok pf"
  shows "proc_lookup pf (fold (remove_proc_entry pf) ns s) = proc_lookup pf s |` (- set ns)"
proof (induction ns arbitrary: s)
  case (Cons n ns)
  then show ?case using procfs_okD(3) [OF assms, of n s] by (auto simp: fun_eq_iff restrict_map_def)
qed (simp add: restrict_map_def)

lemma unloaded: "procfs_ok pf \<Longrightarrow> proc_lookup pf (unload pf (load pf s)) = proc_lookup pf s |` (- fst ` set files)"
  using loaded [of pf s] unfolding unload_files remove_fold
  by (fastforce simp: fun_eq_iff restrict_map_def image_iff)

end

definition scull_files :: "addr \<Rightarrow> (string \<times> proc_entry) list" where
  "scull_files devs = [(''scullmem'', scullmem_ops, devs), (''scullseq'', scull_proc_ops, 0)]"

definition jit_file_list :: "(string \<times> proc_entry) list" where
  "jit_file_list =
     [(''jitcurrent'', jit_ops, 0), (''jitbusy'', jit_ops, 1), (''jitsched'', jit_ops, 2), (''jitqueue'', jit_ops, 3),
      (''jitschedto'', jit_ops, 4), (''jitimer'', jit_ops, 5), (''jitasklet'', jit_ops, 6), (''jitasklethi'', jit_ops, 7)]"

definition jiq_file_list :: "(string \<times> proc_entry) list" where
  "jiq_file_list = [(''jiqwq'', jiq_ops, 0), (''jiqwqdelay'', jiq_ops, 1)]"

interpretation scull_pu: proc_user "scull_files devs" "\<lambda>pf. scull_create_proc pf devs" scull_remove_proc
  by unfold_locales (simp_all add: scull_files_def scull_create_proc_def scull_remove_proc_def Let_def)

interpretation jit_pu: proc_user jit_file_list "\<lambda>pf s. snd (jit_init pf s)" jit_cleanup
  by unfold_locales
    (simp_all add: jit_file_list_def jit_init_def jit_cleanup_def create_various_proc_files_def Let_def split_def)

interpretation jiq_pu: proc_user jiq_file_list "\<lambda>pf s. snd (jiq_init pf s)" jiq_cleanup
  by unfold_locales
    (simp_all add: jiq_file_list_def jiq_init_def jiq_cleanup_def create_various_proc_files_def JIT_WQ_def JIT_WQ_DELAY_def Let_def split_def)

section \<open>Properties\<close>

definition file_lifecycle :: "'p procfs \<Rightarrow> (string \<times> proc_entry) list \<Rightarrow> ('p \<Rightarrow> 'p) \<Rightarrow> ('p \<Rightarrow> 'p) \<Rightarrow> bool" where
  "file_lifecycle pf files create remove \<longleftrightarrow>
     (\<forall>s. (\<forall>n. proc_lookup pf (create s) n = proc_lookup pf s n \<or>
             proc_lookup pf s n = None \<and> (\<exists>e. (n, e) \<in> set files \<and> proc_lookup pf (create s) n = Some e)) \<and>
          (grants pf \<longrightarrow> proc_lookup pf (create s) = map_of files ++ proc_lookup pf s) \<and>
          proc_lookup pf (remove (create s)) = proc_lookup pf s |` (- fst ` set files))"

text \<open>
  C32. Loading scull, jit and jiq makes their files under \<^verbatim>\<open>/proc\<close>, never in place of a file that is already there, and
  exactly the files of the list when the kernel has the memory; a failure is not reported, the result is 0 all the same.
  Unloading leaves the directory as it was before loading, if none of the names was taken; if one
  was, the file of the other module is removed with the rest.
\<close>

theorem proc_files_lifecycle:
  assumes "procfs_ok pf"
  shows "fst (jit_init pf s) = 0 \<and> fst (jiq_init pf s) = 0 \<and>
    file_lifecycle pf [(''scullmem'', scullmem_ops, devs), (''scullseq'', scull_proc_ops, 0)] (scull_create_proc pf devs) (scull_remove_proc pf) \<and>
    file_lifecycle pf
      [(''jitcurrent'', jit_ops, jit_code JIT_CURRENT), (''jitbusy'', jit_ops, jit_code JIT_BUSY), (''jitsched'', jit_ops, jit_code JIT_SCHED),
       (''jitqueue'', jit_ops, jit_code JIT_QUEUE), (''jitschedto'', jit_ops, jit_code JIT_SCHEDTO), (''jitimer'', jit_ops, jit_code JIT_TIMER),
       (''jitasklet'', jit_ops, jit_code JIT_TASKLET), (''jitasklethi'', jit_ops, jit_code JIT_TASKLET_HI)]
      (\<lambda>s. snd (jit_init pf s)) (jit_cleanup pf) \<and>
    file_lifecycle pf [(''jiqwq'', jiq_ops, JIT_WQ), (''jiqwqdelay'', jiq_ops, JIT_WQ_DELAY)] (\<lambda>s. snd (jiq_init pf s)) (jiq_cleanup pf)"
proof -
  have lists: "[(''scullmem'', scullmem_ops, devs), (''scullseq'', scull_proc_ops, 0)] = scull_files devs"
    "[(''jitcurrent'', jit_ops, jit_code JIT_CURRENT), (''jitbusy'', jit_ops, jit_code JIT_BUSY), (''jitsched'', jit_ops, jit_code JIT_SCHED),
       (''jitqueue'', jit_ops, jit_code JIT_QUEUE), (''jitschedto'', jit_ops, jit_code JIT_SCHEDTO), (''jitimer'', jit_ops, jit_code JIT_TIMER),
       (''jitasklet'', jit_ops, jit_code JIT_TASKLET), (''jitasklethi'', jit_ops, jit_code JIT_TASKLET_HI)] = jit_file_list"
    "[(''jiqwq'', jiq_ops, JIT_WQ), (''jiqwqdelay'', jiq_ops, JIT_WQ_DELAY)] = jiq_file_list"
    by (simp_all add: scull_files_def jit_file_list_def jiq_file_list_def JIT_WQ_def JIT_WQ_DELAY_def)
  have "fst (jit_init pf s) = 0" "fst (jiq_init pf s) = 0" by (simp_all add: jit_init_def jiq_init_def Let_def)
  moreover have "file_lifecycle pf (scull_files devs) (scull_create_proc pf devs) (scull_remove_proc pf)"
    unfolding file_lifecycle_def by (intro allI conjI impI scull_pu.loaded scull_pu.all_loaded scull_pu.unloaded assms)
  moreover have "file_lifecycle pf jit_file_list (\<lambda>s. snd (jit_init pf s)) (jit_cleanup pf)"
    unfolding file_lifecycle_def by (intro allI conjI impI jit_pu.loaded jit_pu.all_loaded jit_pu.unloaded assms)
  moreover have "file_lifecycle pf jiq_file_list (\<lambda>s. snd (jiq_init pf s)) (jiq_cleanup pf)"
    unfolding file_lifecycle_def by (intro allI conjI impI jiq_pu.loaded jiq_pu.all_loaded jiq_pu.unloaded assms)
  ultimately show ?thesis unfolding lists by blast
qed

definition map_procfs :: "(string \<Rightarrow> proc_entry option) procfs" where
  "map_procfs = \<lparr>proc_create_data = (\<lambda>n e m. if m n = None then (True, m(n \<mapsto> e)) else (False, m)),
     remove_proc_entry = (\<lambda>n m. m(n := None)), proc_lookup = (\<lambda>m. m)\<rparr>"

lemma map_procfs_ok: "procfs_ok map_procfs" "grants map_procfs"
  by (simp_all add: procfs_ok_def grants_def map_procfs_def Let_def)

theorem proc_files_lifecycle_witness:
  "proc_lookup map_procfs (snd (jit_init map_procfs (Map.empty(''jitbusy'' \<mapsto> (jiq_ops, 9))))) ''jitbusy'' = Some (jiq_ops, 9) \<and>
   proc_lookup map_procfs (jit_cleanup map_procfs (snd (jit_init map_procfs (Map.empty(''jitbusy'' \<mapsto> (jiq_ops, 9)))))) ''jitbusy'' = None"
proof -
  let ?s = "Map.empty(''jitbusy'' \<mapsto> (jiq_ops, 9 :: nat))"
  have lk: "proc_lookup map_procfs ?s = ?s" by (simp add: map_procfs_def)
  note j = proc_files_lifecycle [OF map_procfs_ok(1), THEN conjunct2, THEN conjunct2, THEN conjunct2, THEN conjunct1,
      unfolded file_lifecycle_def, rule_format, of ?s]
  from j have "proc_lookup map_procfs (snd (jit_init map_procfs ?s)) ''jitbusy'' = ?s ''jitbusy''"
    using map_procfs_ok(2) unfolding lk by (simp add: map_add_def)
  moreover from j have "proc_lookup map_procfs (jit_cleanup map_procfs (snd (jit_init map_procfs ?s))) ''jitbusy'' = None"
    unfolding lk by (simp add: restrict_map_def)
  ultimately show ?thesis by simp
qed

text \<open>
  C33. Each file is answered by its own function: once jit and jiq are loaded, with the
  names free and enough memory, a read of a file reaches, through the number stored with the
  entry and the table \<open>jd\<close>, the function and the kind of delay or tasklet its name says.
\<close>

theorem proc_files_dispatch:
  assumes "procfs_ok pf" and "grants pf" and "\<forall>n. proc_lookup pf s n = None"
  shows "map (read_jit_file pf (snd (jit_init pf s)))
      [''jitcurrent'', ''jitbusy'', ''jitsched'', ''jitqueue'', ''jitschedto'', ''jitimer'', ''jitasklet'', ''jitasklethi''] =
    map Some
      [\<lambda>v count ppos gl h. Some (bindE (jit_current (je_kernel v) (je_clock v 0) (je_jiffies64 v) (je_sec v) (je_nsec v) ppos h) (\<lambda>r. Inr (r, gl))),
       \<lambda>v count ppos gl h. map_option (\<lambda>m. bindE m (\<lambda>r. Inr (r, gl)))
         (jit_delay (je_kernel v) (je_HZ v) JIT_BUSY (je_clock v) (je_timeout v) count ppos h),
       \<lambda>v count ppos gl h. map_option (\<lambda>m. bindE m (\<lambda>r. Inr (r, gl)))
         (jit_delay (je_kernel v) (je_HZ v) JIT_SCHED (je_clock v) (je_timeout v) count ppos h),
       \<lambda>v count ppos gl h. map_option (\<lambda>m. bindE m (\<lambda>r. Inr (r, gl)))
         (jit_delay (je_kernel v) (je_HZ v) JIT_QUEUE (je_clock v) (je_timeout v) count ppos h),
       \<lambda>v count ppos gl h. map_option (\<lambda>m. bindE m (\<lambda>r. Inr (r, gl)))
         (jit_delay (je_kernel v) (je_HZ v) JIT_SCHEDTO (je_clock v) (je_timeout v) count ppos h),
       \<lambda>v. jit_timer v (jit_code JIT_TIMER), \<lambda>v. jit_tasklet v (jit_code JIT_TASKLET), \<lambda>v. jit_tasklet v (jit_code JIT_TASKLET_HI)] \<and>
    map (read_jiq_file pf (snd (jiq_init pf s))) [''jiqwq'', ''jiqwqdelay''] = [Some (\<lambda>v. jiq_wq v JIT_WQ), Some (\<lambda>v. jiq_wq v JIT_WQ_DELAY)]"
proof -
  have s: "proc_lookup pf s = Map.empty" using assms(3) by auto
  note l = jit_pu.all_loaded [OF assms(1,2), of s, unfolded s map_add_empty] jiq_pu.all_loaded [OF assms(1,2), of s, unfolded s map_add_empty]
  show ?thesis
    by (simp add: read_jit_file_def read_jiq_file_def l jit_file_list_def jiq_file_list_def jit_proc_read_def jiq_proc_read_def
        jit_jd_def jiq_jd_def JIT_WQ_def JIT_WQ_DELAY_def jit_current_fn_def jit_delay_fn_def jit_file_of_def fun_eq_iff)
qed

theorem proc_files_dispatch_witness:
  "map (read_jiq_file map_procfs (snd (jiq_init map_procfs Map.empty))) [''jiqwq'', ''jiqwqdelay''] =
     [Some (\<lambda>v. jiq_wq v JIT_WQ), Some (\<lambda>v. jiq_wq v JIT_WQ_DELAY)]"
  using proc_files_dispatch [OF map_procfs_ok, of Map.empty] by (simp add: map_procfs_def)

end
