(* ===== verification/Chrdev.thy ===== *)
theory Chrdev
  imports Scull_Modules Globalmem
begin

text \<open>
  The three small character devices. Loading and unloading of \<^verbatim>\<open>globalmem\<close>,
  \<^verbatim>\<open>completion\<close> and \<^verbatim>\<open>sleepy\<close>, with the answers of the kernel as in
  \<open>Scull_Modules\<close>; and \<^verbatim>\<open>sleepy\<close>'s readers and writers as a step relation, because what
  they do to each other depends on the order in which they run.
\<close>

section \<open>Loading\<close>

record 'd chr_module =
  cm_major :: nat
  cm_devp :: "'d array_ptr"
  cm_region :: "devno option"
  cm_cdev :: bool              \<comment> \<open>the \<open>cdev\<close> is known to the kernel\<close>

definition chr_region :: "answers \<Rightarrow> 'd chr_module \<Rightarrow> int \<times> devno \<times> 'd chr_module" where
  \<comment> \<open>the result, the local variable \<open>devno\<close> and the state\<close>
  "chr_region a m =
     (let res = a_region a;
          devno = (if cm_major m \<noteq> 0 \<or> res < 0 then (cm_major m, 0) else a_dev a);
          m1 = m\<lparr>cm_major := fst devno\<rparr>
      in (res, devno, if res < 0 then m1 else m1\<lparr>cm_region := Some devno\<rparr>))"

definition chr_unregister :: "devno \<Rightarrow> 'd chr_module \<Rightarrow> 'd chr_module" where
  "chr_unregister dev m = (if cm_region m = Some dev then m\<lparr>cm_region := None\<rparr> else m)"

definition setup_cdev :: "answers \<Rightarrow> 'd chr_module \<Rightarrow> 'd chr_module" where
  \<comment> \<open>an error of \<open>cdev_add\<close> is only printed\<close>
  "setup_cdev a m = m\<lparr>cm_cdev := (a_cdev a 0 = 0)\<rparr>"

definition chr_init :: "'d \<Rightarrow> answers \<Rightarrow> 'd chr_module \<Rightarrow> int \<times> 'd chr_module" where
  \<comment> \<open>\<open>zeroed\<close>: what \<open>kzalloc\<close> returns\<close>
  "chr_init zeroed a m =
     (case chr_region a m of (res, devno, m1) \<Rightarrow>
        if res < 0 then (res, m1)
        else if \<not> a_array a then (- ENOMEM, chr_unregister devno (m1\<lparr>cm_devp := Array_null\<rparr>))
        else (0, setup_cdev a (m1\<lparr>cm_devp := Array_live zeroed\<rparr>)))"

definition chr_exit :: "'d chr_module \<Rightarrow> 'd chr_module res" where
  "chr_exit m =
     (case cm_devp m of
        Array_null \<Rightarrow> Inl Null_deref
      | Array_freed \<Rightarrow> Inl Bad_access
      | Array_live d \<Rightarrow> Inr (chr_unregister (cm_major m, 0) (m\<lparr>cm_cdev := False, cm_devp := Array_freed\<rparr>)))"

definition globalmem_init :: "answers \<Rightarrow> globalmem_dev chr_module \<Rightarrow> int \<times> globalmem_dev chr_module" where
  "globalmem_init = chr_init \<lparr>mem = replicate (unat GLOBALMEM_SIZE) 0\<rparr>"

definition globalmem_exit :: "globalmem_dev chr_module \<Rightarrow> globalmem_dev chr_module res" where
  "globalmem_exit = chr_exit"

definition completion_init :: "answers \<Rightarrow> unit chr_module \<Rightarrow> int \<times> unit chr_module" where
  \<comment> \<open>\<open>struct completion_dev\<close> holds the \<open>cdev\<close> only\<close>
  "completion_init = chr_init ()"

definition completion_exit :: "unit chr_module \<Rightarrow> unit chr_module res" where
  "completion_exit = chr_exit"

definition sleepy_init :: "answers \<Rightarrow> unit chr_module \<Rightarrow> int \<times> unit chr_module" where
  \<comment> \<open>always \<open>alloc_chrdev_region\<close>, and the \<open>cdev\<close> is static\<close>
  "sleepy_init a m =
     (let res = a_region a in
      if res < 0 then (res, m)
      else (res, setup_cdev a (m\<lparr>cm_major := fst (a_dev a), cm_region := Some (a_dev a)\<rparr>)))"

definition sleepy_exit :: "unit chr_module \<Rightarrow> unit chr_module" where
  "sleepy_exit m = chr_unregister (cm_major m, 0) (m\<lparr>cm_cdev := False\<rparr>)"

section \<open>Readers and writers of sleepy\<close>

text \<open>
  A reader evaluates the condition of \<open>wait_event_interruptible\<close> when it arrives and each time it is woken; it sleeps
  while the condition is false. \<open>flag = 0\<close> is a separate step, so others may run in between; and so are the two statements of a writer,
  \<open>flag = 1\<close> and the wake-up, as nothing is locked.
\<close>

datatype rstate = Checking | Asleep | Passed | Interrupted | Returned bool   \<comment> \<open>whether the condition was true\<close>

datatype wstate = At_flag | At_wake | Written

record sleepy_state =
  flag :: int
  readers :: "rstate list"
  writers :: "wstate list"

fun woken :: "rstate \<Rightarrow> rstate" where
  "woken Asleep = Checking"
| "woken r = r"

definition sleepy_enter :: "sleepy_state \<Rightarrow> sleepy_state" where
  "sleepy_enter s = s\<lparr>readers := readers s @ [Checking]\<rparr>"

definition sleepy_check :: "nat \<Rightarrow> sleepy_state \<Rightarrow> sleepy_state" where
  "sleepy_check i s = s\<lparr>readers := (readers s)[i := (if flag s \<noteq> 0 then Passed else Asleep)]\<rparr>"

definition sleepy_signal :: "nat \<Rightarrow> sleepy_state \<Rightarrow> sleepy_state" where
  "sleepy_signal i s = s\<lparr>readers := (readers s)[i := Interrupted]\<rparr>"

definition sleepy_clear :: "nat \<Rightarrow> sleepy_state \<Rightarrow> sleepy_state" where
  \<comment> \<open>the rest of \<open>sleepy_read\<close>, which does not look at what \<open>wait_event_interruptible\<close> returned\<close>
  "sleepy_clear i s = s\<lparr>flag := 0, readers := (readers s)[i := Returned (readers s ! i = Passed)]\<rparr>"

definition sleepy_write :: "nat \<Rightarrow> sleepy_state \<Rightarrow> sleepy_state" where
  \<comment> \<open>the next statement of the writer\<close>
  "sleepy_write j s = (case writers s ! j of
      At_flag \<Rightarrow> s\<lparr>flag := 1, writers := (writers s)[j := At_wake]\<rparr>
    | At_wake \<Rightarrow> s\<lparr>readers := map woken (readers s), writers := (writers s)[j := Written]\<rparr>
    | Written \<Rightarrow> s)"

inductive sleepy_step :: "sleepy_state \<Rightarrow> sleepy_state \<Rightarrow> bool" where
  enter: "sleepy_step s (sleepy_enter s)"
| check: "i < length (readers s) \<Longrightarrow> readers s ! i = Checking \<Longrightarrow> sleepy_step s (sleepy_check i s)"
| signal: "i < length (readers s) \<Longrightarrow> readers s ! i = Asleep \<Longrightarrow> sleepy_step s (sleepy_signal i s)"
| clear: "i < length (readers s) \<Longrightarrow> readers s ! i = Passed \<or> readers s ! i = Interrupted \<Longrightarrow> sleepy_step s (sleepy_clear i s)"
| new_writer: "sleepy_step s (s\<lparr>writers := writers s @ [At_flag]\<rparr>)"
| wr: "j < length (writers s) \<Longrightarrow> sleepy_step s (sleepy_write j s)"

definition sleepy_start :: sleepy_state where
  "sleepy_start = \<lparr>flag = 0, readers = [], writers = []\<rparr>"

abbreviation sleepy_reachable :: "sleepy_state \<Rightarrow> bool" where
  "sleepy_reachable \<equiv> sleepy_step\<^sup>*\<^sup>* sleepy_start"

definition sleepy_inv :: "sleepy_state \<Rightarrow> bool" where
  \<comment> \<open>a reader asleep while the flag is set has a wake-up coming\<close>
  "sleepy_inv s \<longleftrightarrow> (flag s \<noteq> 0 \<and> Asleep \<in> set (readers s) \<longrightarrow> At_wake \<in> set (writers s)) \<and>
     (flag s \<noteq> 0 \<or> Passed \<in> set (readers s) \<or> Returned True \<in> set (readers s) \<longrightarrow> (\<exists>w\<in>set (writers s). w \<noteq> At_flag))"

lemmas sleepy_ops = sleepy_enter_def sleepy_check_def sleepy_signal_def sleepy_clear_def sleepy_write_def

section \<open>Lemmas\<close>

lemma woken_awake: "Asleep \<noteq> woken r" "Passed = woken r \<longleftrightarrow> r = Passed" "Returned b = woken r \<longleftrightarrow> r = Returned b"
  by (cases r; auto)+

lemma sleepy_inv_write:
  assumes j: "j < length (writers s)" and inv: "sleepy_inv s"
  shows "sleepy_inv (sleepy_write j s)"
proof (cases "writers s ! j")
  case At_flag
  have "At_wake \<in> set ((writers s)[j := At_wake])" using j by (simp add: set_update_memI)
  then show ?thesis by (auto simp: sleepy_inv_def sleepy_write_def At_flag)
next
  case At_wake
  have "Written \<in> set ((writers s)[j := Written])" using j by (simp add: set_update_memI)
  then show ?thesis by (auto simp: sleepy_inv_def sleepy_write_def At_wake woken_awake)
qed (use inv in \<open>simp add: sleepy_write_def\<close>)

lemma sleepy_inv_step: "sleepy_step s s' \<Longrightarrow> sleepy_inv s \<Longrightarrow> sleepy_inv s'"
proof (induction rule: sleepy_step.induct)
  case (wr j s)
  then show ?case by (rule sleepy_inv_write)
qed (auto simp: sleepy_inv_def sleepy_ops dest: nth_mem dest!: set_update_subset_insert [THEN subsetD])

lemma sleepy_inv_reachable: "sleepy_reachable s \<Longrightarrow> sleepy_inv s"
  by (induction rule: rtranclp_induct) (simp add: sleepy_inv_def sleepy_start_def, rule sleepy_inv_step)

lemma chr_init_cases:
  assumes "0 \<le> a_region a \<longrightarrow> snd (a_dev a) = 0" and "cm_region m = None" and "\<not> cm_cdev m"
  shows "case chr_init z a m of (r, m') \<Rightarrow>
    if r < 0 then cm_region m' = None \<and> \<not> cm_cdev m' \<and> (cm_devp m' = cm_devp m \<or> cm_devp m' = Array_null)
    else r = 0 \<and> cm_devp m' = Array_live z \<and> (cm_cdev m' \<longleftrightarrow> a_cdev a 0 = 0) \<and> cm_region m' = Some (cm_major m', 0) \<and>
      chr_exit m' = Inr (m'\<lparr>cm_cdev := False, cm_devp := Array_freed, cm_region := None\<rparr>)"
  using assms
  by (cases "a_dev a") (simp add: chr_init_def chr_region_def setup_cdev_def chr_unregister_def chr_exit_def Let_def)

text \<open>Schedules: readers fall asleep, a writer wakes them, all of them pass, all of them return.\<close>

lemma sleepy_arrive:
  "sleepy_step\<^sup>*\<^sup>* \<lparr>flag = 0, readers = rs, writers = w\<rparr> \<lparr>flag = 0, readers = rs @ replicate n Asleep, writers = w\<rparr>"
proof (induction n)
  case (Suc n)
  let ?s = "\<lparr>flag = 0, readers = rs @ replicate n Asleep, writers = w\<rparr>"
  have "sleepy_step ?s (sleepy_enter ?s)" by (rule enter)
  moreover have "sleepy_step (sleepy_enter ?s) (sleepy_check (length rs + n) (sleepy_enter ?s))"
    by (rule check) (simp_all add: sleepy_enter_def nth_append)
  moreover have "sleepy_check (length rs + n) (sleepy_enter ?s) = \<lparr>flag = 0, readers = rs @ replicate (Suc n) Asleep, writers = w\<rparr>"
    by (simp add: sleepy_enter_def sleepy_check_def list_update_append replicate_append_same)
  ultimately show ?case using Suc.IH by (metis rtranclp.rtrancl_into_rtrancl)
qed simp

lemma sleepy_pass_all:
  "sleepy_step\<^sup>*\<^sup>* \<lparr>flag = 1, readers = rs @ replicate n Checking, writers = w\<rparr> \<lparr>flag = 1, readers = rs @ replicate n Passed, writers = w\<rparr>"
proof (induction n arbitrary: rs)
  case (Suc n)
  let ?s = "\<lparr>flag = 1, readers = rs @ replicate (Suc n) Checking, writers = w\<rparr>"
  have "sleepy_step ?s (sleepy_check (length rs) ?s)" by (rule check) (simp_all add: nth_append)
  moreover have "sleepy_check (length rs) ?s = \<lparr>flag = 1, readers = (rs @ [Passed]) @ replicate n Checking, writers = w\<rparr>"
    by (simp add: sleepy_check_def list_update_append)
  ultimately show ?case using Suc.IH [of "rs @ [Passed]"] by (simp add: converse_rtranclp_into_rtranclp)
qed simp

lemma sleepy_return_all:
  "sleepy_step\<^sup>*\<^sup>* \<lparr>flag = f, readers = rs @ replicate n Passed, writers = w\<rparr>
     \<lparr>flag = (if n = 0 then f else 0), readers = rs @ replicate n (Returned True), writers = w\<rparr>"
proof (induction n arbitrary: rs f)
  case (Suc n)
  let ?s = "\<lparr>flag = f, readers = rs @ replicate (Suc n) Passed, writers = w\<rparr>"
  have "sleepy_step ?s (sleepy_clear (length rs) ?s)" by (rule clear) (simp_all add: nth_append)
  moreover have "sleepy_clear (length rs) ?s = \<lparr>flag = 0, readers = (rs @ [Returned True]) @ replicate n Passed, writers = w\<rparr>"
    by (simp add: sleepy_clear_def list_update_append nth_append)
  ultimately show ?case using Suc.IH [of 0 "rs @ [Returned True]"] by (simp add: converse_rtranclp_into_rtranclp)
qed simp

text \<open>A whole call of \<open>sleepy_write\<close> in one go.\<close>

lemma sleepy_write_all:
  "sleepy_step\<^sup>*\<^sup>* \<lparr>flag = f, readers = rs, writers = []\<rparr> \<lparr>flag = 1, readers = map woken rs, writers = [Written]\<rparr>"
proof -
  let ?s = "\<lparr>flag = f, readers = rs, writers = []\<rparr>"
  let ?s1 = "?s\<lparr>writers := [At_flag]\<rparr>" let ?s2 = "sleepy_write 0 ?s1"
  have "sleepy_step ?s ?s1" using new_writer [of ?s] by simp
  moreover have "sleepy_step ?s1 ?s2" by (rule wr) simp
  moreover have "sleepy_step ?s2 (sleepy_write 0 ?s2)" by (rule wr) (simp add: sleepy_write_def)
  moreover have "sleepy_write 0 ?s2 = \<lparr>flag = 1, readers = map woken rs, writers = [Written]\<rparr>" by (simp add: sleepy_write_def)
  ultimately show ?thesis by (metis converse_rtranclp_into_rtranclp r_into_rtranclp)
qed

lemma one_write_serves_all:
  "sleepy_step\<^sup>*\<^sup>* \<lparr>flag = 0, readers = replicate n Asleep, writers = []\<rparr>
     \<lparr>flag = (if n = 0 then 1 else 0), readers = replicate n (Returned True), writers = [Written]\<rparr>"
  using sleepy_write_all [of 0 "replicate n Asleep"] sleepy_pass_all [of "[]" n "[Written]"] sleepy_return_all [of 1 "[]" n "[Written]"] by simp

section \<open>Properties\<close>

text \<open>
  C37. Loading of \<^verbatim>\<open>globalmem\<close>, \<^verbatim>\<open>completion\<close> and \<^verbatim>\<open>sleepy\<close>. A load that fails (no device numbers,
  no memory) returns a negative number and leaves nothing registered. A load that succeeds owns
  its numbers and its zeroed device, and unloading it gives everything back. But a failure of \<open>cdev_add\<close>
  does not make the load fail: the module is loaded without a device.
\<close>

theorem chr_module_lifecycles:
  assumes "0 \<le> a_region a \<longrightarrow> snd (a_dev a) = 0" and "cm_region g = None" and "\<not> cm_cdev g" and "cm_region c = None" and "\<not> cm_cdev c"
  shows "(case globalmem_init a g of (r, m) \<Rightarrow>
      if r < 0 then cm_region m = None \<and> \<not> cm_cdev m \<and> (a_region a < 0 \<or> \<not> a_array a)
      else cm_devp m = Array_live gm_zero \<and> (cm_cdev m \<longleftrightarrow> a_cdev a 0 = 0) \<and> cm_region m = Some (cm_major m, 0) \<and>
        globalmem_exit m = Inr (m\<lparr>cm_cdev := False, cm_devp := Array_freed, cm_region := None\<rparr>)) \<and>
    (case completion_init a c of (r, m) \<Rightarrow>
      if r < 0 then cm_region m = None \<and> \<not> cm_cdev m \<and> (a_region a < 0 \<or> \<not> a_array a)
      else cm_devp m = Array_live () \<and> (cm_cdev m \<longleftrightarrow> a_cdev a 0 = 0) \<and> cm_region m = Some (cm_major m, 0) \<and>
        completion_exit m = Inr (m\<lparr>cm_cdev := False, cm_devp := Array_freed, cm_region := None\<rparr>)) \<and>
    (case sleepy_init a c of (r, m) \<Rightarrow>
      r = a_region a \<and>
      (if r < 0 then m = c
       else (cm_cdev m \<longleftrightarrow> a_cdev a 0 = 0) \<and> cm_region m = Some (cm_major m, 0) \<and>
         sleepy_exit m = c\<lparr>cm_major := cm_major m\<rparr>))"
proof (intro conjI)
  have gi: "globalmem_init = chr_init gm_zero" by (simp add: globalmem_init_def gm_zero_def GLOBALMEM_SIZE_def)
  have why: "fst (chr_init d a m) < 0 \<Longrightarrow> a_region a < 0 \<or> \<not> a_array a" for d :: 'd and m
    by (auto simp: chr_init_def chr_region_def Let_def split: if_splits)
  show "case globalmem_init a g of (r, m) \<Rightarrow>
      if r < 0 then cm_region m = None \<and> \<not> cm_cdev m \<and> (a_region a < 0 \<or> \<not> a_array a)
      else cm_devp m = Array_live gm_zero \<and> (cm_cdev m \<longleftrightarrow> a_cdev a 0 = 0) \<and> cm_region m = Some (cm_major m, 0) \<and>
        globalmem_exit m = Inr (m\<lparr>cm_cdev := False, cm_devp := Array_freed, cm_region := None\<rparr>)"
    using chr_init_cases [OF assms(1-3), of gm_zero] why [of gm_zero g]
    by (auto simp: gi globalmem_exit_def split: prod.splits if_splits)
  show "case completion_init a c of (r, m) \<Rightarrow>
      if r < 0 then cm_region m = None \<and> \<not> cm_cdev m \<and> (a_region a < 0 \<or> \<not> a_array a)
      else cm_devp m = Array_live () \<and> (cm_cdev m \<longleftrightarrow> a_cdev a 0 = 0) \<and> cm_region m = Some (cm_major m, 0) \<and>
        completion_exit m = Inr (m\<lparr>cm_cdev := False, cm_devp := Array_freed, cm_region := None\<rparr>)"
    using chr_init_cases [OF assms(1,4,5), of "()"] why [of "()" c]
    by (auto simp: completion_init_def completion_exit_def split: prod.splits if_splits)
  show "case sleepy_init a c of (r, m) \<Rightarrow> r = a_region a \<and>
      (if r < 0 then m = c
       else (cm_cdev m \<longleftrightarrow> a_cdev a 0 = 0) \<and> cm_region m = Some (cm_major m, 0) \<and>
         sleepy_exit m = c\<lparr>cm_major := cm_major m\<rparr>)"
    using assms(1,4,5) by (cases "a_dev a"; cases c) (simp add: sleepy_init_def sleepy_exit_def setup_cdev_def chr_unregister_def Let_def)
qed

definition demo_chr :: "'d chr_module" where
  "demo_chr = \<lparr>cm_major = 0, cm_devp = Array_null, cm_region = None, cm_cdev = False\<rparr>"

theorem chr_module_lifecycles_witness:
  "\<exists>m. globalmem_init (demo_answers\<lparr>a_cdev := \<lambda>i. - EBUSY\<rparr>) demo_chr = (0, m) \<and> \<not> cm_cdev m \<and> cm_devp m = Array_live gm_zero \<and>
     globalmem_exit m = Inr (m\<lparr>cm_cdev := False, cm_devp := Array_freed, cm_region := None\<rparr>)"
proof -
  let ?a = "demo_answers\<lparr>a_cdev := \<lambda>i. - EBUSY\<rparr>"
  have "fst (globalmem_init ?a demo_chr) = 0"
    by (simp add: globalmem_init_def chr_init_def chr_region_def demo_answers_def demo_chr_def Let_def)
  with chr_module_lifecycles [of ?a demo_chr demo_chr, THEN conjunct1] show ?thesis
    by (auto simp: demo_answers_def demo_chr_def split: prod.splits)
qed

text \<open>
  C39. \<^verbatim>\<open>sleepy\<close>, whose readers and writers lock nothing: in every reachable state a reader sleeps while the flag is set only
  if a writer between its two statements is about to wake it, and no reader
  has come back from its wait undisturbed before a writer set the flag. But a wake-up is not counted: one
  write can let any number of sleeping readers return, because testing and clearing the flag are
  separate steps; and a reader that a signal has interrupted clears the flag as well, so that a write can serve nobody: the
  other reader finds the flag cleared and goes back to sleep.
\<close>

theorem sleepy_wakeups:
  "(sleepy_reachable s \<longrightarrow> (flag s \<noteq> 0 \<and> Asleep \<in> set (readers s) \<longrightarrow> At_wake \<in> set (writers s)) \<and>
      (Passed \<in> set (readers s) \<or> Returned True \<in> set (readers s) \<longrightarrow> (\<exists>w\<in>set (writers s). w \<noteq> At_flag))) \<and>
   (\<exists>s1. sleepy_reachable s1 \<and> readers s1 = replicate n Asleep \<and> writers s1 = [] \<and>
      (\<exists>s2. sleepy_step\<^sup>*\<^sup>* s1 s2 \<and> readers s2 = replicate n (Returned True) \<and> writers s2 = [Written])) \<and>
   (\<exists>s1. sleepy_reachable s1 \<and> readers s1 = [Asleep, Interrupted] \<and> writers s1 = [] \<and>
      (\<exists>s2. sleepy_step\<^sup>*\<^sup>* s1 s2 \<and> flag s2 = 0 \<and> readers s2 = [Asleep, Returned False] \<and> writers s2 = [Written]))"
proof (intro conjI)
  show "sleepy_reachable s \<longrightarrow> (flag s \<noteq> 0 \<and> Asleep \<in> set (readers s) \<longrightarrow> At_wake \<in> set (writers s)) \<and>
      (Passed \<in> set (readers s) \<or> Returned True \<in> set (readers s) \<longrightarrow> (\<exists>w\<in>set (writers s). w \<noteq> At_flag))"
    using sleepy_inv_reachable [of s] by (auto simp: sleepy_inv_def)
  have arrive: "sleepy_reachable \<lparr>flag = 0, readers = replicate m Asleep, writers = []\<rparr>" for m
    using sleepy_arrive [of "[]" "[]" m] by (simp add: sleepy_start_def)
  with one_write_serves_all [of n]
  show "\<exists>s1. sleepy_reachable s1 \<and> readers s1 = replicate n Asleep \<and> writers s1 = [] \<and>
      (\<exists>s2. sleepy_step\<^sup>*\<^sup>* s1 s2 \<and> readers s2 = replicate n (Returned True) \<and> writers s2 = [Written])"
    by (intro exI [of _ "\<lparr>flag = 0, readers = replicate n Asleep, writers = []\<rparr>"]) auto
  let ?s0 = "\<lparr>flag = 0, readers = replicate 2 Asleep, writers = []\<rparr>" and ?s1 = "\<lparr>flag = 0, readers = [Asleep, Interrupted], writers = []\<rparr>"
  let ?w = "\<lparr>flag = 1, readers = [Checking, Interrupted], writers = [Written]\<rparr>"
  let ?s2 = "sleepy_clear 1 ?w"
  have "sleepy_signal 1 ?s0 = ?s1" by (simp add: sleepy_signal_def numeral_2_eq_2)
  moreover have "sleepy_step ?s0 (sleepy_signal 1 ?s0)" by (rule signal) (simp_all add: numeral_2_eq_2)
  ultimately have r1: "sleepy_reachable ?s1" using arrive [of 2] by (metis rtranclp.rtrancl_into_rtrancl)
  have "sleepy_step\<^sup>*\<^sup>* ?s1 ?w" using sleepy_write_all [of 0 "[Asleep, Interrupted]"] by simp
  moreover have "sleepy_step ?w ?s2" "sleepy_step ?s2 (sleepy_check 0 ?s2)"
    by (rule clear check; simp add: sleepy_ops)+
  ultimately have r2: "sleepy_step\<^sup>*\<^sup>* ?s1 (sleepy_check 0 ?s2)" by (meson rtranclp.rtrancl_into_rtrancl)
  show "\<exists>s1. sleepy_reachable s1 \<and> readers s1 = [Asleep, Interrupted] \<and> writers s1 = [] \<and>
      (\<exists>s2. sleepy_step\<^sup>*\<^sup>* s1 s2 \<and> flag s2 = 0 \<and> readers s2 = [Asleep, Returned False] \<and> writers s2 = [Written])"
    by (intro exI [of _ ?s1] exI [of _ "sleepy_check 0 ?s2"] conjI r1 r2) (simp_all add: sleepy_ops)
qed

theorem sleepy_wakeups_witness:
  "\<exists>w\<in>set (writers (sleepy_check 0 \<lparr>flag = 1, readers = [Checking], writers = [Written]\<rparr>)). w \<noteq> At_flag"
proof -
  let ?w = "\<lparr>flag = 1, readers = [], writers = [Written]\<rparr>"
  have "sleepy_reachable ?w" using sleepy_write_all [of 0 "[]"] by (simp add: sleepy_start_def)
  moreover have "sleepy_step ?w (sleepy_enter ?w)" by (rule enter)
  moreover have "sleepy_step (sleepy_enter ?w) (sleepy_check 0 (sleepy_enter ?w))" by (rule check) (simp_all add: sleepy_enter_def)
  ultimately have "sleepy_reachable (sleepy_check 0 (sleepy_enter ?w))" by (meson rtranclp.rtrancl_into_rtrancl)
  moreover have "sleepy_enter ?w = \<lparr>flag = 1, readers = [Checking], writers = [Written]\<rparr>" by (simp add: sleepy_enter_def)
  ultimately show ?thesis
    using sleepy_wakeups [of "sleepy_check 0 (sleepy_enter ?w)" 0, THEN conjunct1] by (simp add: sleepy_check_def)
qed

end
