(* ===== verification/Completion.thy ===== *)
theory Completion
  imports Chrdev
begin

text \<open>
  The read and write handlers of \<^verbatim>\<open>completion.c\<close>. A reader waits for \<open>my_comp\<close>, a writer completes it. The kernel's
  completion is a parameter; what it promises is that it counts. Readers and writers are a step
  relation, as for sleepy, whose flag does not count.
\<close>

section \<open>The kernel's completion\<close>

record 'c completion_ops =
  complete :: "'c \<Rightarrow> 'c"
  wait_for_completion :: "'c \<Rightarrow> 'c option"   \<comment> \<open>\<open>None\<close>: the caller has to wait\<close>
  pending :: "'c \<Rightarrow> nat"

text \<open>Up to \<open>UINT_MAX\<close>, where the counter stays (that value stands for \<open>complete_all\<close>).\<close>

definition completion_ok :: "'c completion_ops \<Rightarrow> bool" where
  "completion_ok c \<longleftrightarrow>
     (\<forall>x. pending c x < 2 ^ 32 - 1 \<longrightarrow> pending c (complete c x) = Suc (pending c x)) \<and>
     (\<forall>x. pending c x < 2 ^ 32 - 1 \<longrightarrow>
        (case wait_for_completion c x of None \<Rightarrow> pending c x = 0 | Some y \<Rightarrow> pending c x = Suc (pending c y)))"

section \<open>The handlers\<close>

definition completion_read :: "'c completion_ops \<Rightarrow> 'c \<Rightarrow> (int \<times> 'c) option" where
  \<comment> \<open>\<open>None\<close>: still waiting\<close>
  "completion_read c x = map_option (\<lambda>y. (0, y)) (wait_for_completion c x)"

definition completion_write :: "'c completion_ops \<Rightarrow> nat \<Rightarrow> 'c \<Rightarrow> int \<times> 'c" where
  "completion_write c n x = (s64 (int n), complete c x)"

datatype creader = Waiting | Woken int   \<comment> \<open>with what the call returned\<close>

record 'c comp_state =
  my_comp :: 'c
  creaders :: "creader list"
  cwrites :: nat

inductive comp_step :: "'c completion_ops \<Rightarrow> 'c comp_state \<Rightarrow> 'c comp_state \<Rightarrow> bool" for c where
  arrive: "comp_step c s (s\<lparr>creaders := creaders s @ [Waiting]\<rparr>)"
| pass: "i < length (creaders s) \<Longrightarrow> creaders s ! i = Waiting \<Longrightarrow> completion_read c (my_comp s) = Some (r, y) \<Longrightarrow>
    comp_step c s (s\<lparr>my_comp := y, creaders := (creaders s)[i := Woken r]\<rparr>)"
| writes: "completion_write c n (my_comp s) = (r, y) \<Longrightarrow> comp_step c s (s\<lparr>my_comp := y, cwrites := Suc (cwrites s)\<rparr>)"

section \<open>Counting\<close>

lemma count_update: "i < length rs \<Longrightarrow> rs ! i = Waiting \<Longrightarrow> count_list (rs[i := Woken r]) Waiting + 1 = count_list rs Waiting"
proof (induction rs arbitrary: i)
  case (Cons x rs)
  then show ?case by (cases i) auto
qed simp

abbreviation served :: "'c comp_state \<Rightarrow> nat" where
  "served s \<equiv> length (creaders s) - count_list (creaders s) Waiting"

definition comp_inv :: "'c completion_ops \<Rightarrow> 'c comp_state \<Rightarrow> bool" where
  "comp_inv c s \<longleftrightarrow> (cwrites s < 2 ^ 32 - 1 \<longrightarrow> served s + pending c (my_comp s) = cwrites s)"

lemma comp_inv_step:
  assumes ok: "completion_ok c" and "comp_step c s s'" and inv: "comp_inv c s"
  shows "comp_inv c s'"
  using assms(2)
proof cases
  case arrive
  then have "served s' = served s" "my_comp s' = my_comp s" "cwrites s' = cwrites s" by simp_all
  then show ?thesis using inv by (simp add: comp_inv_def)
next
  case (pass i r y)
  note 2 = this
  have "pending c (my_comp s) = Suc (pending c y)" if "cwrites s < 2 ^ 32 - 1"
    using ok 2 inv that by (auto simp: completion_ok_def completion_read_def comp_inv_def dest!: spec [of _ "my_comp s"])
  then show ?thesis
    using 2(1) inv count_update [OF 2(2,3), of r] count_le_length [of "creaders s" Waiting]
    by (auto simp: comp_inv_def)
next
  case (writes n r y)
  note 3 = this
  have "pending c y = Suc (pending c (my_comp s))" if "Suc (cwrites s) < 2 ^ 32 - 1"
    using ok 3 inv that by (auto simp: completion_ok_def completion_write_def comp_inv_def)
  then show ?thesis using 3(1) inv by (auto simp: comp_inv_def)
qed

lemma comp_inv_reachable:
  assumes "completion_ok c" and "(comp_step c)\<^sup>*\<^sup>* s s'" and "comp_inv c s"
  shows "comp_inv c s'"
  using assms(2) by (induction rule: rtranclp_induct) (use assms comp_inv_step in blast)+

section \<open>Properties\<close>

text \<open>
  C38. \<^verbatim>\<open>completion\<close>: of all the readers that have ever arrived, at most as many have returned as there were
  writes, and no write is lost: as long as fewer have returned, whoever waits can return at once, with 0, and the count
  goes up by one; once as many have returned, everyone who waits goes on waiting until the next write, which
  lets exactly one of them through. (The counter of the kernel ends at \<open>2 ^ 32 - 1\<close> writes nobody has read.)
\<close>

theorem completion_counts:
  assumes "completion_ok c" and "pending c x = 0" and "(comp_step c)\<^sup>*\<^sup>* \<lparr>my_comp = x, creaders = [], cwrites = 0\<rparr> s"
    and "Suc (cwrites s) < 2 ^ 32 - 1"
  shows "served s \<le> cwrites s \<and>
    (served s < cwrites s \<longrightarrow> (\<exists>y. completion_read c (my_comp s) = Some (0, y)) \<and>
       (\<forall>i<length (creaders s). creaders s ! i = Waiting \<longrightarrow> (\<exists>s'. comp_step c s s' \<and> creaders s' ! i = Woken 0 \<and> served s' = Suc (served s)))) \<and>
    (served s = cwrites s \<longrightarrow> completion_read c (my_comp s) = None \<and>
       (\<exists>y. completion_read c (snd (completion_write c n (my_comp s))) = Some (0, y) \<and> completion_read c y = None))"
proof (intro conjI impI allI)
  have "comp_inv c \<lparr>my_comp = x, creaders = [], cwrites = 0\<rparr>" using assms(2) by (simp add: comp_inv_def)
  then have cnt: "served s + pending c (my_comp s) = cwrites s"
    using comp_inv_reachable [OF assms(1,3)] assms(4) by (simp add: comp_inv_def)
  have wait: "case wait_for_completion c y of None \<Rightarrow> pending c y = 0 | Some z \<Rightarrow> pending c y = Suc (pending c z)"
    if "pending c y \<le> Suc (cwrites s)" for y
    using assms(1,4) that unfolding completion_ok_def by fastforce
  note w = wait [of "my_comp s"]
  show "served s \<le> cwrites s" using cnt by simp
  {
    assume "served s < cwrites s"
    with cnt w obtain y where y: "wait_for_completion c (my_comp s) = Some y" by (auto split: option.splits)
    then show "\<exists>y. completion_read c (my_comp s) = Some (0, y)" by (simp add: completion_read_def)
    fix i assume i: "i < length (creaders s)" "creaders s ! i = Waiting"
    let ?s = "s\<lparr>my_comp := y, creaders := (creaders s)[i := Woken 0]\<rparr>"
    have "comp_step c s ?s" using i y by (intro pass) (simp_all add: completion_read_def)
    moreover have "served ?s = Suc (served s)"
      using count_update [OF i, of 0] count_le_length [of "creaders s" Waiting] by simp
    ultimately show "\<exists>s'. comp_step c s s' \<and> creaders s' ! i = Woken 0 \<and> served s' = Suc (served s)"
      using i by (intro exI [of _ ?s]) simp
  next
    assume "served s = cwrites s"
    with cnt have 0: "pending c (my_comp s) = 0" by simp
    with w show "completion_read c (my_comp s) = None" by (simp add: completion_read_def split: option.splits)
    have 1: "pending c (complete c (my_comp s)) = 1" using assms(1) 0 by (simp add: completion_ok_def)
    with wait [of "complete c (my_comp s)"] obtain y where y: "wait_for_completion c (complete c (my_comp s)) = Some y" "pending c y = 0"
      by (auto split: option.splits)
    with wait [of y] show "\<exists>y. completion_read c (snd (completion_write c n (my_comp s))) = Some (0, y) \<and> completion_read c y = None"
      by (auto simp: completion_read_def completion_write_def split: option.splits)
  }
qed

definition counter_completion :: "nat completion_ops" where
  "counter_completion =
     \<lparr>complete = (\<lambda>n. if n = 2 ^ 32 - 1 then n else Suc n),
      wait_for_completion = (\<lambda>n. if n = 0 then None else Some (if n = 2 ^ 32 - 1 then n else n - 1)), pending = (\<lambda>n. n)\<rparr>"

lemma counter_completion_ok: "completion_ok counter_completion"
  by (simp add: completion_ok_def counter_completion_def)

theorem completion_counts_witness:
  "\<exists>y. completion_read counter_completion (my_comp \<lparr>my_comp = 1, creaders = [], cwrites = 1\<rparr>) = Some (0, y)"
proof -
  let ?s = "\<lparr>my_comp = 0 :: nat, creaders = [], cwrites = 0\<rparr>"
  have "comp_step counter_completion ?s (?s\<lparr>my_comp := 1, cwrites := Suc 0\<rparr>)"
    using writes [of counter_completion 5 ?s 5 1] by (simp add: completion_write_def counter_completion_def s64_id)
  then have "(comp_step counter_completion)\<^sup>*\<^sup>* ?s \<lparr>my_comp = 1, creaders = [], cwrites = 1\<rparr>" by simp
  from completion_counts [OF counter_completion_ok _ this, of 0] show ?thesis by (simp add: counter_completion_def)
qed

end
