(* ===== verification/Scull_Conc.thy ===== *)
theory Scull_Conc
  imports Scull_Correct
begin

text \<open>
  Any number of reads and writes of one scull device at once. A call reads the parameters and the size of the device before it
  waits for the semaphore (the first lines of \<open>scull_read\<close> and \<open>scull_write\<close>), and works on the device as it is when it gets the semaphore. The calls
  that hold it exclude each other, so the rest of a call is one step. Opens that truncate are not among the steps; see \<open>Scull_Race\<close> for these.
\<close>

section \<open>Calls and steps\<close>

text \<open>A call waits, with the device as it was when the call began, or it has returned.\<close>

datatype conc_call = Waiting access scull_dev | Returned access int "byte list"

record conc =
  cn_dev :: scull_dev
  cn_heap :: heap
  cn_calls :: "conc_call list"
  cn_log :: "access list"     \<comment> \<open>ghost: the calls that have returned, in the order in which they had the semaphore\<close>

fun conc_io :: "kernel \<Rightarrow> scull_globals \<Rightarrow> access \<Rightarrow> scull_dev \<Rightarrow> scull_dev \<Rightarrow> heap \<Rightarrow> io_result res" where
  "conc_io k g (Rd intr count pos) d0 d h = scull_read k intr d0 d h count pos"
| "conc_io k g (Wr intr ubuf count pos) d0 d h = scull_write k g intr d0 d h ubuf count pos"

definition conc_start :: "scull_dev \<Rightarrow> heap \<Rightarrow> conc" where
  "conc_start d h = \<lparr>cn_dev = d, cn_heap = h, cn_calls = [], cn_log = []\<rparr>"

definition conc_arrive :: "access \<Rightarrow> conc \<Rightarrow> conc" where
  "conc_arrive a s = s\<lparr>cn_calls := cn_calls s @ [Waiting a (cn_dev s)]\<rparr>"

definition conc_run :: "kernel \<Rightarrow> scull_globals \<Rightarrow> nat \<Rightarrow> conc \<Rightarrow> conc option res" where
  \<comment> \<open>call \<open>i\<close> gets the semaphore, or a signal; \<open>None\<close>: no such call waits\<close>
  "conc_run k g i s =
     (if i < length (cn_calls s) then
        (case cn_calls s ! i of
           Waiting a d0 \<Rightarrow> bindE (conc_io k g a d0 (cn_dev s) (cn_heap s)) (\<lambda>r.
             Inr (Some \<lparr>cn_dev = dev' r, cn_heap = heap' r, cn_calls = (cn_calls s)[i := Returned a (ret r) (out r)], cn_log = cn_log s @ [a]\<rparr>))
         | _ \<Rightarrow> Inr None)
      else Inr None)"

inductive conc_reach :: "kernel \<Rightarrow> scull_globals \<Rightarrow> conc \<Rightarrow> conc \<Rightarrow> bool" for k g s0 where
  initial: "conc_reach k g s0 s0"
| arrive: "conc_reach k g s0 s \<Longrightarrow> conc_reach k g s0 (conc_arrive a s)"
| run: "conc_reach k g s0 s \<Longrightarrow> conc_run k g i s = Inr (Some s') \<Longrightarrow> conc_reach k g s0 s'"

fun call_access :: "conc_call \<Rightarrow> access" where
  "call_access (Waiting a d0) = a"
| "call_access (Returned a v bs) = a"

section \<open>Older devices\<close>

text \<open>A write does not look at the size, so that the age of its parameters does not matter; for a read it is a limit.\<close>

lemma write_stale: "same_shape d0 d \<Longrightarrow> scull_write k g intr d0 d h ubuf count pos = scull_write k g intr d d h ubuf count pos"
  by (simp add: scull_write_def same_shape_def)

lemma bindE_same: "bindE x f = Inr r \<Longrightarrow> bindE x f' = Inr r' \<Longrightarrow> (\<And>v. x = Inr v \<Longrightarrow> f v = Inr r \<Longrightarrow> f' v = Inr r' \<Longrightarrow> P) \<Longrightarrow> P"
  by (cases x) simp_all

lemma read_same_device:
  assumes "same_shape d0 d" and "scull_read k intr d0 d h count pos = Inr r" and "scull_read k intr d d h count pos = Inr r'"
  shows "dev' r = dev' r'" and "heap' r = heap' r'"
proof -
  have rb: "dev' x = up e \<and> heap' x = h'" if "read_block k left quant q_pos count pos blk e h' = Inr x" for left quant q_pos blk e h' x
    using that by (auto simp: read_block_def Let_def split: if_splits)
  have "dev' r = dev' r' \<and> heap' r = heap' r'"
    using assms
    by (auto simp: scull_read_def same_shape_def Let_def split: if_splits elim!: bindE_same dest!: rb)
  then show "dev' r = dev' r'" "heap' r = heap' r'" by simp_all
qed

section \<open>Invariant\<close>

fun waits_for :: "conc_call \<Rightarrow> nat" where
  "waits_for (Waiting a d0) = access_count a"
| "waits_for (Returned a v bs) = 0"

fun finished :: "conc_call \<Rightarrow> access list" where
  "finished (Waiting a d0) = []"
| "finished (Returned a v bs) = [a]"

definition waiting_total :: "conc \<Rightarrow> nat" where
  "waiting_total s = sum_list (map waits_for (cn_calls s))"

definition finished_calls :: "conc \<Rightarrow> access list" where
  "finished_calls s = concat (map finished (cn_calls s))"

definition asked_total :: "conc \<Rightarrow> nat" where
  "asked_total s = sum_list (map (access_count \<circ> call_access) (cn_calls s))"

definition conc_inv :: "kernel \<Rightarrow> scull_globals \<Rightarrow> scull_dev \<Rightarrow> heap \<Rightarrow> gnode list \<Rightarrow> conc \<Rightarrow> bool" where
  \<comment> \<open>the device is as after a sequential run of the log, and no waiting call knows a bigger one\<close>
  "conc_inv k g d h gs s \<longleftrightarrow>
     (\<exists>gs'. dev_inv (cn_heap s) (cn_dev s) gs' \<and> framed h gs (cn_heap s) gs') \<and> same_shape d (cn_dev s) \<and> sem (cn_dev s) = sem d \<and>
     run_accesses k g (cn_log s) (d, h) = Inr (cn_dev s, cn_heap s) \<and> (\<forall>b. count_list (cn_log s) b = count_list (finished_calls s) b) \<and>
     0 \<le> dsize (cn_dev s) \<and> dsize (cn_dev s) + int (waiting_total s) \<le> dsize d + int (asked_total s) \<and>
     (\<forall>a d0. Waiting a d0 \<in> set (cn_calls s) \<longrightarrow> same_shape d0 (cn_dev s) \<and> 0 \<le> dsize d0 \<and> dsize d0 \<le> dsize (cn_dev s))"

lemma run_accesses_snoc: "run_accesses k g as s = Inr s1 \<Longrightarrow> run_accesses k g (as @ [a]) s = access_step k g a s1"
proof (induction as arbitrary: s)
  case Nil
  then show ?case by (cases "access_step k g a s1") simp_all
next
  case (Cons b as)
  then obtain s2 where "access_step k g b s = Inr s2" "run_accesses k g as s2 = Inr s1" by (cases "access_step k g b s") auto
  with Cons.IH show ?case by simp
qed

lemma conc_io_ok:
  assumes "kernel_ok k" and "dev_inv h d gs" and "alloc_fits k g d" and "in_range d (access_pos a) (access_count a)" and sh: "same_shape d0 d"
  obtains r where "conc_io k g a d0 d h = Inr r" and "access_step k g a (d, h) = Inr (dev' r, heap' r)"
proof -
  obtain d' h' where st: "access_step k g a (d, h) = Inr (d', h')" by (rule access_step_ok [OF assms(1-4)])
  show thesis
  proof (cases a)
    case (Wr intr ubuf count pos)
    with st write_stale [OF sh] that show thesis by (auto simp: bindE_def split: sum.splits)
  next
    case (Rd intr count pos)
    obtain r' where r': "scull_read k intr d d h count pos = Inr r'" using st Rd by (auto simp: bindE_def split: sum.splits)
    have "\<exists>r. scull_read k intr d0 d h count pos = Inr r"
    proof (cases intr)
      case True
      then show ?thesis by (simp add: read_interrupted)
    next
      case False
      have "in_range d pos count" "quantum d0 = quantum d" "qset d0 = qset d" using assms(4) Rd sh by (simp_all add: same_shape_def)
      with False show ?thesis by (metis scull_read_stale [OF assms(1,2)])
    qed
    then obtain r where r: "scull_read k intr d0 d h count pos = Inr r" by blast
    with read_same_device [OF sh r r'] r' Rd show thesis by (intro that [of r]) simp_all
  qed
qed

lemma call_in_range:
  assumes "conc_inv k g d h gs s" and "accesses_ok d (map call_access (cn_calls s))" and "Waiting a d0 \<in> set (cn_calls s)"
  shows "in_range (cn_dev s) (access_pos a) (access_count a)"
proof -
  have "access_count a \<in> set (map waits_for (cn_calls s))" using assms(3) by force
  then have "access_count a \<le> waiting_total s" unfolding waiting_total_def by (rule member_le_sum_list) simp
  moreover have "a \<in> set (map call_access (cn_calls s))" using assms(3) by force
  ultimately show ?thesis
    using assms(1,2) by (auto simp: conc_inv_def accesses_ok_def in_range_def asked_total_def same_shape_def list_all_iff comp_def)
qed

lemma conc_run_ok:
  assumes k: "kernel_ok k" and inv: "conc_inv k g d h gs s" and fits: "alloc_fits k g d" and ok: "accesses_ok d (map call_access (cn_calls s))"
    and i: "i < length (cn_calls s)" "cn_calls s ! i = Waiting a d0"
  obtains r s' where "conc_io k g a d0 (cn_dev s) (cn_heap s) = Inr r" and "conc_run k g i s = Inr (Some s')" and "conc_inv k g d h gs s'"
    and "map call_access (cn_calls s') = map call_access (cn_calls s)"
proof -
  let ?d = "cn_dev s" and ?h = "cn_heap s"
  have w: "Waiting a d0 \<in> set (cn_calls s)" using i by (metis nth_mem)
  obtain gs' where gs': "dev_inv ?h ?d gs'" "framed h gs ?h gs'" using inv by (auto simp: conc_inv_def)
  have sh: "same_shape d ?d" "same_shape d0 ?d" using inv w by (auto simp: conc_inv_def)
  have fits': "alloc_fits k g ?d" using fits same_shape_accesses(3) [OF sh(1), of k g] by simp
  note rng = call_in_range [OF inv ok w]
  obtain r where r: "conc_io k g a d0 ?d ?h = Inr r" "access_step k g a (?d, ?h) = Inr (dev' r, heap' r)"
    by (rule conc_io_ok [OF k gs'(1) fits' rng sh(2)])
  obtain gs2 where n: "dev_inv (heap' r) (dev' r) gs2" "same_shape ?d (dev' r)" "sem (dev' r) = sem ?d" "framed ?h gs' (heap' r) gs2"
    "dsize ?d \<le> dsize (dev' r)" "dsize (dev' r) \<le> dsize ?d + int (access_count a)"
    by (rule access_step_ok [OF k gs'(1) fits' rng]) (use r(2) in auto)
  let ?cs = "(cn_calls s)[i := Returned a (ret r) (out r)]"
  let ?s = "\<lparr>cn_dev = dev' r, cn_heap = heap' r, cn_calls = ?cs, cn_log = cn_log s @ [a]\<rparr>"
  have acc: "map call_access ?cs = map call_access (cn_calls s)" using i by (simp add: map_update) (metis call_access.simps(1) length_map list_update_id nth_map)
  have run: "conc_run k g i s = Inr (Some ?s)" using i r(1) by (simp add: conc_run_def)
  let ?as = "take i (cn_calls s)" and ?bs = "drop (Suc i) (cn_calls s)"
  have sp: "map f (cn_calls s) = map f ?as @ f (Waiting a d0) # map f ?bs" for f :: "conc_call \<Rightarrow> 'z"
    using arg_cong [OF id_take_nth_drop [OF i(1)], of "map f"] i(2) by simp
  have sp': "?cs = ?as @ Returned a (ret r) (out r) # ?bs" using i(1) by (simp add: upd_conv_take_nth_drop)
  have tot: "waiting_total s = waiting_total ?s + access_count a"
    "count_list (finished_calls ?s) b = count_list (finished_calls s) b + (if b = a then 1 else 0)" for b
    unfolding waiting_total_def finished_calls_def sp by (simp_all add: sp')
  have asked: "asked_total ?s = asked_total s" using arg_cong [OF acc, of "map access_count"] by (simp add: asked_total_def comp_def)
  have log: "run_accesses k g (cn_log s @ [a]) (d, h) = Inr (dev' r, heap' r)"
    using run_accesses_snoc [of k g "cn_log s" "(d, h)" "(?d, ?h)" a] inv r(2) by (simp add: conc_inv_def)
  have "same_shape d1 (dev' r) \<and> 0 \<le> dsize d1 \<and> dsize d1 \<le> dsize (dev' r)" if "Waiting b d1 \<in> set ?cs" for b d1
    using that inv n(2,5) same_shape_trans by (fastforce simp: conc_inv_def dest!: set_update_subset_insert [THEN subsetD])
  moreover have "dsize (dev' r) + int (waiting_total ?s) \<le> dsize d + int (asked_total ?s)" "0 \<le> dsize (dev' r)"
    using inv n(5,6) tot(1) asked by (simp_all add: conc_inv_def)
  moreover have "\<exists>gs'. dev_inv (heap' r) (dev' r) gs' \<and> framed h gs (heap' r) gs'" using n(1) framed_trans [OF gs'(2) n(4)] by blast
  ultimately have "conc_inv k g d h gs ?s"
    using inv n(3) same_shape_trans [OF sh(1) n(2)] log tot(2) by (simp add: conc_inv_def)
  then show thesis by (rule that [OF r(1) run]) (use acc in simp)
qed

lemma conc_reach_inv:
  assumes k: "kernel_ok k" and inv: "dev_inv h d gs" and fits: "alloc_fits k g d"
  shows "conc_reach k g (conc_start d h) s \<Longrightarrow> accesses_ok d (map call_access (cn_calls s)) \<Longrightarrow> conc_inv k g d h gs s"
proof (induction rule: conc_reach.induct)
  case initial
  then show ?case using inv
    by (auto simp: conc_inv_def conc_start_def accesses_ok_def finished_calls_def waiting_total_def asked_total_def same_shape_def)
next
  case (arrive s a)
  have "accesses_ok d (map call_access (cn_calls s))" using arrive.prems by (auto simp: accesses_ok_def conc_arrive_def)
  from arrive.IH [OF this] show ?case
    by (auto simp: conc_inv_def conc_arrive_def finished_calls_def waiting_total_def asked_total_def same_shape_def)
next
  case (run s i s')
  then obtain a d0 where i: "i < length (cn_calls s)" "cn_calls s ! i = Waiting a d0"
    by (auto simp: conc_run_def split: if_splits conc_call.splits)
  have "map call_access (cn_calls s') = map call_access (cn_calls s)"
    using run.hyps(2) i by (auto simp: conc_run_def bindE_def map_update split: sum.splits) (metis call_access.simps(1) length_map list_update_id nth_map)
  then have ok: "accesses_ok d (map call_access (cn_calls s))" using run.prems by simp
  obtain s2 where "conc_run k g i s = Inr (Some s2)" "conc_inv k g d h gs s2"
    by (rule conc_run_ok [OF k run.IH [OF ok] fits ok i])
  with run.hyps(2) show ?case by simp
qed

section \<open>Reads with an old size\<close>

lemma stale_read:
  assumes "kernel_ok k" and "dev_inv h d gs" and rng: "in_range d pos count" and sh: "same_shape d0 d" and sz: "0 \<le> dsize d0" "dsize d0 \<le> dsize d"
  obtains r r' where "scull_read k False d0 d h count pos = Inr r" and "scull_read k False d d h count pos = Inr r'"
    and "pos \<le> dsize d0 \<Longrightarrow> out r = take (nat (dsize d0 - pos)) (out r')"
    and "dsize d0 < pos \<Longrightarrow> pos < dsize d \<Longrightarrow> out r' = take (nat (dsize d - pos)) (out r)"
    and "dsize d0 < pos \<Longrightarrow> pos < dsize d \<Longrightarrow> blk_at d gs (nat pos) \<noteq> NULL \<Longrightarrow> length (out r) = chunk d (nat pos) count"
proof -
  have q: "quantum d0 = quantum d" "qset d0 = qset d" using sh by (simp_all add: same_shape_def)
  obtain r gs1 where r: "scull_read k False d0 d h count pos = Inr r" "read_upto (u64 (s64 (dsize d0 - pos))) k d gs h count pos r gs1"
    by (rule scull_read_stale [OF assms(1-3) q])
  obtain r' gs2 where r': "scull_read k False d d h count pos = Inr r'" "read_outcome k d gs h count pos r' gs2"
    by (rule scull_read_cases [OF assms(1-3)])
  have b: "0 \<le> pos" "pos + int count < 2 ^ 63" "dsize d < 2 ^ 63" using rng by (simp_all add: in_range_def)
  have lim: "u64 (s64 (dsize d0 - pos)) = nat (dsize d0 - pos)" if "pos \<le> dsize d0"
    using that b sz by (simp add: s64_id u64_id)
  have big: "count \<le> u64 (s64 (dsize d0 - pos))" if "dsize d0 < pos"
  proof -
    have "s64 (dsize d0 - pos) = dsize d0 - pos" using that b sz by (intro s64_id) simp_all
    moreover have "(dsize d0 - pos) mod 2 ^ 64 = dsize d0 - pos + 2 ^ 64" using that b sz by (subst mod_add_self2 [symmetric], intro mod_pos_pos_trivial) simp_all
    ultimately show ?thesis using b sz by (simp add: u64_def)
  qed
  have c: "chunk d p count \<le> count" for p by (simp add: chunk_def)
  show thesis
  proof (cases "dsize d \<le> pos \<or> blk_at d gs (nat pos) = NULL")
    case True
    then have "out r = [] \<and> out r' = []" using r(2) r'(2) by (simp add: read_upto_def read_outcome_def)
    with r(1) r'(1) True show thesis by (intro that [of r r']) auto
  next
    case False
    have o: "out r = map (byte_at h d gs) [nat pos ..< nat pos + min (chunk d (nat pos) count) (u64 (s64 (dsize d0 - pos)))]"
      "out r' = map (byte_at h d gs) [nat pos ..< nat pos + min (chunk d (nat pos) count) (nat (dsize d - pos))]"
      using r(2) r'(2) False by (simp_all add: read_upto_def read_outcome_def Let_def)
    show thesis
    proof (rule that [OF r(1) r'(1)])
      show "out r = take (nat (dsize d0 - pos)) (out r')" if "pos \<le> dsize d0"
        using that sz b False by (simp add: o lim take_map take_upt min_def)
      show "length (out r) = chunk d (nat pos) count" if "dsize d0 < pos"
        using big [OF that] c [of "nat pos"] by (simp add: o)
      show "out r' = take (nat (dsize d - pos)) (out r)" if "dsize d0 < pos"
        using big [OF that] c [of "nat pos"] by (simp add: o take_map take_upt min_def)
    qed
  qed
qed

section \<open>Properties\<close>

text \<open>What a call that has waited does: a write what it would do with a fresh look at the device, a read within the limit it took.\<close>

fun late_outcome :: "kernel \<Rightarrow> scull_globals \<Rightarrow> gnode list \<Rightarrow> access \<Rightarrow> scull_dev \<Rightarrow> scull_dev \<Rightarrow> heap \<Rightarrow> bool" where
  "late_outcome k g gs (Wr intr ubuf count pos) d0 d h \<longleftrightarrow>
     scull_write k g intr d0 d h ubuf count pos = scull_write k g intr d d h ubuf count pos"
| "late_outcome k g gs (Rd intr count pos) d0 d h \<longleftrightarrow>
     (\<not> intr \<longrightarrow> (\<exists>r r'. scull_read k False d0 d h count pos = Inr r \<and> scull_read k False d d h count pos = Inr r' \<and>
        (pos \<le> dsize d0 \<longrightarrow> out r = take (nat (dsize d0 - pos)) (out r')) \<and>
        (dsize d0 < pos \<and> pos < dsize d \<longrightarrow> out r' = take (nat (dsize d - pos)) (out r) \<and>
          (blk_at d gs (nat pos) \<noteq> NULL \<longrightarrow> length (out r) = chunk d (nat pos) count))))"

lemma late_outcome_ok:
  assumes "kernel_ok k" and "dev_inv h d gs" and "in_range d (access_pos a) (access_count a)" and sh: "same_shape d0 d"
    and sz: "0 \<le> dsize d0" "dsize d0 \<le> dsize d"
  shows "late_outcome k g gs a d0 d h"
proof (cases a)
  case (Wr intr ubuf count pos)
  then show ?thesis using write_stale [OF sh] by simp
next
  case (Rd intr count pos)
  then have "in_range d pos count" using assms(3) by simp
  then obtain r r' where "scull_read k False d0 d h count pos = Inr r" "scull_read k False d d h count pos = Inr r'"
    "pos \<le> dsize d0 \<Longrightarrow> out r = take (nat (dsize d0 - pos)) (out r')"
    "dsize d0 < pos \<Longrightarrow> pos < dsize d \<Longrightarrow> out r' = take (nat (dsize d - pos)) (out r)"
    "dsize d0 < pos \<Longrightarrow> pos < dsize d \<Longrightarrow> blk_at d gs (nat pos) \<noteq> NULL \<Longrightarrow> length (out r) = chunk d (nat pos) count"
    by (rule stale_read [OF assms(1,2) _ sh sz]) blast
  then show ?thesis unfolding Rd late_outcome.simps by (intro impI exI [of _ r] exI [of _ r'] conjI) simp_all
qed

text \<open>
  C7. Concurrent reads and writes of a device take place one after the other. After any interleaving of any number of calls, none of which can
  fault, the device and the memory are those of a sequential run of the calls that have returned, in the order in which they had the semaphore; so the device is
  well-formed, and without its memory the heap is the one before. A write that has waited does what it would do with a fresh
  look at the parameters. A read that has waited delivers less than that: nothing beyond the size the device had when the
  read began. But where that size is below its position, the limit turns into a huge unsigned number:
  the read then delivers what is left of its block, beyond the size the device has.
\<close>

theorem scull_calls_serial:
  assumes "kernel_ok k" and "dev_inv h d gs" and "alloc_fits k g d" and "conc_reach k g (conc_start d h) s"
    and "accesses_ok d (map call_access (cn_calls s))"
  shows "run_accesses k g (cn_log s) (d, h) = Inr (cn_dev s, cn_heap s) \<and> sem (cn_dev s) = sem d \<and>
    (\<forall>a. count_list (cn_log s) a = count_list (finished_calls s) a) \<and>
    (\<exists>gs'. dev_inv (cn_heap s) (cn_dev s) gs' \<and> without (cn_heap s) gs' = without h gs \<and>
      (\<forall>i a d0. i < length (cn_calls s) \<and> cn_calls s ! i = Waiting a d0 \<longrightarrow>
        (\<exists>s'. conc_run k g i s = Inr (Some s')) \<and> late_outcome k g gs' a d0 (cn_dev s) (cn_heap s)))"
proof -
  have inv: "conc_inv k g d h gs s" by (rule conc_reach_inv [OF assms])
  then obtain gs' where gs': "dev_inv (cn_heap s) (cn_dev s) gs'" "framed h gs (cn_heap s) gs'" by (auto simp: conc_inv_def)
  have calls: "(\<exists>s'. conc_run k g i s = Inr (Some s')) \<and> late_outcome k g gs' a d0 (cn_dev s) (cn_heap s)"
    if i: "i < length (cn_calls s) \<and> cn_calls s ! i = Waiting a d0" for i a d0
  proof -
    have w: "Waiting a d0 \<in> set (cn_calls s)" using i by (metis nth_mem)
    then have "late_outcome k g gs' a d0 (cn_dev s) (cn_heap s)"
      using inv call_in_range [OF inv assms(5) w] by (intro late_outcome_ok [OF assms(1) gs'(1)]) (auto simp: conc_inv_def)
    moreover have "\<exists>s'. conc_run k g i s = Inr (Some s')" using i by (metis conc_run_ok [OF assms(1) inv assms(3,5)])
    ultimately show ?thesis by simp
  qed
  have "run_accesses k g (cn_log s) (d, h) = Inr (cn_dev s, cn_heap s)" "sem (cn_dev s) = sem d"
    "\<forall>a. count_list (cn_log s) a = count_list (finished_calls s) a" using inv by (simp_all add: conc_inv_def)
  with gs'(1) without_framed [OF gs'(2)] calls show ?thesis by blast
qed

text \<open>A read begins, a write runs, and the read sees nothing of what has been written behind the size it knows.\<close>

theorem scull_calls_serial_witness:
  "\<exists>s r. conc_run simple_kernel scull_globals_init 1 (conc_arrive (Wr False [7] 1 1) (conc_arrive (Rd False 2 4) (conc_start demo_dev demo_heap))) = Inr (Some s) \<and>
    conc_io simple_kernel scull_globals_init (Rd False 2 4) demo_dev (cn_dev s) (cn_heap s) = Inr r \<and> out r = []"
proof -
  let ?s = "conc_arrive (Wr False [7] 1 1) (conc_arrive (Rd False 2 4) (conc_start demo_dev demo_heap))"
  have 1: "conc_reach simple_kernel scull_globals_init (conc_start demo_dev demo_heap) ?s" by (intro conc_reach.arrive conc_reach.initial)
  have ok: "accesses_ok demo_dev (map call_access (cn_calls ?s))" by (simp add: conc_arrive_def conc_start_def accesses_ok_def demo_dev_def)
  have w: "1 < length (cn_calls ?s) \<and> cn_calls ?s ! 1 = Waiting (Wr False [7] 1 1) demo_dev" by (simp add: conc_arrive_def conc_start_def)
  obtain s where run: "conc_run simple_kernel scull_globals_init 1 ?s = Inr (Some s)"
    using scull_calls_serial [OF simple_kernel_ok demo_inv demo_fits 1 ok] w by blast
  have 2: "conc_reach simple_kernel scull_globals_init (conc_start demo_dev demo_heap) s" by (rule conc_reach.run [OF 1 run])
  have cs: "cn_calls s = [Waiting (Rd False 2 4) demo_dev, Returned (Wr False [7] 1 1) v bs]" if "cn_calls s ! 1 = Returned (Wr False [7] 1 1) v bs" for v bs
    using run that by (auto simp: conc_run_def conc_arrive_def conc_start_def bindE_def split: sum.splits)
  obtain v bs where "cn_calls s ! 1 = Returned (Wr False [7] 1 1) v bs"
    using run by (auto simp: conc_run_def conc_arrive_def conc_start_def bindE_def split: sum.splits)
  note cs = cs [OF this]
  have "accesses_ok demo_dev (map call_access (cn_calls s))" using ok by (simp add: cs conc_arrive_def conc_start_def)
  moreover have "0 < length (cn_calls s) \<and> cn_calls s ! 0 = Waiting (Rd False 2 4) demo_dev" by (simp add: cs)
  ultimately obtain gs' where "late_outcome simple_kernel scull_globals_init gs' (Rd False 2 4) demo_dev (cn_dev s) (cn_heap s)"
    using scull_calls_serial [OF simple_kernel_ok demo_inv demo_fits 2] by blast
  with run show ?thesis by (auto simp: demo_dev_def)
qed

end
