(* ===== verification/Pipe_Calls.thy ===== *)
theory Pipe_Calls
  imports Scull_Pipe_Sys
begin

text \<open>
  Calls on a pipe that nobody else is using: the step functions of \<open>Scull_Pipe_Sys\<close> are run from the entry
  of \<open>scull_p_read\<close> or \<open>scull_p_write\<close> until the call returns or falls asleep. This connects the two models of the
  transfers, and shows for which flags of the file a call waits.
\<close>

unbundle bit_operations_syntax

section \<open>Running one call to its end\<close>

text \<open>Without other processes five steps are enough for either call; \<open>Running\<close> would say that they are not.\<close>

datatype 'r alone = Returned int 'r | Asleep 'r | Running

fun rd_alone ::
  "nat \<Rightarrow> kernel \<Rightarrow> 32 word \<Rightarrow> nat \<Rightarrow> rd_pc \<Rightarrow> byte list \<Rightarrow> scull_pipe \<Rightarrow> heap \<Rightarrow> (byte list \<times> scull_pipe) alone res" where
  "rd_alone fuel k fl n pc acc d h =
     (case pc of Rd_done v \<Rightarrow> Inr (Returned v (acc, d))
      | _ \<Rightarrow>
        (case fuel of 0 \<Rightarrow> Inr Running
         | Suc fuel' \<Rightarrow>
             bindE (rd_step k False fl n pc d h) (\<lambda>r.
               case r of None \<Rightarrow> Inr (Asleep (acc, d))
               | Some (pc', bs, d') \<Rightarrow> rd_alone fuel' k fl n pc' (acc @ bs) d' h)))"

fun wr_alone ::
  "nat \<Rightarrow> kernel \<Rightarrow> 32 word \<Rightarrow> byte list \<Rightarrow> nat \<Rightarrow> wr_pc \<Rightarrow> scull_pipe \<Rightarrow> heap \<Rightarrow> (scull_pipe \<times> heap) alone res" where
  "wr_alone fuel k fl u n pc d h =
     (case pc of Wr_done v \<Rightarrow> Inr (Returned v (d, h))
      | _ \<Rightarrow>
        (case fuel of 0 \<Rightarrow> Inr Running
         | Suc fuel' \<Rightarrow>
             bindE (wr_step k False fl u n pc d h) (\<lambda>r.
               case r of None \<Rightarrow> Inr (Asleep (d, h))
               | Some (pc', bs, d', h') \<Rightarrow> wr_alone fuel' k fl u n pc' d' h')))"

declare rd_alone.simps [simp del] wr_alone.simps [simp del]

definition read_call :: "kernel \<Rightarrow> 32 word \<Rightarrow> nat \<Rightarrow> scull_pipe \<Rightarrow> heap \<Rightarrow> (byte list \<times> scull_pipe) alone res" where
  "read_call k fl n d h = rd_alone 5 k fl n Rd_enter [] d h"

definition write_call :: "kernel \<Rightarrow> 32 word \<Rightarrow> byte list \<Rightarrow> nat \<Rightarrow> scull_pipe \<Rightarrow> heap \<Rightarrow> (scull_pipe \<times> heap) alone res" where
  "write_call k fl u n d h = wr_alone 5 k fl u n Wr_enter d h"

lemmas alone_simps = rd_alone.simps wr_alone.simps numeral_eq_Suc p_down_interruptible_def

section \<open>Reading\<close>

lemma read_call_ok:
  assumes ok: "pipe_ok h d" and sem: "0 < p_sem d"
  shows "read_call k fl n d h =
    (if pipe_bytes h d = [] \<and> fl \<noteq> O_NONBLOCK then Inr (Asleep ([], d))
     else bindE (p_read_nonblock k False n d h) (\<lambda>(v, bs, d'). Inr (Returned v (bs, d'))))"
proof (cases "pipe_bytes h d = []")
  case True
  then have "p_rp d = p_wp d" using pipe_empty [OF ok] by simp
  then show ?thesis using True sem
    by (simp add: read_call_def p_read_nonblock_def alone_simps rd_down_def rd_wait_event_def)
next
  case False
  then have "p_rp d \<noteq> p_wp d" using pipe_empty [OF ok] by simp
  then show ?thesis using False sem
    by (auto simp: read_call_def p_read_nonblock_def alone_simps rd_down_def bindE_def
        split: sum.splits)
qed

section \<open>Writing\<close>

lemma write_call_ok:
  assumes ok: "pipe_ok h d" and sem: "0 < p_sem d"
  shows "write_call k fl u n d h =
    (if length (pipe_bytes h d) = pipe_capacity d \<and> fl AND O_NONBLOCK = 0 then Inr (Asleep (d, h))
     else bindE (p_write_nonblock k False u n d h) (\<lambda>(v, d', h'). Inr (Returned v (d', h'))))"
proof (cases "length (pipe_bytes h d) = pipe_capacity d")
  case True
  then have "spacefree d = Inr 0" using spacefree_ok(2) [OF ok] by simp
  then show ?thesis using True sem
    by (simp add: write_call_def p_write_nonblock_def alone_simps wr_down_def)
next
  case False
  then have "\<exists>z. spacefree d = Inr z \<and> z \<noteq> 0" using spacefree_ok [OF ok] by simp
  then show ?thesis using False sem
    by (auto simp: write_call_def p_write_nonblock_def alone_simps wr_down_def bindE_def split: sum.splits)
qed

section \<open>Theorem\<close>

text \<open>
  C16. Two readings of the transfers agree: a call that has the pipe to itself, run step by step through
  \<open>scull_p_read\<close> or \<open>scull_p_write\<close> with its waits, either does what the non-blocking handler does or falls asleep with the pipe as it was.
  A writer falls asleep exactly on a full pipe, if its file does not have the flag \<open>O_NONBLOCK\<close>. A reader falls asleep
  exactly on an empty pipe, if the flags of its file are not exactly \<open>O_NONBLOCK\<close>: with any other flag beside it (\<open>O_RDWR\<close>, or
  \<open>O_LARGEFILE\<close>, which 64-bit kernels always set) the writer gets \<open>-EAGAIN\<close> and the reader waits.
\<close>

theorem pipe_calls_agree:
  assumes "pipe_ok h d" and "0 < p_sem d"
  shows "read_call k fl n d h =
      (if pipe_bytes h d = [] \<and> fl \<noteq> O_NONBLOCK then Inr (Asleep ([], d))
       else bindE (p_read_nonblock k False n d h) (\<lambda>(v, bs, d'). Inr (Returned v (bs, d')))) \<and>
    write_call k fl u n d h =
      (if length (pipe_bytes h d) = pipe_capacity d \<and> fl AND O_NONBLOCK = 0 then Inr (Asleep (d, h))
       else bindE (p_write_nonblock k False u n d h) (\<lambda>(v, d', h'). Inr (Returned v (d', h')))) \<and>
    (fl AND O_NONBLOCK \<noteq> 0 \<and> fl \<noteq> O_NONBLOCK \<longrightarrow>
      (pipe_bytes h d = [] \<longrightarrow> read_call k fl n d h = Inr (Asleep ([], d))) \<and>
      (length (pipe_bytes h d) = pipe_capacity d \<longrightarrow> write_call k fl u n d h = Inr (Returned (- EAGAIN) (d, h))))"
  using spacefree_ok(2) [OF assms(1)] by (simp add: read_call_ok [OF assms] write_call_ok [OF assms] p_write_nonblock_def)

theorem pipe_calls_agree_witness:
  "read_call simple_kernel 0x8800 9 (demo_pipe\<lparr>p_wp := 11\<rparr>) demo_pipe_heap = Inr (Asleep ([], demo_pipe\<lparr>p_wp := 11\<rparr>))"
proof -
  have "pipe_ok demo_pipe_heap (demo_pipe\<lparr>p_wp := 11\<rparr>)" "0 < p_sem (demo_pipe\<lparr>p_wp := 11\<rparr>)"
    "pipe_bytes demo_pipe_heap (demo_pipe\<lparr>p_wp := 11\<rparr>) = []"
    by (simp_all add: pipe_ok_def pipe_bytes_def ring_def demo_pipe_def demo_pipe_heap_def)
  then show ?thesis using pipe_calls_agree [of demo_pipe_heap "demo_pipe\<lparr>p_wp := 11\<rparr>" simple_kernel "0x8800" 9]
    by (simp add: O_NONBLOCK_def)
qed

end
