(* ===== verification/Scull_Files.thy ===== *)
theory Scull_Files
  imports Scull_System
begin

text \<open>
  All the memory devices of the module scull behind open files: the four plain devices, \<open>scull_single\<close>,
  \<open>scull_uid\<close>, \<open>scull_wuid\<close> and \<open>scull_copy\<close>. A process opens a device by its name and gets a file; reads and writes move the position of
  the file, and closing it lets the driver count the users of the device. The tables of file operations of
  \<^verbatim>\<open>main.c\<close> and \<^verbatim>\<open>access.c\<close> say which function answers.
\<close>

unbundle bit_operations_syntax

section \<open>State\<close>

text \<open>\<open>private_data\<close> of a file: a device of the array, one of the static devices, or the private copy of a terminal.\<close>

datatype target = T_scull nat | T_single | T_uid | T_wuid | T_item nat

record open_file =
  of_target :: target
  of_flags :: "32 word"
  of_pos :: int
  of_cred :: cred       \<comment> \<open>ghost: who opened it\<close>

record 'u fsys =
  fy_globals :: scull_globals
  fy_devs :: "scull_dev list"             \<comment> \<open>\<open>scull_devices\<close>\<close>
  fy_single :: scull_dev                  \<comment> \<open>\<open>scull_s_dev\<close>\<close>
  fy_uid :: gate                          \<comment> \<open>\<open>scull_u_dev\<close>, \<open>scull_u_count\<close>, \<open>scull_u_owner\<close>\<close>
  fy_wuid :: gate                         \<comment> \<open>\<open>scull_w_dev\<close>, \<open>scull_w_count\<close>, \<open>scull_w_owner\<close>\<close>
  fy_copy :: scull_dev                    \<comment> \<open>\<open>scull_c_dev\<close>\<close>
  fy_items :: "scull_listitem list"       \<comment> \<open>\<open>scull_c_list\<close>\<close>
  fy_heap :: heap
  fy_user :: 'u
  fy_files :: "open_file option list"     \<comment> \<open>by file descriptor; \<open>None\<close>: closed\<close>

fun get_dev :: "target \<Rightarrow> 'u fsys \<Rightarrow> scull_dev" where
  "get_dev (T_scull i) s = fy_devs s ! i"
| "get_dev T_single s = fy_single s"
| "get_dev T_uid s = acc_dev (fy_uid s)"
| "get_dev T_wuid s = acc_dev (fy_wuid s)"
| "get_dev (T_item key) s = (case find_item key (fy_items s) of None \<Rightarrow> fy_copy s | Some i \<Rightarrow> li_dev (fy_items s ! i))"

fun put_dev :: "target \<Rightarrow> scull_dev \<Rightarrow> 'u fsys \<Rightarrow> 'u fsys" where
  "put_dev (T_scull i) d s = s\<lparr>fy_devs := (fy_devs s)[i := d]\<rparr>"
| "put_dev T_single d s = s\<lparr>fy_single := d\<rparr>"
| "put_dev T_uid d s = s\<lparr>fy_uid := (fy_uid s)\<lparr>acc_dev := d\<rparr>\<rparr>"
| "put_dev T_wuid d s = s\<lparr>fy_wuid := (fy_wuid s)\<lparr>acc_dev := d\<rparr>\<rparr>"
| "put_dev (T_item key) d s = (case find_item key (fy_items s) of None \<Rightarrow> s\<lparr>fy_copy := d\<rparr>
     | Some i \<Rightarrow> s\<lparr>fy_items := (fy_items s)[i := (fy_items s ! i)\<lparr>li_dev := d\<rparr>]\<rparr>)"

section \<open>Opening and closing\<close>

text \<open>
  The process that opens: its credentials and its terminal. An open answers a negative error number, or 0 and
  what it has stored in \<open>private_data\<close>; \<open>None\<close>: it waits.
\<close>

record opener =
  op_cred :: cred
  op_tty :: "nat option"

type_synonym 'u open_fn = "kernel \<Rightarrow> opener \<Rightarrow> 32 word \<Rightarrow> 'u fsys \<Rightarrow> ((int \<times> target) \<times> 'u fsys) option res"

definition open_plain :: "nat \<Rightarrow> 'u open_fn" where
  "open_plain i k p fl s =
     bindE (scull_open (fy_globals s) fl (fy_devs s ! i) (fy_heap s)) (\<lambda>(v, d, h).
       Inr (Some ((v, T_scull i), s\<lparr>fy_devs := (fy_devs s)[i := d], fy_heap := h\<rparr>)))"

definition open_single :: "'u open_fn" where
  "open_single k p fl s =
     bindE (scull_s_open (fy_globals s) fl (fy_single s) (fy_heap s)) (\<lambda>(v, d, h).
       Inr (Some ((v, T_single), s\<lparr>fy_single := d, fy_heap := h\<rparr>)))"

definition open_uid :: "'u open_fn" where
  "open_uid k p fl s =
     bindE (scull_u_open (fy_globals s) (op_cred p) fl (fy_uid s) (fy_heap s)) (\<lambda>(v, g, h).
       Inr (Some ((v, T_uid), s\<lparr>fy_uid := g, fy_heap := h\<rparr>)))"

definition open_wuid :: "'u open_fn" where
  \<comment> \<open>the first pass of the loop; a caller that has to wait tries again later\<close>
  "open_wuid k p fl s =
     bindE (scull_w_step (fy_globals s) (op_cred p) fl False W_lock (fy_wuid s) (fy_heap s)) (\<lambda>r.
       case r of Some (W_ret v, g, h) \<Rightarrow> Inr (Some ((v, T_wuid), s\<lparr>fy_wuid := g, fy_heap := h\<rparr>)) | _ \<Rightarrow> Inr None)"

definition open_copy :: "'u open_fn" where
  "open_copy k p fl s =
     bindE (scull_c_open (fy_globals s) k (op_tty p) fl (fy_items s) (fy_heap s)) (\<lambda>(v, oi, items, h).
       Inr (Some ((v, T_item (case op_tty p of None \<Rightarrow> 0 | Some key \<Rightarrow> key)), s\<lparr>fy_items := items, fy_heap := h\<rparr>)))"

section \<open>The tables\<close>

record 'u dev_fops =
  df_seeks :: bool
  df_read :: "kernel \<Rightarrow> bool \<Rightarrow> scull_dev \<Rightarrow> scull_dev \<Rightarrow> heap \<Rightarrow> nat \<Rightarrow> int \<Rightarrow> io_result res"
  df_write :: "kernel \<Rightarrow> scull_globals \<Rightarrow> bool \<Rightarrow> scull_dev \<Rightarrow> scull_dev \<Rightarrow> heap \<Rightarrow> byte list \<Rightarrow> nat \<Rightarrow> int \<Rightarrow> io_result res"
  df_ioctl :: "'u uaccess \<Rightarrow> bool \<Rightarrow> 32 word \<Rightarrow> 64 word \<Rightarrow> scull_globals \<Rightarrow> 'u \<Rightarrow> int \<times> scull_globals \<times> 'u"
  df_open :: "'u open_fn"
  df_release :: "'u fsys \<Rightarrow> int \<times> 'u fsys"

definition plain_fops :: "nat \<Rightarrow> 'u dev_fops" where
  "plain_fops i = \<lparr>df_seeks = False, df_read = scull_read, df_write = scull_write, df_ioctl = scull_ioctl,
     df_open = open_plain i, df_release = (\<lambda>s. (scull_release, s))\<rparr>"

definition scull_s_fops :: "'u dev_fops" where
  "scull_s_fops = \<lparr>df_seeks = False, df_read = scull_read, df_write = scull_write, df_ioctl = scull_ioctl,
     df_open = open_single, df_release = (\<lambda>s. (scull_s_release, s))\<rparr>"

definition scull_u_fops :: "'u dev_fops" where
  "scull_u_fops = \<lparr>df_seeks = False, df_read = scull_read, df_write = scull_write, df_ioctl = scull_ioctl,
     df_open = open_uid, df_release = (\<lambda>s. (0, s\<lparr>fy_uid := scull_u_release (fy_uid s)\<rparr>))\<rparr>"

definition scull_w_fops :: "'u dev_fops" where
  "scull_w_fops = \<lparr>df_seeks = False, df_read = scull_read, df_write = scull_write, df_ioctl = scull_ioctl,
     df_open = open_wuid, df_release = (\<lambda>s. (0, s\<lparr>fy_wuid := fst (scull_w_release (fy_wuid s))\<rparr>))\<rparr>"

definition scull_c_fops :: "'u dev_fops" where
  "scull_c_fops = \<lparr>df_seeks = False, df_read = scull_read, df_write = scull_write, df_ioctl = scull_ioctl,
     df_open = open_copy, df_release = (\<lambda>s. (scull_c_release, s))\<rparr>"

datatype dev_name = Scull nat | Scull_single | Scull_uid | Scull_wuid | Scull_copy

fun adev_fops :: "dev_name \<Rightarrow> 'u dev_fops" where
  \<comment> \<open>which table a name leads to: \<open>scull_setup_cdev\<close>, and \<open>scull_access_setup_cdev\<close> over \<open>scull_adev_infos\<close>\<close>
  "adev_fops (Scull i) = plain_fops i"
| "adev_fops Scull_single = scull_s_fops"
| "adev_fops Scull_uid = scull_u_fops"
| "adev_fops Scull_wuid = scull_w_fops"
| "adev_fops Scull_copy = scull_c_fops"

fun target_fops :: "target \<Rightarrow> 'u dev_fops" where
  \<comment> \<open>\<open>f_op\<close> of a file\<close>
  "target_fops (T_scull i) = plain_fops i"
| "target_fops T_single = scull_s_fops"
| "target_fops T_uid = scull_u_fops"
| "target_fops T_wuid = scull_w_fops"
| "target_fops (T_item key) = scull_c_fops"

section \<open>System calls\<close>

definition EBADF :: int where "EBADF = 9"

definition can_read :: "32 word \<Rightarrow> bool" where "can_read fl \<longleftrightarrow> fl AND O_ACCMODE = 0 \<or> fl AND O_ACCMODE = 2"
definition can_write :: "32 word \<Rightarrow> bool" where "can_write fl \<longleftrightarrow> fl AND O_ACCMODE = 1 \<or> fl AND O_ACCMODE = 2"

datatype fcall =
    F_open dev_name opener "32 word"
  | F_read nat bool nat                     \<comment> \<open>file, interrupted, count\<close>
  | F_write nat bool "byte list" nat
  | F_ioctl nat bool "32 word" "64 word"    \<comment> \<open>file, capability, command, argument\<close>
  | F_seek nat
  | F_close nat

definition lookup_file :: "nat \<Rightarrow> 'u fsys \<Rightarrow> open_file option" where
  "lookup_file fd s = (if fd < length (fy_files s) then fy_files s ! fd else None)"

definition new_file :: "target \<Rightarrow> 32 word \<Rightarrow> cred \<Rightarrow> open_file" where
  "new_file t fl c = \<lparr>of_target = t, of_flags = fl, of_pos = 0, of_cred = c\<rparr>"

definition fs_open :: "kernel \<Rightarrow> dev_name \<Rightarrow> opener \<Rightarrow> 32 word \<Rightarrow> 'u fsys \<Rightarrow> (int \<times> 'u fsys) option res" where
  "fs_open k name p fl s = bindE (df_open (adev_fops name) k p fl s) (\<lambda>r.
     case r of None \<Rightarrow> Inr None
     | Some ((v, t), s1) \<Rightarrow>
         if v < 0 then Inr (Some (v, s1))
         else Inr (Some (int (length (fy_files s1)),
                s1\<lparr>fy_files := fy_files s1 @ [Some (new_file t fl (op_cred p))]\<rparr>)))"

definition store_io :: "nat \<Rightarrow> open_file \<Rightarrow> io_result \<Rightarrow> 'u fsys \<Rightarrow> 'u fsys" where
  "store_io fd f r s =
     (put_dev (of_target f) (dev' r) s)\<lparr>fy_heap := heap' r, fy_files := (fy_files s)[fd := Some (f\<lparr>of_pos := pos' r\<rparr>)]\<rparr>"

definition fs_read :: "kernel \<Rightarrow> nat \<Rightarrow> bool \<Rightarrow> nat \<Rightarrow> 'u fsys \<Rightarrow> (int \<times> byte list \<times> 'u fsys) res" where
  "fs_read k fd intr count s =
     (case lookup_file fd s of None \<Rightarrow> Inr (- EBADF, [], s)
      | Some f \<Rightarrow>
          if \<not> can_read (of_flags f) then Inr (- EBADF, [], s)
          else let d = get_dev (of_target f) s in
            bindE (df_read (target_fops (of_target f) :: 'u dev_fops) k intr d d (fy_heap s) count (of_pos f)) (\<lambda>r.
              Inr (ret r, out r, store_io fd f r s)))"

definition fs_write :: "kernel \<Rightarrow> nat \<Rightarrow> bool \<Rightarrow> byte list \<Rightarrow> nat \<Rightarrow> 'u fsys \<Rightarrow> (int \<times> 'u fsys) res" where
  "fs_write k fd intr ubuf count s =
     (case lookup_file fd s of None \<Rightarrow> Inr (- EBADF, s)
      | Some f \<Rightarrow>
          if \<not> can_write (of_flags f) then Inr (- EBADF, s)
          else let d = get_dev (of_target f) s in
            bindE (df_write (target_fops (of_target f) :: 'u dev_fops) k (fy_globals s) intr d d (fy_heap s) ubuf count (of_pos f)) (\<lambda>r.
              Inr (ret r, store_io fd f r s)))"

definition fs_ioctl :: "'u uaccess \<Rightarrow> nat \<Rightarrow> bool \<Rightarrow> 32 word \<Rightarrow> 64 word \<Rightarrow> 'u fsys \<Rightarrow> int \<times> 'u fsys" where
  "fs_ioctl a fd cap cmd arg s =
     (case lookup_file fd s of None \<Rightarrow> (- EBADF, s)
      | Some f \<Rightarrow> (case df_ioctl (target_fops (of_target f)) a cap cmd arg (fy_globals s) (fy_user s) of
           (v, g, u) \<Rightarrow> (v, s\<lparr>fy_globals := g, fy_user := u\<rparr>)))"

definition fs_seek :: "nat \<Rightarrow> 'u fsys \<Rightarrow> int" where
  "fs_seek fd s = (case lookup_file fd s of None \<Rightarrow> - EBADF
     | Some f \<Rightarrow> if df_seeks (target_fops (of_target f) :: 'u dev_fops) then of_pos f else - ESPIPE)"

definition fs_close :: "nat \<Rightarrow> 'u fsys \<Rightarrow> int \<times> 'u fsys" where
  "fs_close fd s =
     (case lookup_file fd s of None \<Rightarrow> (- EBADF, s)
      | Some f \<Rightarrow> (case df_release (target_fops (of_target f)) s of (v, s1) \<Rightarrow> (v, s1\<lparr>fy_files := (fy_files s1)[fd := None]\<rparr>)))"

fun fs_call :: "kernel \<Rightarrow> 'u uaccess \<Rightarrow> fcall \<Rightarrow> 'u fsys \<Rightarrow> (int option \<times> 'u fsys) res" where
  \<comment> \<open>the result is \<open>None\<close> for an open that waits\<close>
  "fs_call k a (F_open name p fl) s = bindE (fs_open k name p fl s) (\<lambda>r. case r of None \<Rightarrow> Inr (None, s) | Some (v, s1) \<Rightarrow> Inr (Some v, s1))"
| "fs_call k a (F_read fd intr count) s = bindE (fs_read k fd intr count s) (\<lambda>(v, bs, s1). Inr (Some v, s1))"
| "fs_call k a (F_write fd intr ubuf count) s = bindE (fs_write k fd intr ubuf count s) (\<lambda>(v, s1). Inr (Some v, s1))"
| "fs_call k a (F_ioctl fd cap cmd arg) s = (case fs_ioctl a fd cap cmd arg s of (v, s1) \<Rightarrow> Inr (Some v, s1))"
| "fs_call k a (F_seek fd) s = Inr (Some (fs_seek fd s), s)"
| "fs_call k a (F_close fd) s = (case fs_close fd s of (v, s1) \<Rightarrow> Inr (Some v, s1))"

fun run_fs :: "kernel \<Rightarrow> 'u uaccess \<Rightarrow> fcall list \<Rightarrow> 'u fsys \<Rightarrow> (int option list \<times> 'u fsys) res" where
  "run_fs k a [] s = Inr ([], s)"
| "run_fs k a (c # cs) s = bindE (fs_call k a c s) (\<lambda>(v, s1). bindE (run_fs k a cs s1) (\<lambda>(vs, s2). Inr (v # vs, s2)))"

section \<open>The devices as one list\<close>

definition fs_devs :: "'u fsys \<Rightarrow> scull_dev list" where
  "fs_devs s = fy_devs s @ [fy_single s, acc_dev (fy_uid s), acc_dev (fy_wuid s), fy_copy s] @ map li_dev (fy_items s)"

definition flat :: "'u fsys \<Rightarrow> 'u sys" where
  "flat s = \<lparr>sy_globals = fy_globals s, sy_devs = fs_devs s, sy_heap = fy_heap s, sy_user = fy_user s\<rparr>"

fun tix :: "target \<Rightarrow> 'u fsys \<Rightarrow> nat" where
  "tix (T_scull i) s = i"
| "tix T_single s = 4"
| "tix T_uid s = 5"
| "tix T_wuid s = 6"
| "tix (T_item key) s = 8 + the (find_item key (fy_items s))"

fun target_ok :: "'u fsys \<Rightarrow> target \<Rightarrow> bool" where
  "target_ok s (T_scull i) \<longleftrightarrow> i < 4"
| "target_ok s (T_item key) \<longleftrightarrow> key \<in> li_key ` set (fy_items s)"
| "target_ok s t \<longleftrightarrow> True"

lemma flat_simps [simp]:
  "sy_globals (flat s) = fy_globals s" "sy_devs (flat s) = fs_devs s" "sy_heap (flat s) = fy_heap s" "sy_user (flat s) = fy_user s"
  by (simp_all add: flat_def)

lemma nth_statics:
  assumes "length ds = 4"
  shows "(ds @ [a, b, c, e] @ is) ! 4 = a" "(ds @ [a, b, c, e] @ is) ! 5 = b" "(ds @ [a, b, c, e] @ is) ! 6 = c" "(ds @ [a, b, c, e] @ is) ! (8 + j) = is ! j"
    "(ds @ [a, b, c, e] @ is)[4 := x] = ds @ [x, b, c, e] @ is" "(ds @ [a, b, c, e] @ is)[5 := x] = ds @ [a, x, c, e] @ is"
    "(ds @ [a, b, c, e] @ is)[6 := x] = ds @ [a, b, x, e] @ is" "(ds @ [a, b, c, e] @ is)[8 + j := x] = ds @ [a, b, c, e] @ is[j := x]"
  using assms by (simp_all add: nth_append list_update_append numeral_eq_Suc)

lemma find_item_ok: "key \<in> li_key ` set items \<Longrightarrow> \<exists>i. find_item key items = Some i \<and> i < length items \<and> li_key (items ! i) = key"
  using find_item_None [of key items] find_item_Some [of key items] by fastforce

lemma dev_at:
  assumes "length (fy_devs s) = 4" and "target_ok s t"
  shows "tix t s < length (fs_devs s)" and "fs_devs s ! tix t s = get_dev t s" and "fs_devs (put_dev t d s) = (fs_devs s)[tix t s := d]"
  using assms find_item_ok [of _ "fy_items s"]
  by (cases t; fastforce simp: fs_devs_def nth_statics nth_append list_update_append map_update)+

lemma put_dev_rest [simp]:
  "fy_globals (put_dev t d s) = fy_globals s" "fy_heap (put_dev t d s) = fy_heap s" "fy_user (put_dev t d s) = fy_user s"
  "fy_files (put_dev t d s) = fy_files s" "length (fy_devs (put_dev t d s)) = length (fy_devs s)"
  "map li_key (fy_items (put_dev t d s)) = map li_key (fy_items s)" "map li_addr (fy_items (put_dev t d s)) = map li_addr (fy_items s)"
  "acc_count (fy_uid (put_dev t d s)) = acc_count (fy_uid s)" "acc_owner (fy_uid (put_dev t d s)) = acc_owner (fy_uid s)"
  "acc_count (fy_wuid (put_dev t d s)) = acc_count (fy_wuid s)" "acc_owner (fy_wuid (put_dev t d s)) = acc_owner (fy_wuid s)"
  by (cases t; auto simp: map_update split: option.splits; metis list_update_id nth_map find_item_Some)+

section \<open>Open files\<close>

definition open_files :: "'f option list \<Rightarrow> 'f list" where
  "open_files fs = map the (filter (\<lambda>x. x \<noteq> None) fs)"

definition users :: "target \<Rightarrow> open_file option list \<Rightarrow> open_file list" where
  "users t fs = filter (\<lambda>f. of_target f = t) (open_files fs)"

lemma open_files_simps [simp]:
  "open_files [] = []" "open_files (fs @ gs) = open_files fs @ open_files gs" "open_files [Some f] = [f]"
  "open_files (Some f # fs) = f # open_files fs" "open_files (None # fs) = open_files fs"
  by (simp_all add: open_files_def)

lemma open_files_split:
  assumes "i < length fs" and "fs ! i = Some f"
  obtains as bs where "open_files fs = as @ f # bs" and "\<And>f'. open_files (fs[i := Some f']) = as @ f' # bs" and "open_files (fs[i := None]) = as @ bs"
proof -
  let ?as = "open_files (take i fs)" and ?bs = "open_files (drop (Suc i) fs)"
  have "open_files fs = ?as @ f # ?bs" by (subst id_take_nth_drop [OF assms(1)]) (simp add: assms(2))
  moreover have "open_files (fs[i := x]) = ?as @ open_files [x] @ ?bs" for x
    using assms(1) by (cases x) (simp_all add: upd_conv_take_nth_drop)
  ultimately show thesis by (intro that [of ?as ?bs]) simp_all
qed

lemma file_split:
  assumes "lookup_file fd s = Some f"
  obtains as bs where "open_files (fy_files s) = as @ f # bs" and "\<And>f'. open_files ((fy_files s)[fd := Some f']) = as @ f' # bs"
    and "open_files ((fy_files s)[fd := None]) = as @ bs"
  using assms open_files_split [of fd "fy_files s" f] by (auto simp: lookup_file_def split: if_splits)

lemma lookup_open: "lookup_file fd s = Some f \<Longrightarrow> f \<in> set (open_files (fy_files s))"
  by (erule file_split) simp

section \<open>The invariant\<close>

definition gate_inv :: "gate \<Rightarrow> open_file list \<Rightarrow> bool" where
  \<comment> \<open>the counter counts the open files, and all were opened by users who may share with the owner\<close>
  "gate_inv g us \<longleftrightarrow> acc_count g = int (length us) \<and> list_all (\<lambda>f. may_share (of_cred f) (acc_owner g)) us"

fun item_blocks :: "kernel \<Rightarrow> scull_listitem list \<Rightarrow> heap \<Rightarrow> heap" where
  "item_blocks k [] h = h"
| "item_blocks k (x # xs) h = item_block k (li_addr x) (item_blocks k xs h)"

definition items_apart :: "scull_listitem list \<Rightarrow> heap \<Rightarrow> bool" where
  \<comment> \<open>each item has a block of its own outside of \<open>h\<close>\<close>
  "items_apart xs h \<longleftrightarrow> distinct (map li_addr xs) \<and> NULL \<notin> li_addr ` set xs \<and> li_addr ` set xs \<inter> allocated h = {}"

definition fs_inv :: "kernel \<Rightarrow> heap \<Rightarrow> nat \<Rightarrow> 'u fsys \<Rightarrow> bool" where
  \<comment> \<open>\<open>n\<close> bytes were asked for so far; without the devices the heap is \<open>h0\<close>\<close>
  "fs_inv k h0 n s \<longleftrightarrow>
     mod_inv M_scull k 0 h0 n (flat s) \<and> length (fy_devs s) = 4 \<and> distinct (map li_key (fy_items s)) \<and>
     gate_inv (fy_uid s) (users T_uid (fy_files s)) \<and> gate_inv (fy_wuid s) (users T_wuid (fy_files s)) \<and>
     list_all (\<lambda>f. target_ok s (of_target f) \<and> 0 \<le> of_pos f \<and> of_pos f \<le> int n) (open_files (fy_files s))"

lemma fs_invD:
  assumes "fs_inv k h0 n s"
  shows "mod_inv M_scull k 0 h0 n (flat s)" and "length (fy_devs s) = 4" and "distinct (map li_key (fy_items s))"
    and "gate_inv (fy_uid s) (users T_uid (fy_files s))" and "gate_inv (fy_wuid s) (users T_wuid (fy_files s))"
    and "lookup_file fd s = Some f \<Longrightarrow> target_ok s (of_target f) \<and> 0 \<le> of_pos f \<and> of_pos f \<le> int n"
  using assms lookup_open [of fd s f] by (auto simp: fs_inv_def list_all_iff)

lemma target_ok_cong: "li_key ` set (fy_items s') = li_key ` set (fy_items s) \<Longrightarrow> target_ok s' t = target_ok s t"
  by (cases t) simp_all

lemma put_dev_keys: "li_key ` set (fy_items (put_dev t d s)) = li_key ` set (fy_items s)"
  by (metis list.set_map put_dev_rest(6))

lemma flat_put_dev:
  assumes "length (fy_devs s) = 4" and "target_ok s t"
  shows "flat ((put_dev t d s)\<lparr>fy_heap := h, fy_files := fs\<rparr>) = (flat s)\<lparr>sy_devs := (sy_devs (flat s))[tix t s := d], sy_heap := h\<rparr>"
proof -
  have "fs_devs ((put_dev t d s)\<lparr>fy_heap := h, fy_files := fs\<rparr>) = fs_devs (put_dev t d s)" by (simp add: fs_devs_def)
  with dev_at(3) [OF assms] show ?thesis by (simp add: flat_def)
qed

text \<open>The list items, and what the heap is without the devices and without them.\<close>

definition same_items :: "'u fsys \<Rightarrow> 'u fsys \<Rightarrow> bool" where
  "same_items s s' \<longleftrightarrow> map li_addr (fy_items s') = map li_addr (fy_items s)"

definition files_inv :: "kernel \<Rightarrow> heap \<Rightarrow> nat \<Rightarrow> 'u fsys \<Rightarrow> bool" where
  "files_inv k h0 n s \<longleftrightarrow> fs_inv k (item_blocks k (fy_items s) h0) n s \<and> items_apart (fy_items s) h0"

lemma item_blocks_cong: "map li_addr xs = map li_addr ys \<Longrightarrow> item_blocks k xs h = item_blocks k ys h"
proof (induction xs arbitrary: ys)
  case (Cons x xs)
  then obtain y ys' where ys: "ys = y # ys'" "li_addr y = li_addr x" "map li_addr xs = map li_addr ys'" by (auto simp: Cons_eq_map_conv)
  from Cons.IH [OF ys(3)] ys(1,2) show ?case by simp
qed simp

lemma files_inv_kept:
  assumes "files_inv k h0 n s" and "same_items s s'" and "\<And>h. fs_inv k h n s \<Longrightarrow> fs_inv k h n' s'"
  shows "files_inv k h0 n' s'"
proof -
  have "li_addr ` set (fy_items s') = li_addr ` set (fy_items s)" using assms(2) by (metis list.set_map same_items_def)
  then show ?thesis using assms item_blocks_cong [of "fy_items s'" "fy_items s" k h0] by (simp add: files_inv_def items_apart_def same_items_def)
qed

lemma allocated_item_block: "allocated (item_block k p h) = insert p (allocated h)"
  by (auto simp: allocated_def item_block_def)

lemma allocated_item_blocks: "allocated (item_blocks k xs h) = li_addr ` set xs \<union> allocated h"
  by (induction xs) (auto simp: allocated_item_block)

lemma allocated_without: "allocated (without h gs) \<subseteq> allocated h"
  by (auto simp: allocated_def without_def)

section \<open>Reading and writing\<close>

definition moved :: "int \<Rightarrow> nat \<Rightarrow> int \<Rightarrow> bool" where
  "moved pos count q \<longleftrightarrow> q = pos \<or> (\<exists>c \<le> count. q = s64 (pos + int c))"

lemma movedI: "moved pos count pos" "c \<le> count \<Longrightarrow> moved pos count (s64 (pos + int c))"
  by (auto simp: moved_def)

lemma read_block_pos: "read_block k left quant q_pos count pos blk d h = Inr r \<Longrightarrow> moved pos count (pos' r)"
  by (auto simp: read_block_def Let_def split: if_splits intro!: movedI)

lemma write_block_pos: "write_block k q_pos ubuf count pos blk d h = Inr r \<Longrightarrow> moved pos count (pos' r)"
  by (cases "copy_from_user k ubuf (if count > u64 (quantum d - q_pos) then u64 (quantum d - q_pos) else count)")
    (auto simp: write_block_def Let_def split: if_splits intro!: movedI)

lemma read_pos: "scull_read k intr d d h count pos = Inr r \<Longrightarrow> moved pos count (pos' r)"
  by (auto simp: scull_read_def Let_def split: if_splits intro: movedI dest: read_block_pos)

lemma write_pos: "scull_write k g intr d d h ubuf count pos = Inr r \<Longrightarrow> moved pos count (pos' r)"
  by (auto simp: scull_write_def Let_def split: if_splits intro: movedI dest: write_block_pos)

text \<open>A transfer on an open file, whose result is \<open>r\<close>.\<close>

lemma store_io_inv:
  assumes inv: "fs_inv k h0 n s" and f: "lookup_file fd s = Some f"
    and mod: "mod_inv M_scull k 0 h0 (n + count) ((flat s)\<lparr>sy_devs := (sy_devs (flat s))[tix (of_target f) s := dev' r], sy_heap := heap' r\<rparr>)"
    and pos: "moved (of_pos f) count (pos' r)" and b: "n + count < 2 ^ 31"
  shows "fs_inv k h0 (n + count) (store_io fd f r s)"
proof -
  note D = fs_invD [OF inv] and F = fs_invD(6) [OF inv f]
  let ?f = "f\<lparr>of_pos := pos' r\<rparr>"
  obtain as bs where sp: "open_files (fy_files s) = as @ f # bs" "open_files ((fy_files s)[fd := Some ?f]) = as @ ?f # bs"
    by (rule file_split [OF f]) blast
  have us: "length (users t ((fy_files s)[fd := Some ?f])) = length (users t (fy_files s))"
    "list_all (\<lambda>f. may_share (of_cred f) w) (users t ((fy_files s)[fd := Some ?f])) = list_all (\<lambda>f. may_share (of_cred f) w) (users t (fy_files s))" for t w
    by (simp_all add: users_def sp)
  have g: "gate_inv (fy_uid (put_dev t d s)) (users t' ((fy_files s)[fd := Some ?f])) = gate_inv (fy_uid s) (users t' (fy_files s))"
    "gate_inv (fy_wuid (put_dev t d s)) (users t' ((fy_files s)[fd := Some ?f])) = gate_inv (fy_wuid s) (users t' (fy_files s))" for t t' d
    by (simp_all add: gate_inv_def us)
  have p: "0 \<le> pos' r \<and> pos' r \<le> int (n + count)"
  proof -
    have "int (n + count) < 2 ^ 31" using b by (simp flip: of_nat_add)
    then show ?thesis using pos F by (auto simp: moved_def s64_id)
  qed
  have "list_all (\<lambda>f. target_ok s (of_target f) \<and> 0 \<le> of_pos f \<and> of_pos f \<le> int n) (as @ f # bs)"
    using inv by (simp add: fs_inv_def sp)
  then have "list_all (\<lambda>f. target_ok s (of_target f) \<and> 0 \<le> of_pos f \<and> of_pos f \<le> int (n + count)) (as @ ?f # bs)"
    using p by (auto simp: list_all_iff intro: order_trans)
  moreover have "target_ok (store_io fd f r s) = target_ok s"
    by (rule ext, rule target_ok_cong) (simp add: store_io_def put_dev_keys)
  ultimately show ?thesis
    using D(2-5) mod g flat_put_dev [OF D(2), of "of_target f"] F by (simp add: fs_inv_def store_io_def sp(2))
qed

lemma fs_inv_mono:
  assumes "fs_inv k h0 n s" and "n \<le> n'"
  shows "fs_inv k h0 n' s"
proof -
  have "dev_of M_scull 0 n' d" if "dev_of M_scull 0 n d" for d using that assms(2) by (auto simp: dev_of_def)
  then have "mod_inv M_scull k 0 h0 n' (flat s)" using fs_invD(1) [OF assms(1)] by (auto simp: mod_inv_def list_all_iff)
  moreover have "int n \<le> int n'" using assms(2) by simp
  ultimately show ?thesis using assms(1) by (auto simp: fs_inv_def list_all_iff intro: order_trans)
qed

lemma target_io: "df_read (target_fops t) = scull_read" "df_write (target_fops t) = scull_write" "df_ioctl (target_fops t) = scull_ioctl" "\<not> df_seeks (target_fops t)"
  by (cases t; simp add: plain_fops_def scull_s_fops_def scull_u_fops_def scull_w_fops_def scull_c_fops_def)+

lemma same_items_store_io [simp]: "same_items s (store_io fd f r s)"
  by (simp add: same_items_def store_io_def)

lemma length_store_io [simp]: "length (fy_files (store_io fd f r s)) = length (fy_files s)"
  by (simp add: store_io_def)

lemma fs_read_ok:
  assumes k: "kernel_ok k" and inv: "fs_inv k h0 n s" and b: "n + count < 2 ^ 31"
  shows "\<exists>v bs s'. fs_read k fd intr count s = Inr (v, bs, s') \<and> fs_inv k h0 (n + count) s' \<and> length (fy_files s') = length (fy_files s) \<and> same_items s s'"
proof (cases "\<exists>f. lookup_file fd s = Some f \<and> can_read (of_flags f)")
  case False
  then show ?thesis using fs_inv_mono [OF inv, of "n + count"] by (auto simp: fs_read_def same_items_def split: option.splits)
next
  case True
  then obtain f where f: "lookup_file fd s = Some f" "can_read (of_flags f)" by blast
  note D = fs_invD [OF inv] and F = fs_invD(6) [OF inv f(1)]
  note at = dev_at [OF D(2), of "of_target f"]
  have pos: "0 \<le> of_pos f" "of_pos f < 2 ^ 31" using F b by auto
  obtain d' h' where st: "access_step k (fy_globals s) (Rd intr count (of_pos f)) (get_dev (of_target f) s, fy_heap s) = Inr (d', h')"
    and m: "mod_inv M_scull k 0 h0 (n + count) ((flat s)\<lparr>sy_devs := (sy_devs (flat s))[tix (of_target f) s := d'], sy_heap := h'\<rparr>)"
    by (rule sys_access [OF k D(1), of "tix (of_target f) s" "Rd intr count (of_pos f)"]) (use at F pos b in auto)
  then obtain r where r: "scull_read k intr (get_dev (of_target f) s) (get_dev (of_target f) s) (fy_heap s) count (of_pos f) = Inr r"
    "d' = dev' r" "h' = heap' r" by auto
  have "fs_inv k h0 (n + count) (store_io fd f r s)"
    by (rule store_io_inv [OF inv f(1) _ read_pos [OF r(1)] b]) (use m r(2,3) in simp)
  with f r(1) show ?thesis by (auto simp: fs_read_def target_io Let_def)
qed

lemma fs_write_ok:
  assumes k: "kernel_ok k" and inv: "fs_inv k h0 n s" and b: "n + count < 2 ^ 31"
  shows "\<exists>v s'. fs_write k fd intr ubuf count s = Inr (v, s') \<and> fs_inv k h0 (n + count) s' \<and> length (fy_files s') = length (fy_files s) \<and> same_items s s'"
proof (cases "\<exists>f. lookup_file fd s = Some f \<and> can_write (of_flags f)")
  case False
  then show ?thesis using fs_inv_mono [OF inv, of "n + count"] by (auto simp: fs_write_def same_items_def split: option.splits)
next
  case True
  then obtain f where f: "lookup_file fd s = Some f" "can_write (of_flags f)" by blast
  note D = fs_invD [OF inv] and F = fs_invD(6) [OF inv f(1)]
  note at = dev_at [OF D(2), of "of_target f"]
  have pos: "0 \<le> of_pos f" "of_pos f < 2 ^ 31" using F b by auto
  obtain d' h' where st: "access_step k (fy_globals s) (Wr intr ubuf count (of_pos f)) (get_dev (of_target f) s, fy_heap s) = Inr (d', h')"
    and m: "mod_inv M_scull k 0 h0 (n + count) ((flat s)\<lparr>sy_devs := (sy_devs (flat s))[tix (of_target f) s := d'], sy_heap := h'\<rparr>)"
    by (rule sys_access [OF k D(1), of "tix (of_target f) s" "Wr intr ubuf count (of_pos f)"]) (use at F pos b in auto)
  then obtain r where r: "scull_write k (fy_globals s) intr (get_dev (of_target f) s) (get_dev (of_target f) s) (fy_heap s) ubuf count (of_pos f) = Inr r"
    "d' = dev' r" "h' = heap' r" by auto
  have "fs_inv k h0 (n + count) (store_io fd f r s)"
    by (rule store_io_inv [OF inv f(1) _ write_pos [OF r(1)] b]) (use m r(2,3) in simp)
  with f r(1) show ?thesis by (auto simp: fs_write_def target_io Let_def)
qed

section \<open>Opening\<close>

lemma new_file_simps [simp]:
  "of_target (new_file t fl c) = t" "of_flags (new_file t fl c) = fl" "of_pos (new_file t fl c) = 0" "of_cred (new_file t fl c) = c"
  by (simp_all add: new_file_def)

lemma open_at:
  assumes "mod_inv M_scull k 0 h0 n s" and "i < length (sy_devs s)"
  obtains d' h' where "open_trim (sy_globals s) fl (sy_devs s ! i) (sy_heap s) = Inr (d', h')"
    and "mod_inv M_scull k 0 h0 n (s\<lparr>sy_devs := (sy_devs s)[i := d'], sy_heap := h'\<rparr>)"
proof -
  have "pages_fit M_scull k 0" by (simp add: pages_fit_def)
  from sys_open [OF assms this, of undefined fl] obtain s' where
    "sys_call M_scull k undefined (Open i fl) s = Inr (0, s')" "mod_inv M_scull k 0 h0 n s'" by blast
  then show thesis using that by (auto simp: module_open scull_open_def)
qed

text \<open>A file is added to a state in which all else has been done.\<close>

lemma add_file_inv:
  assumes mod: "mod_inv M_scull k 0 h0 n (flat s)" and "length (fy_devs s) = 4" and "distinct (map li_key (fy_items s))"
    and fs: "list_all (\<lambda>f. target_ok s (of_target f) \<and> 0 \<le> of_pos f \<and> of_pos f \<le> int n) (open_files (fy_files s))" and "target_ok s t"
    and u: "gate_inv (fy_uid s) (users T_uid (fy_files s) @ (if t = T_uid then [new_file t fl c] else []))"
    and w: "gate_inv (fy_wuid s) (users T_wuid (fy_files s) @ (if t = T_wuid then [new_file t fl c] else []))"
  shows "fs_inv k h0 n (s\<lparr>fy_files := fy_files s @ [Some (new_file t fl c)]\<rparr>)"
proof -
  have fl: "flat (s\<lparr>fy_files := x\<rparr>) = flat s" for x by (simp add: flat_def fs_devs_def)
  have t: "target_ok (s\<lparr>fy_files := x\<rparr>) = target_ok s" for x by (rule ext, rule target_ok_cong) simp
  have "users a (fy_files s @ [Some f]) = users a (fy_files s) @ (if of_target f = a then [f] else [])" for a f
    by (simp add: users_def)
  with assms show ?thesis by (cases t) (simp_all add: fs_inv_def fl t)
qed

lemma flat_put_heap:
  assumes "length (fy_devs s) = 4" and "target_ok s t"
  shows "flat ((put_dev t d s)\<lparr>fy_heap := h\<rparr>) = (flat s)\<lparr>sy_devs := (sy_devs (flat s))[tix t s := d], sy_heap := h\<rparr>"
  using flat_put_dev [OF assms, where d = d and h = h and fs = "fy_files s"] by (simp add: flat_def fs_devs_def)

text \<open>The open of a device that does not count its users.\<close>

lemma open_target:
  assumes inv: "fs_inv k h0 n s" and t: "target_ok s t" "t \<noteq> T_uid" "t \<noteq> T_wuid"
  obtains d' h' where "open_trim (fy_globals s) fl (get_dev t s) (fy_heap s) = Inr (d', h')"
    and "fs_inv k h0 n ((put_dev t d' s)\<lparr>fy_heap := h', fy_files := fy_files s @ [Some (new_file t fl c)]\<rparr>)"
proof -
  note D = fs_invD [OF inv] and at = dev_at [OF fs_invD(2) [OF inv] t(1)]
  obtain d' h' where o: "open_trim (fy_globals s) fl (get_dev t s) (fy_heap s) = Inr (d', h')"
    and m: "mod_inv M_scull k 0 h0 n ((flat s)\<lparr>sy_devs := (sy_devs (flat s))[tix t s := d'], sy_heap := h'\<rparr>)"
    by (rule open_at [OF D(1), of "tix t s" fl]) (use at in auto)
  let ?s = "(put_dev t d' s)\<lparr>fy_heap := h'\<rparr>"
  have k: "target_ok ?s = target_ok s" by (rule ext, rule target_ok_cong) (simp add: put_dev_keys)
  have "fs_inv k h0 n (?s\<lparr>fy_files := fy_files ?s @ [Some (new_file t fl c)]\<rparr>)"
    by (rule add_file_inv) (use m D t inv in \<open>simp_all add: flat_put_heap k fs_inv_def gate_inv_def\<close>)
  with o show thesis by (intro that) simp_all
qed

definition admitted :: "gate \<Rightarrow> cred \<Rightarrow> scull_dev \<Rightarrow> gate" where
  \<comment> \<open>a gate after it has let a user in\<close>
  "admitted g c d = (if acc_count g = 0 then g\<lparr>acc_owner := c_uid c\<rparr> else g)\<lparr>acc_count := s32 (acc_count g + 1), acc_dev := d\<rparr>"

lemma gate_admit:
  assumes "gate_inv g us" and "length us < 2 ^ 31 - 1" and "acc_count g = 0 \<or> may_share c (acc_owner g)" and "of_cred f = c"
  shows "gate_inv (admitted g c d) (us @ [f])" and "acc_dev (admitted g c d) = d"
  using assms by (auto simp: gate_inv_def admitted_def may_share_def s32_id)

lemma gate_enter_at: "open_trim g fl (acc_dev s) h = Inr (d', h') \<Longrightarrow> gate_enter g c fl s h = Inr (0, admitted s c d', h')"
  by (simp add: gate_enter_def admitted_def Let_def)

lemma length_users: "length (users t fs) \<le> length fs"
  by (simp add: users_def open_files_def le_trans [OF length_filter_le])

lemma open_gates:
  assumes inv: "fs_inv k h0 n s" and b: "length (fy_files s) < 2 ^ 31 - 1"
  obtains u hu w hw where "gate_enter (fy_globals s) c fl (fy_uid s) (fy_heap s) = Inr (0, u, hu)"
    and "gate_enter (fy_globals s) c fl (fy_wuid s) (fy_heap s) = Inr (0, w, hw)"
    and "acc_count (fy_uid s) = 0 \<or> may_share c (acc_owner (fy_uid s)) \<Longrightarrow>
      fs_inv k h0 n (s\<lparr>fy_uid := u, fy_heap := hu, fy_files := fy_files s @ [Some (new_file T_uid fl c)]\<rparr>)"
    and "acc_count (fy_wuid s) = 0 \<or> may_share c (acc_owner (fy_wuid s)) \<Longrightarrow>
      fs_inv k h0 n (s\<lparr>fy_wuid := w, fy_heap := hw, fy_files := fy_files s @ [Some (new_file T_wuid fl c)]\<rparr>)"
proof -
  note D = fs_invD [OF inv]
  have us: "length (users t (fy_files s)) < 2 ^ 31 - 1" for t using length_users [of t "fy_files s"] b by linarith
  have tk: "target_ok (s\<lparr>fy_uid := x, fy_heap := y\<rparr>) = target_ok s" "target_ok (s\<lparr>fy_wuid := x, fy_heap := y\<rparr>) = target_ok s" for x y
    by (rule ext, rule target_ok_cong, simp)+
  obtain du hu where u: "open_trim (fy_globals s) fl (acc_dev (fy_uid s)) (fy_heap s) = Inr (du, hu)"
    and mu: "mod_inv M_scull k 0 h0 n ((flat s)\<lparr>sy_devs := (sy_devs (flat s))[5 := du], sy_heap := hu\<rparr>)"
    by (rule open_at [OF D(1), of 5 fl]) (use dev_at [OF D(2), of T_uid] in auto)
  obtain dw hw where w: "open_trim (fy_globals s) fl (acc_dev (fy_wuid s)) (fy_heap s) = Inr (dw, hw)"
    and mw: "mod_inv M_scull k 0 h0 n ((flat s)\<lparr>sy_devs := (sy_devs (flat s))[6 := dw], sy_heap := hw\<rparr>)"
    by (rule open_at [OF D(1), of 6 fl]) (use dev_at [OF D(2), of T_wuid] in auto)
  have fu: "flat (s\<lparr>fy_uid := g, fy_heap := hu\<rparr>) = (flat s)\<lparr>sy_devs := (sy_devs (flat s))[5 := du], sy_heap := hu\<rparr>" if "acc_dev g = du" for g
    using flat_put_heap [OF D(2), where t = T_uid and d = du and h = hu] that by (simp add: flat_def fs_devs_def)
  have fw: "flat (s\<lparr>fy_wuid := g, fy_heap := hw\<rparr>) = (flat s)\<lparr>sy_devs := (sy_devs (flat s))[6 := dw], sy_heap := hw\<rparr>" if "acc_dev g = dw" for g
    using flat_put_heap [OF D(2), where t = T_wuid and d = dw and h = hw] that by (simp add: flat_def fs_devs_def)
  let ?u = "admitted (fy_uid s) c du" and ?w = "admitted (fy_wuid s) c dw"
  let ?su = "s\<lparr>fy_uid := ?u, fy_heap := hu\<rparr>" and ?sw = "s\<lparr>fy_wuid := ?w, fy_heap := hw\<rparr>"
  show thesis
  proof (rule that [of ?u hu ?w hw])
    assume a: "acc_count (fy_uid s) = 0 \<or> may_share c (acc_owner (fy_uid s))"
    have "fs_inv k h0 n (?su\<lparr>fy_files := fy_files ?su @ [Some (new_file T_uid fl c)]\<rparr>)"
      by (rule add_file_inv)
        (use mu D inv gate_admit [OF D(4) us a, of "new_file T_uid fl c" du] in \<open>simp_all add: fu tk fs_inv_def\<close>)
    then show "fs_inv k h0 n (s\<lparr>fy_uid := ?u, fy_heap := hu, fy_files := fy_files s @ [Some (new_file T_uid fl c)]\<rparr>)" by simp
  next
    assume a: "acc_count (fy_wuid s) = 0 \<or> may_share c (acc_owner (fy_wuid s))"
    have "fs_inv k h0 n (?sw\<lparr>fy_files := fy_files ?sw @ [Some (new_file T_wuid fl c)]\<rparr>)"
      by (rule add_file_inv)
        (use mw D inv gate_admit [OF D(5) us a, of "new_file T_wuid fl c" dw] in \<open>simp_all add: fw tk fs_inv_def\<close>)
    then show "fs_inv k h0 n (s\<lparr>fy_wuid := ?w, fy_heap := hw, fy_files := fy_files s @ [Some (new_file T_wuid fl c)]\<rparr>)" by simp
  qed (use gate_enter_at [OF u, of c] gate_enter_at [OF w, of c] in simp_all)
qed


text \<open>A device without memory can be put anywhere into the list.\<close>

lemma devs_ok_insert:
  assumes ok: "devs_ok k g h (as @ bs) (gas @ gbs)" and len: "length gas = length as" and d: "dev_inv h d []" "alloc_fits k g d"
  shows "devs_ok k g h (as @ d # bs) (gas @ [] # gbs)"
proof -
  let ?ix = "\<lambda>i. if i < length as then i else i - 1"
  have at: "(as @ d # bs) ! i = (as @ bs) ! ?ix i \<and> (gas @ [] # gbs) ! i = (gas @ gbs) ! ?ix i \<and> ?ix i < length (as @ bs)"
    if "i < Suc (length (as @ bs))" "i \<noteq> length as" for i
    using that len by (auto simp: nth_append nth_Cons')
  have here: "(as @ d # bs) ! length as = d" "(gas @ [] # gbs) ! length as = []" using len by (simp_all add: nth_append)
  have inj: "?ix i \<noteq> ?ix j" if "i \<noteq> length as" "j \<noteq> length as" "i \<noteq> j" for i j using that by (auto split: if_splits)
  have "dev_inv h ((as @ d # bs) ! i) ((gas @ [] # gbs) ! i) \<and> alloc_fits k g ((as @ d # bs) ! i)" if "i < Suc (length (as @ bs))" for i
    using at [OF that] ok d here by (cases "i = length as") (auto simp: devs_ok_def)
  moreover have "footprint ((gas @ [] # gbs) ! i) \<inter> footprint ((gas @ [] # gbs) ! j) = {}"
    if "i < Suc (length (as @ bs))" "j < Suc (length (as @ bs))" "i \<noteq> j" for i j
    using at [OF that(1)] at [OF that(2)] inj [of i j] that(3) ok here
    by (cases "i = length as"; cases "j = length as") (auto simp: devs_ok_def)
  ultimately show ?thesis using ok by (simp add: devs_ok_def)
qed

lemma mod_inv_insert:
  assumes inv: "mod_inv m k ord h0 n s" and s: "sy_devs s = as @ bs" and d: "dev_of m ord n d" "dev_inv (sy_heap s) d []" "alloc_fits k (sy_globals s) d"
  shows "mod_inv m k ord h0 n (s\<lparr>sy_devs := as @ d # bs\<rparr>)"
proof -
  obtain gss where g: "devs_ok k (sy_globals s) (sy_heap s) (as @ bs) gss" "without (sy_heap s) (concat gss) = h0"
    using inv s by (auto simp: mod_inv_def)
  let ?gas = "take (length as) gss" and ?gbs = "drop (length as) gss"
  have "length gss = length (as @ bs)" using g(1) by (simp add: devs_ok_def)
  then have "devs_ok k (sy_globals s) (sy_heap s) (as @ d # bs) (?gas @ [] # ?gbs)"
    using g(1) d by (intro devs_ok_insert) simp_all
  moreover have "without (sy_heap s) (concat (?gas @ [] # ?gbs)) = h0"
    using g(2) without_cong [of "concat (?gas @ [] # ?gbs)" "concat gss" "sy_heap s"] by (metis append_take_drop_id concat.simps concat_append append_Nil)
  ultimately show ?thesis using inv s d(1) by (auto simp: mod_inv_def)
qed


text \<open>A block of no device is added to the heap.\<close>

lemma mod_inv_block:
  assumes inv: "mod_inv m k ord h0 n s" and p: "p \<notin> allocated (sy_heap s)"
  shows "mod_inv m k ord (item_block k p h0) n (s\<lparr>sy_heap := item_block k p (sy_heap s)\<rparr>)"
proof -
  obtain gss where g: "devs_ok k (sy_globals s) (sy_heap s) (sy_devs s) gss" "without (sy_heap s) (concat gss) = h0"
    using inv by (auto simp: mod_inv_def)
  have "footprint gs \<subseteq> allocated (sy_heap s)" if "gs \<in> set gss" for gs
    using that g(1) footprint_allocated by (metis devs_ok_def in_set_conv_nth)
  then have out: "p \<notin> footprint (concat gss)" using p by (auto simp: footprint_concat)
  then have "devs_ok k (sy_globals s) (item_block k p (sy_heap s)) (sy_devs s) gss"
    by (intro devs_ok_same [OF g(1)]) (auto simp: item_block_def)
  moreover have "without (item_block k p (sy_heap s)) (concat gss) = item_block k p h0"
    using out unfolding g(2) [symmetric] by (auto simp: without_def item_block_def footprint_def intro!: heap.equality fmap_ext)
  ultimately show ?thesis using inv by (auto simp: mod_inv_def)
qed

lemma add_item_inv:
  assumes inv: "files_inv k h0 n s" and key: "key \<notin> li_key ` set (fy_items s)" and p: "p \<noteq> NULL" "p \<notin> allocated (fy_heap s)"
    and x: "x = \<lparr>li_addr = p, li_dev = zero_dev\<lparr>qset := scull_qset_n (fy_globals s), quantum := scull_quantum (fy_globals s), sem := 1\<rparr>, li_key = key\<rparr>"
  shows "files_inv k h0 n (s\<lparr>fy_items := x # fy_items s, fy_heap := item_block k p (fy_heap s)\<rparr>)"
proof -
  let ?h0 = "item_blocks k (fy_items s) h0"
  have old: "fs_inv k ?h0 n s" and ap: "items_apart (fy_items s) h0" using inv by (simp_all add: files_inv_def)
  note D = fs_invD [OF old]
  let ?s = "s\<lparr>fy_items := x # fy_items s, fy_heap := item_block k p (fy_heap s)\<rparr>" and ?f = "(flat s)\<lparr>sy_heap := item_block k p (fy_heap s)\<rparr>"
  let ?as = "fy_devs s @ [fy_single s, acc_dev (fy_uid s), acc_dev (fy_wuid s), fy_copy s]"
  have g: "globals_ok (fy_globals s)" using D(1) by (simp add: mod_inv_def globals_of_def)
  have D1: "mod_inv M_scull k 0 (item_block k p ?h0) n ?f" using mod_inv_block [OF D(1)] p by simp
  have "flat ?s = ?f\<lparr>sy_devs := ?as @ li_dev x # map li_dev (fy_items s)\<rparr>" by (simp add: flat_def fs_devs_def)
  moreover have "mod_inv M_scull k 0 (item_block k p ?h0) n (?f\<lparr>sy_devs := ?as @ li_dev x # map li_dev (fy_items s)\<rparr>)"
    by (rule mod_inv_insert [OF D1])
      (use g in \<open>simp_all add: fs_devs_def x dev_of_def zero_dev_def dev_inv_def params_ok_def globals_ok_def arr_addrs_def blk_addrs_def alloc_fits_def\<close>)
  moreover have "target_ok ?s t" if "target_ok s t" for t using that by (cases t) auto
  ultimately have new: "fs_inv k (item_block k p ?h0) n ?s" using old key by (auto simp: fs_inv_def x list_all_iff)
  have "\<exists>gs. without (fy_heap s) gs = ?h0" using D(1) by (auto simp: mod_inv_def)
  then have "allocated ?h0 \<subseteq> allocated (fy_heap s)" using allocated_without by metis
  with p(2) have "p \<notin> li_addr ` set (fy_items s)" "p \<notin> allocated h0" by (auto simp: allocated_item_blocks)
  then have "items_apart (x # fy_items s) h0" using ap p(1) by (auto simp: items_apart_def x)
  with new show ?thesis by (simp add: files_inv_def x)
qed

lemma open_item:
  assumes inv: "files_inv k h0 n s" and i: "find_item key (fy_items s) = Some i"
  obtains d' h' where "open_trim (fy_globals s) fl (li_dev (fy_items s ! i)) (fy_heap s) = Inr (d', h')"
    and "files_inv k h0 n (s\<lparr>fy_items := (fy_items s)[i := (fy_items s ! i)\<lparr>li_dev := d'\<rparr>], fy_heap := h', fy_files := fy_files s @ [Some (new_file (T_item key) fl c)]\<rparr>)"
proof -
  let ?t = "T_item key"
  have t: "target_ok s ?t" using find_item_None [of key "fy_items s"] i by auto
  obtain d' h' where o: "open_trim (fy_globals s) fl (get_dev ?t s) (fy_heap s) = Inr (d', h')"
    "fs_inv k (item_blocks k (fy_items s) h0) n ((put_dev ?t d' s)\<lparr>fy_heap := h', fy_files := fy_files s @ [Some (new_file ?t fl c)]\<rparr>)"
    using open_target [of k "item_blocks k (fy_items s) h0" n s ?t fl c] inv t by (auto simp: files_inv_def)
  let ?s = "(put_dev ?t d' s)\<lparr>fy_heap := h', fy_files := fy_files s @ [Some (new_file ?t fl c)]\<rparr>"
  have a: "map li_addr (fy_items ?s) = map li_addr (fy_items s)" using put_dev_rest(7) [of ?t d' s] by (simp del: put_dev.simps)
  then have "li_addr ` set (fy_items ?s) = li_addr ` set (fy_items s)" by (metis list.set_map)
  then have "files_inv k h0 n ?s" using o(2) inv a item_blocks_cong [OF a, of k h0] by (simp add: files_inv_def items_apart_def)
  with o(1) i show thesis by (intro that) simp_all
qed

lemma fs_open_copy:
  assumes k: "kernel_ok k" and inv: "files_inv k h0 n s"
  shows "\<exists>v s'. fs_open k Scull_copy p fl s = Inr (Some (v, s')) \<and> files_inv k h0 n s' \<and> length (fy_files s') \<le> Suc (length (fy_files s))"
proof (cases "op_tty p")
  case None
  with inv show ?thesis by (simp add: fs_open_def scull_c_fops_def open_copy_def scull_c_open_def)
next
  case (Some key)
  have go: ?thesis
    if s1: "files_inv k h0 n (s\<lparr>fy_items := items, fy_heap := h\<rparr>)" "find_item key items = Some i"
      "scull_c_lookfor_device (fy_globals s) k key (fy_items s) (fy_heap s) = Inr (Some i, items, h)"
    for items i h
  proof -
    let ?s = "s\<lparr>fy_items := items, fy_heap := h\<rparr>"
    obtain d' h' where "open_trim (fy_globals ?s) fl (li_dev (fy_items ?s ! i)) (fy_heap ?s) = Inr (d', h')"
      "files_inv k h0 n (?s\<lparr>fy_items := (fy_items ?s)[i := (fy_items ?s ! i)\<lparr>li_dev := d'\<rparr>], fy_heap := h', fy_files := fy_files ?s @ [Some (new_file (T_item key) fl (op_cred p))]\<rparr>)"
      by (rule open_item [OF s1(1), of key i fl "op_cred p"]) (use s1(2) in simp)
    with s1 Some show ?thesis by (simp add: fs_open_def scull_c_fops_def open_copy_def scull_c_open_def)
  qed
  let ?a = "kmalloc k (fy_heap s) (listitem_size k)"
  show ?thesis
  proof (cases "find_item key (fy_items s)")
    case f: (Some i)
    with inv show ?thesis by (intro go [of "fy_heap s" "fy_items s" i]) (simp_all add: scull_c_lookfor_device_def)
  next
    case f: None
    then have key: "key \<notin> li_key ` set (fy_items s)" by (simp add: find_item_None)
    show ?thesis
    proof (cases "?a = NULL")
      case True
      with f Some inv show ?thesis
        by (simp add: fs_open_def scull_c_fops_def open_copy_def scull_c_open_def scull_c_lookfor_device_def)
    next
      case False
      let ?x = "\<lparr>li_addr = ?a, li_dev = zero_dev\<lparr>qset := scull_qset_n (fy_globals s), quantum := scull_quantum (fy_globals s), sem := 1\<rparr>, li_key = key\<rparr>"
      have "scull_trim (fy_globals s) zero_dev h = Inr (zero_dev\<lparr>qset := scull_qset_n (fy_globals s), quantum := scull_quantum (fy_globals s)\<rparr>, h)" for h
        by (simp add: scull_trim_def trim_loop.simps zero_dev_def)
      then show ?thesis using f False add_item_inv [OF inv key False kmalloc_fresh [OF k False] refl]
        by (intro go [of "item_block k ?a (fy_heap s)" "?x # fy_items s" 0]) (simp_all add: scull_c_lookfor_device_def Let_def)
    qed
  qed
qed

fun name_ok :: "dev_name \<Rightarrow> bool" where
  \<comment> \<open>the devices of \<open>scull_setup_cdev\<close>: \<open>scull_nr_devs\<close> of them\<close>
  "name_ok (Scull i) \<longleftrightarrow> i < scull_nr_devs"
| "name_ok _ \<longleftrightarrow> True"

lemma fs_open_other:
  assumes inv: "fs_inv k h0 n s" and b: "length (fy_files s) < 2 ^ 31 - 1" and "name_ok name" and "name \<noteq> Scull_copy"
  shows "\<exists>r. fs_open k name p fl s = Inr r \<and>
    (case r of None \<Rightarrow> name = Scull_wuid | Some (v, s') \<Rightarrow> fs_inv k h0 n s' \<and> length (fy_files s') \<le> Suc (length (fy_files s)) \<and> same_items s s')"
proof (cases name)
  case (Scull i)
  then have "target_ok s (T_scull i)" using assms(3) by (simp add: scull_nr_devs_def)
  then obtain d' h' where "open_trim (fy_globals s) fl (get_dev (T_scull i) s) (fy_heap s) = Inr (d', h')"
    "fs_inv k h0 n ((put_dev (T_scull i) d' s)\<lparr>fy_heap := h', fy_files := fy_files s @ [Some (new_file (T_scull i) fl (op_cred p))]\<rparr>)"
    by (rule open_target [OF inv]) auto
  then show ?thesis by (simp add: Scull fs_open_def plain_fops_def open_plain_def scull_open_def same_items_def)
next
  case Scull_single
  obtain d' h' where "open_trim (fy_globals s) fl (get_dev T_single s) (fy_heap s) = Inr (d', h')"
    "fs_inv k h0 n ((put_dev T_single d' s)\<lparr>fy_heap := h', fy_files := fy_files s @ [Some (new_file T_single fl (op_cred p))]\<rparr>)"
    by (rule open_target [OF inv, of T_single fl "op_cred p"]) auto
  then show ?thesis by (simp add: Scull_single fs_open_def scull_s_fops_def open_single_def scull_s_open_def same_items_def)
next
  case Scull_uid
  have "acc_count (fy_uid s) > 0 \<or> acc_count (fy_uid s) = 0" using fs_invD(4) [OF inv] by (auto simp: gate_inv_def)
  then show ?thesis
    by (rule_tac open_gates [OF inv b, of "op_cred p" fl])
      (use inv in \<open>auto simp: Scull_uid fs_open_def scull_u_fops_def open_uid_def scull_u_open_def may_share_def same_items_def\<close>)
next
  case Scull_wuid
  show ?thesis
    by (rule open_gates [OF inv b, of "op_cred p" fl])
      (use inv in \<open>auto simp: Scull_wuid fs_open_def scull_w_fops_def open_wuid_def scull_w_available_def may_share_def same_items_def\<close>)
qed (use assms(4) in simp)

lemma fs_open_ok:
  assumes k: "kernel_ok k" and inv: "files_inv k h0 n s" and b: "length (fy_files s) < 2 ^ 31 - 1" and nm: "name_ok name"
  shows "\<exists>r. fs_open k name p fl s = Inr r \<and>
    (case r of None \<Rightarrow> name = Scull_wuid | Some (v, s') \<Rightarrow> files_inv k h0 n s' \<and> length (fy_files s') \<le> Suc (length (fy_files s)))"
proof (cases "name = Scull_copy")
  case True
  then show ?thesis using fs_open_copy [OF k inv, of p fl] by auto
next
  case False
  have old: "fs_inv k (item_blocks k (fy_items s) h0) n s" using inv by (simp add: files_inv_def)
  obtain r where r: "fs_open k name p fl s = Inr r" using fs_open_other [OF old b nm False, of p fl] by blast
  have any: "case r of None \<Rightarrow> name = Scull_wuid | Some (v, s') \<Rightarrow> fs_inv k h n s' \<and> length (fy_files s') \<le> Suc (length (fy_files s)) \<and> same_items s s'"
    if "fs_inv k h n s" for h using fs_open_other [OF that b nm False, of p fl] r by auto
  have "files_inv k h0 n s' \<and> length (fy_files s') \<le> Suc (length (fy_files s))" if "r = Some (v, s')" for v s'
    using files_inv_kept [OF inv, of s' n] any that any [OF old] by auto
  then show ?thesis using r any [OF old] by (cases r) auto
qed

section \<open>Closing and the other calls\<close>

lemma gate_release:
  assumes "gate_inv g (as @ f # bs)" and "length (as @ f # bs) < 2 ^ 31"
  shows "gate_inv (scull_u_release g) (as @ bs)" and "acc_dev (scull_u_release g) = acc_dev g"
proof -
  have c: "acc_count g = int (length as + length bs) + 1" using assms(1) by (simp add: gate_inv_def)
  moreover have "int (length as + length bs) < 2 ^ 31" using assms(2) by simp
  ultimately have "s32 (acc_count g - 1) = int (length as + length bs)" by (simp add: s32_id)
  moreover have "as = [] \<and> bs = []" if "int (length as) + int (length bs) = 0" using that by (metis add_is_0 length_0_conv of_nat_add of_nat_eq_0_iff)
  ultimately show "gate_inv (scull_u_release g) (as @ bs)" using assms(1) by (auto simp: gate_inv_def scull_u_release_def Let_def)
qed (simp add: scull_u_release_def Let_def)

lemma fs_close_ok:
  assumes inv: "fs_inv k h0 n s" and b: "length (fy_files s) < 2 ^ 31 - 1"
  shows "\<exists>v s'. fs_close fd s = (v, s') \<and> fs_inv k h0 n s' \<and> length (fy_files s') = length (fy_files s) \<and> same_items s s'"
proof (cases "lookup_file fd s")
  case None
  with inv show ?thesis by (simp add: fs_close_def same_items_def)
next
  case (Some f)
  obtain as bs where sp: "open_files (fy_files s) = as @ f # bs" "open_files ((fy_files s)[fd := None]) = as @ bs"
    by (rule file_split [OF Some]) blast
  define fs' where "fs' = (fy_files s)[fd := None]"
  note D = fs_invD [OF inv]
  have other: "users t fs' = users t (fy_files s)" if "of_target f \<noteq> t" for t using that by (simp add: users_def sp fs'_def)
  have rel: "gate_inv (scull_u_release g) (users t fs')" "acc_dev (scull_u_release g) = acc_dev g"
    if "of_target f = t" "gate_inv g (users t (fy_files s))" for g t
  proof -
    let ?u = "filter (\<lambda>f. of_target f = t)"
    have u: "users t (fy_files s) = ?u as @ f # ?u bs" "users t fs' = ?u as @ ?u bs" using that(1) by (simp_all add: users_def sp fs'_def)
    have "length (?u as @ f # ?u bs) < 2 ^ 31" using length_users [of t "fy_files s"] b by (simp add: u(1) [symmetric])
    from gate_release [OF that(2) [unfolded u(1)] this] show "gate_inv (scull_u_release g) (users t fs')" "acc_dev (scull_u_release g) = acc_dev g"
      by (simp_all add: u(2))
  qed
  have all: "list_all (\<lambda>f. target_ok s (of_target f) \<and> 0 \<le> of_pos f \<and> of_pos f \<le> int n) (open_files fs')"
    using inv by (simp add: fs_inv_def sp fs'_def)
  have keep: "fs_inv k h0 n (s\<lparr>fy_uid := g, fy_wuid := w, fy_files := fs'\<rparr>)"
    if "acc_dev g = acc_dev (fy_uid s)" "acc_dev w = acc_dev (fy_wuid s)" "gate_inv g (users T_uid fs')" "gate_inv w (users T_wuid fs')" for g w
  proof -
    have "flat (s\<lparr>fy_uid := g, fy_wuid := w, fy_files := fs'\<rparr>) = flat s" using that by (simp add: flat_def fs_devs_def)
    moreover have "target_ok (s\<lparr>fy_uid := g, fy_wuid := w, fy_files := fs'\<rparr>) = target_ok s" by (rule ext, rule target_ok_cong) simp
    ultimately show ?thesis using D(1-3) all that by (simp add: fs_inv_def)
  qed
  have "fs_inv k h0 n (snd (fs_close fd s)) \<and> fy_files (snd (fs_close fd s)) = fs' \<and> same_items s (snd (fs_close fd s))"
  proof (cases "of_target f")
    case T_uid
    then show ?thesis using Some keep [of "scull_u_release (fy_uid s)" "fy_wuid s"] rel [OF T_uid D(4)] D(5) other [of T_wuid]
      by (simp add: fs_close_def scull_u_fops_def fs'_def same_items_def)
  next
    case T_wuid
    then show ?thesis using Some keep [of "fy_uid s" "scull_u_release (fy_wuid s)"] rel [OF T_wuid D(5)] D(4) other [of T_uid]
      by (simp add: fs_close_def scull_w_fops_def w_release_eq fs'_def same_items_def)
  qed (use Some keep [of "fy_uid s" "fy_wuid s"] D(4,5) other [of T_uid] other [of T_wuid] in
      \<open>simp_all add: fs_close_def plain_fops_def scull_s_fops_def scull_c_fops_def fs'_def same_items_def\<close>)
  then show ?thesis by (metis fs'_def length_list_update prod.collapse)
qed

lemma fs_ioctl_ok:
  assumes inv: "fs_inv k h0 n s"
  shows "\<exists>v s'. fs_ioctl a fd False cmd arg s = (v, s') \<and> fs_inv k h0 n s' \<and> length (fy_files s') = length (fy_files s) \<and> same_items s s'"
proof (cases "lookup_file fd s")
  case None
  with inv show ?thesis by (simp add: fs_ioctl_def same_items_def)
next
  case (Some f)
  obtain v g u where io: "scull_ioctl a False cmd arg (fy_globals s) (fy_user s) = (v, g, u)" by (metis prod.exhaust)
  let ?s = "s\<lparr>fy_globals := g, fy_user := u\<rparr>"
  have "mod_inv M_scull k 0 h0 n (flat ?s)"
  proof -
    have "sys_call M_scull k a (Ioctl 0 False cmd arg) (flat s) = Inr (v, flat ?s)"
      using io by (simp add: module_io flat_def fs_devs_def)
    then show ?thesis using sys_ioctl [OF fs_invD(1) [OF inv], of False a 0 cmd arg] by auto
  qed
  moreover have "target_ok ?s = target_ok s" by (rule ext, rule target_ok_cong) simp
  ultimately have "fs_inv k h0 n ?s" using inv by (simp add: fs_inv_def)
  with Some io show ?thesis by (simp add: fs_ioctl_def target_io same_items_def)
qed

section \<open>Sequences of calls\<close>

fun fcall_bytes :: "fcall \<Rightarrow> nat" where
  "fcall_bytes (F_read fd intr count) = count"
| "fcall_bytes (F_write fd intr ubuf count) = count"
| "fcall_bytes c = 0"

fun fcall_ok :: "fcall \<Rightarrow> bool" where
  \<comment> \<open>a device that exists, and no capability for the ioctl\<close>
  "fcall_ok (F_open name p fl) \<longleftrightarrow> name_ok name"
| "fcall_ok (F_ioctl fd cap cmd arg) \<longleftrightarrow> \<not> cap"
| "fcall_ok c \<longleftrightarrow> True"

lemma fs_step_other:
  assumes k: "kernel_ok k" and inv: "fs_inv k h0 n s" and b: "length (fy_files s) < 2 ^ 31 - 1" "n + fcall_bytes c < 2 ^ 31" and c: "fcall_ok c"
    and "\<And>name p fl. c \<noteq> F_open name p fl"
  shows "\<exists>v s'. fs_call k a c s = Inr (v, s') \<and> fs_inv k h0 (n + fcall_bytes c) s' \<and> length (fy_files s') \<le> Suc (length (fy_files s)) \<and> same_items s s'"
proof (cases c)
  case (F_read fd intr count)
  then show ?thesis using fs_read_ok [OF k inv, of count fd intr] b(2) by auto
next
  case (F_write fd intr ubuf count)
  then show ?thesis using fs_write_ok [OF k inv, of count fd intr ubuf] b(2) by auto
next
  case (F_ioctl fd cap cmd arg)
  then show ?thesis using fs_ioctl_ok [OF inv, of a fd cmd arg] c by auto
next
  case (F_close fd)
  then show ?thesis using fs_close_ok [OF inv b(1), of fd] by auto
qed (use inv assms(6) in \<open>simp_all add: same_items_def\<close>)

lemma fs_step:
  assumes k: "kernel_ok k" and inv: "files_inv k h0 n s" and b: "length (fy_files s) < 2 ^ 31 - 1" "n + fcall_bytes c < 2 ^ 31" and c: "fcall_ok c"
  shows "\<exists>v s'. fs_call k a c s = Inr (v, s') \<and> files_inv k h0 (n + fcall_bytes c) s' \<and> length (fy_files s') \<le> Suc (length (fy_files s))"
proof (cases "\<exists>name p fl. c = F_open name p fl")
  case True
  then obtain name p fl where o: "c = F_open name p fl" by blast
  obtain r where "fs_open k name p fl s = Inr r"
    "case r of None \<Rightarrow> name = Scull_wuid | Some (v, s') \<Rightarrow> files_inv k h0 n s' \<and> length (fy_files s') \<le> Suc (length (fy_files s))"
    using fs_open_ok [OF k inv b(1), of name p fl] c o by auto
  with o inv show ?thesis by (cases r) auto
next
  case False
  have old: "fs_inv k (item_blocks k (fy_items s) h0) n s" using inv by (simp add: files_inv_def)
  have any: "\<exists>v s'. fs_call k a c s = Inr (v, s') \<and> fs_inv k h (n + fcall_bytes c) s' \<and> length (fy_files s') \<le> Suc (length (fy_files s)) \<and> same_items s s'"
    if "fs_inv k h n s" for h using fs_step_other [OF k that b c, of a] False by blast
  then obtain v s' where r: "fs_call k a c s = Inr (v, s')" "length (fy_files s') \<le> Suc (length (fy_files s))" "same_items s s'" using old by blast
  have "files_inv k h0 (n + fcall_bytes c) s'" by (rule files_inv_kept [OF inv r(3)]) (use any r(1) in auto)
  with r show ?thesis by blast
qed

lemma run_fs_ok:
  assumes k: "kernel_ok k" and "files_inv k h0 n s" and "length (fy_files s) + length cs < 2 ^ 31" and "n + sum_list (map fcall_bytes cs) < 2 ^ 31"
    and "list_all fcall_ok cs"
  shows "\<exists>vs s'. run_fs k a cs s = Inr (vs, s') \<and> length vs = length cs \<and> files_inv k h0 (n + sum_list (map fcall_bytes cs)) s' \<and>
    length (fy_files s') \<le> length (fy_files s) + length cs"
  using assms(2-)
proof (induction cs arbitrary: s n)
  case Nil
  then show ?case by auto
next
  case (Cons c cs)
  have "\<exists>v s'. fs_call k a c s = Inr (v, s') \<and> files_inv k h0 (n + fcall_bytes c) s' \<and> length (fy_files s') \<le> Suc (length (fy_files s))"
    by (rule fs_step [OF k Cons.prems(1)]) (use Cons.prems in auto)
  then obtain v s1 where 1: "fs_call k a c s = Inr (v, s1)" "files_inv k h0 (n + fcall_bytes c) s1" "length (fy_files s1) \<le> Suc (length (fy_files s))"
    by blast
  obtain vs s' where "run_fs k a cs s1 = Inr (vs, s')" "length vs = length cs"
    "files_inv k h0 (n + fcall_bytes c + sum_list (map fcall_bytes cs)) s'" "length (fy_files s') \<le> length (fy_files s1) + length cs"
    using Cons.IH [OF 1(2)] Cons.prems 1(3) by auto
  with 1 show ?case by (simp add: add.assoc)
qed

text \<open>The files of a module that has just been loaded, and the module as its files have left it.\<close>

definition module_files :: "scull_module \<Rightarrow> heap \<Rightarrow> 'u \<Rightarrow> 'u fsys" where
  "module_files st h u = (let dev = (\<lambda>i. ad_dev (am_devs (sm_access st) ! i)) in
     \<lparr>fy_globals = ms_globals (sm_base st), fy_devs = (case ms_devices (sm_base st) of Array_live ds \<Rightarrow> ds | _ \<Rightarrow> []),
      fy_single = dev 0, fy_uid = \<lparr>acc_count = 0, acc_owner = 0, acc_dev = dev 1\<rparr>, fy_wuid = \<lparr>acc_count = 0, acc_owner = 0, acc_dev = dev 2\<rparr>,
      fy_copy = dev 3, fy_items = am_items (sm_access st), fy_heap = h, fy_user = u, fy_files = []\<rparr>)"

definition files_module :: "'u fsys \<Rightarrow> scull_module \<Rightarrow> scull_module" where
  "files_module s st = (let st1 = put_module_devices (take 8 (fs_devs s)) st in
     st1\<lparr>sm_base := (sm_base st1)\<lparr>ms_globals := fy_globals s\<rparr>, sm_access := (sm_access st1)\<lparr>am_items := fy_items s\<rparr>\<rparr>)"

lemma files_module_devices:
  assumes "length (fy_devs s) = 4" and "length (am_devs (sm_access st)) = 4"
  shows "module_devices (files_module s st) = fs_devs s"
  using assms map_put_devs [of "drop 4 (take 8 (fs_devs s))" "am_devs (sm_access st)"]
  by (simp add: module_devices_def put_module_devices_def files_module_def Let_def scull_nr_devs_def fs_devs_def)

lemma module_files_inv:
  assumes "ms_devices (sm_base st) = Array_live (replicate scull_nr_devs (init_dev M_scull k 0 scull_globals_init))"
    and "ms_globals (sm_base st) = scull_globals_init" and "am_items (sm_access st) = []"
    and a: "map ad_dev (am_devs (sm_access st)) = replicate 4 (init_dev M_scull k 0 scull_globals_init)"
  shows "files_inv k h 0 (module_files st h u)"
proof -
  let ?d = "init_dev M_scull k 0 scull_globals_init"
  have "ad_dev (am_devs (sm_access st) ! i) = ?d" if "i < 4" for i
    using that arg_cong [OF a, of length] arg_cong [OF a, of "\<lambda>xs. xs ! i"] by simp
  then have d: "fs_devs (module_files st h u) = replicate 8 ?d"
    using assms by (simp add: module_files_def fs_devs_def scull_nr_devs_def numeral_eq_Suc)
  have "devs_ok k scull_globals_init h (replicate 8 ?d) (replicate 8 [])"
    using fresh_devs_ok [OF default_params_ok [of M_scull k 0], of h 8] by (simp add: cached_def)
  moreover have "dev_of M_scull 0 0 ?d" by (simp add: dev_of_def init_dev_def zero_dev_def)
  moreover have "globals_of M_scull scull_globals_init"
    by (simp add: globals_of_def globals_ok_def scull_globals_init_def QUANTUM_SIZE_def QSET_SIZE_def)
  ultimately have "mod_inv M_scull k 0 h 0 (flat (module_files st h u))"
    using assms(2) d by (auto simp: mod_inv_def flat_def module_files_def Let_def list_all_iff intro!: exI [of _ "replicate 8 []"])
  with assms show ?thesis
    by (simp add: files_inv_def items_apart_def fs_inv_def module_files_def Let_def gate_inv_def users_def scull_nr_devs_def)
qed

lemma loaded_run:
  assumes "kernel_ok k" and "devices_granted a" and "devices_granted ap" and "all_registered aa"
    and "scull_init k a ap aa scull_module_init = (0, st)" and "run_fs k ua cs (module_files st h u) = Inr (vs, s)"
    and "list_all fcall_ok cs" and "sum_list (map fcall_bytes cs) < 2 ^ 31" and "length cs < 2 ^ 31"
  shows "files_inv k h (sum_list (map fcall_bytes cs)) s" and "length (fy_files s) \<le> length cs"
proof -
  have "files_inv k h 0 (module_files st h u)"
    by (rule scull_init_good [OF assms(2-4), of k], rule module_files_inv) (use assms(5) in simp_all)
  moreover have "fy_files (module_files st h u) = []" by (simp add: module_files_def Let_def)
  ultimately show "files_inv k h (sum_list (map fcall_bytes cs)) s" "length (fy_files s) \<le> length cs"
    using run_fs_ok [OF assms(1), of h 0 "module_files st h u" cs ua] assms(6-9) by auto
qed

definition plain_user :: "open_file \<Rightarrow> bool" where
  \<comment> \<open>a file opened without the capability by a process that runs as its user\<close>
  "plain_user f \<longleftrightarrow> \<not> c_dac (of_cred f) \<and> c_euid (of_cred f) = c_uid (of_cred f)"

lemma gate_one_user:
  assumes "gate_inv g us" and "f \<in> set us" "f' \<in> set us" "plain_user f" "plain_user f'"
  shows "c_uid (of_cred f) = c_uid (of_cred f')"
proof -
  have "may_share (of_cred f) (acc_owner g)" "may_share (of_cred f') (acc_owner g)" using assms(1-3) by (auto simp: gate_inv_def list_all_iff)
  with assms(4,5) show ?thesis by (simp add: may_share_def plain_user_def)
qed

lemma files_exit:
  assumes inv: "fs_inv k h0 n s" and "pm_devices (sm_pipe st) = Array_live ps" and "bufs ps = []" and "length (am_devs (sm_access st)) = 4"
    and r: "ms_region (sm_base st) = Some (ms_major (sm_base st), ms_minor (sm_base st))" "pm_region (sm_pipe st) = Some (pm_devno (sm_pipe st))"
  shows "\<exists>st'. scull_exit (files_module s st) (fy_heap s) = Inr (st', h0) \<and> ms_region (sm_base st') = None \<and> ms_cdevs (sm_base st') = [] \<and>
    pm_region (sm_pipe st') = None \<and> pm_cdevs (sm_pipe st') = [] \<and> list_all (\<lambda>x. \<not> ad_region x \<and> \<not> ad_cdev x) (am_devs (sm_access st')) \<and>
    map li_key (am_items (sm_access st')) = map li_key (fy_items s)"
proof -
  note D = fs_invD [OF inv]
  let ?st = "files_module s st"
  obtain gss where gss: "devs_ok k (fy_globals s) (fy_heap s) (fs_devs s) gss" "without (fy_heap s) (concat gss) = h0"
    using D(1) by (auto simp: mod_inv_def)
  have m: "ms_devices (sm_base ?st) = Array_live (take scull_nr_devs (take 8 (fs_devs s)))" "sm_pipe ?st = sm_pipe st" "ms_globals (sm_base ?st) = fy_globals s"
    "ms_region (sm_base ?st) = Some (ms_major (sm_base ?st), ms_minor (sm_base ?st))" "am_items (sm_access ?st) = fy_items s"
    using r(1) by (simp_all add: files_module_def put_module_devices_def Let_def)
  show ?thesis
    using scull_exit_ok [of ?st _ ps k "fy_heap s" gss, OF m(1)] m assms(2,3) r(2) gss files_module_devices [OF D(2) assms(4)]
    by (fastforce simp: pipes_own_def without_bufs_def)
qed

section \<open>Properties\<close>

text \<open>
  C25. The life of the module scull, with its memory devices used through files. After \<open>scull_init\<close> any sequence of calls of any processes without
  \<open>CAP_SYS_ADMIN\<close> (opens of the four plain devices, \<open>scull_single\<close>, \<open>scull_uid\<close>, \<open>scull_wuid\<close> and
  \<open>scull_copy\<close>, granted, refused or waiting; reads and writes of the files; any ioctl, seeks and closes), in any order and less than 2 GiB in total, runs without a fault. Then the counters of
  \<open>scull_uid\<close> and \<open>scull_wuid\<close> are the numbers of their open files, so that a close opens the device to others exactly when it was the last;
  all plain users who have one of them open are the same user; and the file of a private copy finds its device. \<open>scull_exit\<close> then frees all the data of all these devices, private copies included,
  and gives back the device numbers. It leaks the list items of \<open>scull_copy\<close>: their blocks, one for each terminal that has opened a private copy, are still allocated, and
  are all that the module leaves behind.
\<close>

theorem scull_files_safe:
  assumes "kernel_ok k" and "devices_granted a" and "devices_granted ap" and "all_registered aa"
    and "list_all fcall_ok cs" and "sum_list (map fcall_bytes cs) < 2 ^ 31" and "length cs < 2 ^ 31"
  shows "\<exists>st vs s st'. scull_init k a ap aa scull_module_init = (0, st) \<and>
    run_fs k ua cs (module_files st h u) = Inr (vs, s) \<and> length vs = length cs \<and>
    acc_count (fy_uid s) = int (length (users T_uid (fy_files s))) \<and> acc_count (fy_wuid s) = int (length (users T_wuid (fy_files s))) \<and>
    (\<forall>t f f'. t \<in> {T_uid, T_wuid} \<and> f \<in> set (users t (fy_files s)) \<and> f' \<in> set (users t (fy_files s)) \<and> plain_user f \<and> plain_user f' \<longrightarrow>
      c_uid (of_cred f) = c_uid (of_cred f')) \<and>
    (\<forall>fd f key. lookup_file fd s = Some f \<and> of_target f = T_item key \<longrightarrow> find_item key (fy_items s) \<noteq> None) \<and>
    scull_exit (files_module s st) (fy_heap s) = Inr (st', item_blocks k (fy_items s) h) \<and> items_apart (fy_items s) h \<and>
    distinct (map li_key (fy_items s)) \<and> map li_key (am_items (sm_access st')) = map li_key (fy_items s) \<and>
    ms_region (sm_base st') = None \<and> ms_cdevs (sm_base st') = [] \<and> pm_region (sm_pipe st') = None \<and> pm_cdevs (sm_pipe st') = [] \<and>
    list_all (\<lambda>x. \<not> ad_region x \<and> \<not> ad_cdev x) (am_devs (sm_access st'))"
proof -
  obtain st where st: "scull_init k a ap aa scull_module_init = (0, st)"
    "ms_devices (sm_base st) = Array_live (replicate scull_nr_devs (init_dev M_scull k 0 scull_globals_init))"
    "ms_globals (sm_base st) = scull_globals_init" "pm_devices (sm_pipe st) = Array_live (replicate SCULL_P_NR_DEVS (init_pipe SCULL_P_BUFFER))"
    "ms_region (sm_base st) = Some (ms_major (sm_base st), ms_minor (sm_base st))" "pm_region (sm_pipe st) = Some (pm_devno (sm_pipe st))"
    "map ad_dev (am_devs (sm_access st)) = replicate 4 (init_dev M_scull k 0 scull_globals_init)" "am_items (sm_access st) = []"
    by (rule scull_init_good [OF assms(2-4)])
  have "files_inv k h 0 (module_files st h u)" by (rule module_files_inv [OF st(2,3,8,7)])
  moreover have "fy_files (module_files st h u) = []" by (simp add: module_files_def Let_def)
  ultimately obtain vs s n where run: "run_fs k ua cs (module_files st h u) = Inr (vs, s)" "length vs = length cs" and finv: "files_inv k h n s"
    using run_fs_ok [OF assms(1), of h 0 "module_files st h u" cs ua] assms(5-7) by auto
  have inv: "fs_inv k (item_blocks k (fy_items s) h) n s" and apart: "items_apart (fy_items s) h" using finv by (simp_all add: files_inv_def)
  note D = fs_invD [OF inv]
  have users: "c_uid (of_cred f) = c_uid (of_cred f')"
    if "t \<in> {T_uid, T_wuid}" "f \<in> set (users t (fy_files s))" "f' \<in> set (users t (fy_files s))" "plain_user f" "plain_user f'" for t f f'
    using that gate_one_user [OF D(4)] gate_one_user [OF D(5)] by blast
  have items: "find_item key (fy_items s) \<noteq> None" if "lookup_file fd s = Some f" "of_target f = T_item key" for fd f key
    using D(6) [OF that(1)] that(2) by (simp add: find_item_None)
  have "length (am_devs (sm_access st)) = 4" using arg_cong [OF st(7), of length] by simp
  moreover have "bufs (replicate SCULL_P_NR_DEVS (init_pipe SCULL_P_BUFFER)) = []" by (simp add: bufs_def init_pipe_def)
  ultimately obtain st' where ex: "scull_exit (files_module s st) (fy_heap s) = Inr (st', item_blocks k (fy_items s) h)"
    "map li_key (am_items (sm_access st')) = map li_key (fy_items s)" "ms_region (sm_base st') = None" "ms_cdevs (sm_base st') = []" "pm_region (sm_pipe st') = None" "pm_cdevs (sm_pipe st') = []"
    "list_all (\<lambda>x. \<not> ad_region x \<and> \<not> ad_cdev x) (am_devs (sm_access st'))"
    using files_exit [OF inv st(4) _ _ st(5,6)] by blast
  have counts: "acc_count (fy_uid s) = int (length (users T_uid (fy_files s)))" "acc_count (fy_wuid s) = int (length (users T_wuid (fy_files s)))"
    using D(4,5) by (simp_all add: gate_inv_def)
  show ?thesis
  proof (rule exI [of _ st], rule exI [of _ vs], rule exI [of _ s], rule exI [of _ st'], intro conjI allI impI)
    show "c_uid (of_cred f) = c_uid (of_cred f')"
      if "t \<in> {T_uid, T_wuid} \<and> f \<in> set (users t (fy_files s)) \<and> f' \<in> set (users t (fy_files s)) \<and> plain_user f \<and> plain_user f'" for t f f'
      using that users [of t f f'] by (elim conjE)
    show "find_item key (fy_items s) \<noteq> None" if "lookup_file fd s = Some f \<and> of_target f = T_item key" for fd f key
      using that items [of fd f key] by (elim conjE)
  qed (rule st(1) run counts ex apart D(3))+
qed

definition demo_calls :: "fcall list" where
  \<comment> \<open>two users of \<open>scull_uid\<close>, one of whom is refused, a private copy, and a write to a plain device\<close>
  "demo_calls = (let alice = \<lparr>op_cred = \<lparr>c_uid = 1, c_euid = 1, c_dac = False\<rparr>, op_tty = Some 5\<rparr>;
       bob = \<lparr>op_cred = \<lparr>c_uid = 2, c_euid = 2, c_dac = False\<rparr>, op_tty = Some 6\<rparr>
     in [F_open Scull_uid alice 2, F_open Scull_uid bob 2, F_open Scull_copy bob 1, F_write 1 False [7, 8] 2, F_close 0,
         F_open Scull_uid bob 2, F_open (Scull 3) alice 1, F_write 3 False [9] 1, F_seek 3, F_ioctl 3 False SCULL_IOCRESET 0])"

theorem scull_files_safe_witness:
  "\<exists>st vs s st'. scull_init simple_kernel demo_answers demo_answers demo_access scull_module_init = (0, st) \<and>
    run_fs simple_kernel mapped_user demo_calls (module_files st empty_heap Map.empty) = Inr (vs, s) \<and> length vs = 10 \<and>
    acc_count (fy_uid s) = int (length (users T_uid (fy_files s))) \<and> scull_exit (files_module s st) (fy_heap s) = Inr (st', item_blocks simple_kernel (fy_items s) empty_heap)"
proof -
  have "list_all fcall_ok demo_calls" "sum_list (map fcall_bytes demo_calls) < 2 ^ 31" "length demo_calls < 2 ^ 31" and len: "length demo_calls = 10"
    by (simp_all add: demo_calls_def Let_def scull_nr_devs_def)
  from scull_files_safe [OF simple_kernel_ok demo_answers_good(2,2,3) this(1-3), of mapped_user empty_heap Map.empty, unfolded len] show ?thesis
    by (elim exE conjE) (intro exI conjI; assumption)
qed

end
