(* ===== verification/Pipe_Files.thy ===== *)
theory Pipe_Files
  imports Pipe_Calls Scull_Files
begin

text \<open>
  The pipes of the module scull behind open files, through the table \<open>scull_p_fops\<close>: any number of files of the four pipes, opened and closed
  in any order. A call of the driver is one step here, and the calls are taken one at a time (\<open>Scull_Pipe_Sys\<close> has the interleavings). The value
  of a call that has to wait is \<open>None\<close>. It sleeps, for bytes, for space, or for the semaphore, which \<open>scull_p_poll\<close> keeps (\<open>poll_locks_pipe\<close>);
  it has changed nothing, and is made again at a later place of the sequence if it goes on. Only a close has already taken the file
  descriptor away and left the asynchronous readers: the file is marked as closing until its \<open>scull_p_release\<close> goes on.
\<close>

unbundle bit_operations_syntax

section \<open>The table\<close>

record 'u pipe_fops =
  pp_seeks :: bool
  pp_read :: "kernel \<Rightarrow> 32 word \<Rightarrow> nat \<Rightarrow> scull_pipe \<Rightarrow> heap \<Rightarrow> (byte list \<times> scull_pipe) alone res"
  pp_write :: "kernel \<Rightarrow> 32 word \<Rightarrow> byte list \<Rightarrow> nat \<Rightarrow> scull_pipe \<Rightarrow> heap \<Rightarrow> (scull_pipe \<times> heap) alone res"
  pp_ioctl :: "'u uaccess \<Rightarrow> bool \<Rightarrow> 32 word \<Rightarrow> 64 word \<Rightarrow> scull_globals \<Rightarrow> 'u \<Rightarrow> int \<times> scull_globals \<times> 'u"
  pp_poll :: "bool \<Rightarrow> scull_pipe \<Rightarrow> (poll_bit set \<times> scull_pipe) res"
  pp_fasync :: "(int \<Rightarrow> bool \<Rightarrow> bool \<Rightarrow> int \<times> bool) \<Rightarrow> int \<Rightarrow> bool \<Rightarrow> scull_pipe \<Rightarrow> int \<times> scull_pipe"
  pp_open :: "kernel \<Rightarrow> int \<Rightarrow> bool \<Rightarrow> bool \<Rightarrow> bool \<Rightarrow> int \<Rightarrow> scull_pipe \<Rightarrow> heap \<Rightarrow> int \<times> scull_pipe \<times> heap"
  pp_release :: "(int \<Rightarrow> bool \<Rightarrow> bool \<Rightarrow> int \<times> bool) \<Rightarrow> bool \<Rightarrow> bool \<Rightarrow> bool \<Rightarrow> scull_pipe \<Rightarrow> heap \<Rightarrow> (int \<times> scull_pipe \<times> heap) res"

definition scull_p_fops :: "'u pipe_fops" where
  "scull_p_fops = \<lparr>pp_seeks = False, pp_read = read_call, pp_write = write_call, pp_ioctl = scull_ioctl, pp_poll = scull_p_poll,
     pp_fasync = scull_p_fasync, pp_open = scull_p_open, pp_release = scull_p_release\<rparr>"

section \<open>Files\<close>

record pipe_file =
  pf_pipe :: nat
  pf_flags :: "32 word"
  pf_closing :: bool    \<comment> \<open>its \<open>scull_p_release\<close> waits for the semaphore\<close>

record 'u pfsys =
  pf_globals :: scull_globals
  pf_devs :: "scull_pipe list"
  pf_heap :: heap
  pf_user :: 'u
  pf_files :: "pipe_file option list"
  pf_hist :: "(byte list \<times> byte list) list"   \<comment> \<open>ghost, for each pipe: what was written and read since it got its buffer\<close>

datatype pcall =
    P_open nat bool "32 word"          \<comment> \<open>pipe, interrupted, flags\<close>
  | P_read nat nat
  | P_write nat "byte list" nat
  | P_ioctl nat bool "32 word" "64 word"
  | P_poll nat bool                    \<comment> \<open>file, interrupted\<close>
  | P_fasync nat bool
  | P_seek nat
  | P_close nat bool                   \<comment> \<open>file, interrupted\<close>

datatype pvalue = Val int | Mask "poll_bit set"

text \<open>Without a signal, a \<open>down_interruptible\<close> waits as long as the semaphore is not free.\<close>

definition must_wait :: "bool \<Rightarrow> scull_pipe \<Rightarrow> bool" where
  "must_wait intr d \<longleftrightarrow> \<not> intr \<and> p_sem d \<le> 0"

definition pf_open :: "kernel \<Rightarrow> nat \<Rightarrow> bool \<Rightarrow> 32 word \<Rightarrow> 'u pfsys \<Rightarrow> int option \<times> 'u pfsys" where
  "pf_open k i intr fl s = (let d = pf_devs s ! i in
     if must_wait intr d then (None, s)
     else case pp_open (scull_p_fops :: 'u pipe_fops) k SCULL_P_BUFFER intr (can_read fl) (can_write fl) 0 d (pf_heap s) of (v, d', h') \<Rightarrow>
       (Some (if v < 0 then v else int (length (pf_files s))),
        s\<lparr>pf_devs := (pf_devs s)[i := d'], pf_heap := h',
          pf_files := (if v < 0 then pf_files s else pf_files s @ [Some \<lparr>pf_pipe = i, pf_flags = fl, pf_closing = False\<rparr>]),
          pf_hist := (if v < 0 \<or> p_buffer d \<noteq> NULL then pf_hist s else (pf_hist s)[i := ([], [])])\<rparr>))"

definition pf_read :: "kernel \<Rightarrow> pipe_file \<Rightarrow> nat \<Rightarrow> 'u pfsys \<Rightarrow> (int option \<times> 'u pfsys) res" where
  "pf_read k f n s = (let i = pf_pipe f in
     bindE (pp_read (scull_p_fops :: 'u pipe_fops) k (pf_flags f) n (pf_devs s ! i) (pf_heap s)) (\<lambda>r.
       case r of Returned v (bs, d') \<Rightarrow> Inr (Some v, s\<lparr>pf_devs := (pf_devs s)[i := d'],
           pf_hist := (pf_hist s)[i := (fst (pf_hist s ! i), snd (pf_hist s ! i) @ bs)]\<rparr>)
       | _ \<Rightarrow> Inr (None, s)))"

definition pf_write :: "kernel \<Rightarrow> pipe_file \<Rightarrow> byte list \<Rightarrow> nat \<Rightarrow> 'u pfsys \<Rightarrow> (int option \<times> 'u pfsys) res" where
  "pf_write k f u n s = (let i = pf_pipe f in
     bindE (pp_write (scull_p_fops :: 'u pipe_fops) k (pf_flags f) u n (pf_devs s ! i) (pf_heap s)) (\<lambda>r.
       case r of Returned v (d', h') \<Rightarrow> Inr (Some v, s\<lparr>pf_devs := (pf_devs s)[i := d'], pf_heap := h',
           pf_hist := (pf_hist s)[i := (fst (pf_hist s ! i) @ take (nat v) u, snd (pf_hist s ! i))]\<rparr>)
       | _ \<Rightarrow> Inr (None, s)))"

definition pf_poll :: "pipe_file \<Rightarrow> bool \<Rightarrow> 'u pfsys \<Rightarrow> (pvalue option \<times> 'u pfsys) res" where
  "pf_poll f intr s = (let i = pf_pipe f; d = pf_devs s ! i in
     if must_wait intr d then Inr (None, s)
     else bindE (pp_poll (scull_p_fops :: 'u pipe_fops) intr d) (\<lambda>(m, d'). Inr (Some (Mask m), s\<lparr>pf_devs := (pf_devs s)[i := d']\<rparr>)))"

definition pf_close :: "(int \<Rightarrow> bool \<Rightarrow> bool \<Rightarrow> int \<times> bool) \<Rightarrow> nat \<Rightarrow> pipe_file \<Rightarrow> bool \<Rightarrow> 'u pfsys \<Rightarrow> (int option \<times> 'u pfsys) res" where
  \<comment> \<open>The file is gone whatever the driver answers. A release that waits has come as far as one that is interrupted there; when it goes on,
    its \<open>scull_p_fasync\<close> is behind it.\<close>
  "pf_close helper fd f intr s = (let i = pf_pipe f; d = pf_devs s ! i; wait = must_wait intr d;
       helper' = (if pf_closing f then (\<lambda>fd on q. (0, q)) else helper) in
     bindE (pp_release (scull_p_fops :: 'u pipe_fops) helper' (intr \<or> wait) (can_read (pf_flags f)) (can_write (pf_flags f)) d (pf_heap s))
       (\<lambda>(v, d', h'). Inr (if wait then None else Some v, s\<lparr>pf_devs := (pf_devs s)[i := d'], pf_heap := h',
          pf_files := (pf_files s)[fd := if wait then Some (f\<lparr>pf_closing := True\<rparr>) else None]\<rparr>)))"

definition pf_lookup :: "nat \<Rightarrow> 'u pfsys \<Rightarrow> pipe_file option" where
  "pf_lookup fd s = (if fd < length (pf_files s) then pf_files s ! fd else None)"

definition on_file :: "nat \<Rightarrow> (pipe_file \<Rightarrow> (int option \<times> 'u pfsys) res) \<Rightarrow> 'u pfsys \<Rightarrow> (int option \<times> 'u pfsys) res" where
  "on_file fd call s = (case pf_lookup fd s of None \<Rightarrow> Inr (Some (- EBADF), s)
     | Some f \<Rightarrow> if pf_closing f then Inr (Some (- EBADF), s) else call f)"

definition valued :: "(int option \<times> 's) res \<Rightarrow> (pvalue option \<times> 's) res" where
  "valued r = bindE r (\<lambda>(v, s). Inr (map_option Val v, s))"

fun pf_call :: "kernel \<Rightarrow> 'u uaccess \<Rightarrow> (int \<Rightarrow> bool \<Rightarrow> bool \<Rightarrow> int \<times> bool) \<Rightarrow> pcall \<Rightarrow> 'u pfsys \<Rightarrow> (pvalue option \<times> 'u pfsys) res" where
  "pf_call k a helper (P_open i intr fl) s = valued (Inr (pf_open k i intr fl s))"
| "pf_call k a helper (P_read fd n) s = valued (on_file fd (\<lambda>f. if can_read (pf_flags f) then pf_read k f n s else Inr (Some (- EBADF), s)) s)"
| "pf_call k a helper (P_write fd u n) s = valued (on_file fd (\<lambda>f. if can_write (pf_flags f) then pf_write k f u n s else Inr (Some (- EBADF), s)) s)"
| "pf_call k a helper (P_ioctl fd cap cmd arg) s = valued (on_file fd (\<lambda>f.
     case pp_ioctl scull_p_fops a cap cmd arg (pf_globals s) (pf_user s) of (v, g, u) \<Rightarrow> Inr (Some v, s\<lparr>pf_globals := g, pf_user := u\<rparr>)) s)"
| "pf_call k a helper (P_poll fd intr) s = (case pf_lookup fd s of None \<Rightarrow> Inr (Some (Val (- EBADF)), s)
     | Some f \<Rightarrow> if pf_closing f then Inr (Some (Val (- EBADF)), s) else pf_poll f intr s)"
| "pf_call k a helper (P_fasync fd on) s = valued (on_file fd (\<lambda>f.
     case pp_fasync (scull_p_fops :: 'u pipe_fops) helper (int fd) on (pf_devs s ! pf_pipe f) of (v, d') \<Rightarrow>
       Inr (Some v, s\<lparr>pf_devs := (pf_devs s)[pf_pipe f := d']\<rparr>)) s)"
| "pf_call k a helper (P_seek fd) s = valued (on_file fd (\<lambda>f. Inr (Some (if pp_seeks (scull_p_fops :: 'u pipe_fops) then 0 else - ESPIPE), s)) s)"
| "pf_call k a helper (P_close fd intr) s = valued (case pf_lookup fd s of None \<Rightarrow> Inr (Some (- EBADF), s) | Some f \<Rightarrow> pf_close helper fd f intr s)"

fun run_pf :: "kernel \<Rightarrow> 'u uaccess \<Rightarrow> (int \<Rightarrow> bool \<Rightarrow> bool \<Rightarrow> int \<times> bool) \<Rightarrow> pcall list \<Rightarrow> 'u pfsys \<Rightarrow> (pvalue option list \<times> 'u pfsys) res" where
  "run_pf k a helper [] s = Inr ([], s)"
| "run_pf k a helper (c # cs) s = bindE (pf_call k a helper c s) (\<lambda>(v, s1). bindE (run_pf k a helper cs s1) (\<lambda>(vs, s2). Inr (v # vs, s2)))"

text \<open>The pipes of a module that has just been loaded.\<close>

definition pipe_files :: "pipe_mod \<Rightarrow> heap \<Rightarrow> scull_globals \<Rightarrow> 'u \<Rightarrow> 'u pfsys" where
  "pipe_files pm h g u = (let ds = (case pm_devices pm of Array_live ds \<Rightarrow> ds | _ \<Rightarrow> []) in
     \<lparr>pf_globals = g, pf_devs = ds, pf_heap = h, pf_user = u, pf_files = [], pf_hist = replicate (length ds) ([], [])\<rparr>)"

section \<open>The invariant\<close>

definition files_on :: "nat \<Rightarrow> pipe_file option list \<Rightarrow> pipe_file list" where
  "files_on i fs = filter (\<lambda>f. pf_pipe f = i) (open_files fs)"

definition n_readers :: "pipe_file list \<Rightarrow> int" where
  "n_readers fs = int (length (filter (\<lambda>f. can_read (pf_flags f)) fs))"

definition n_writers :: "pipe_file list \<Rightarrow> int" where
  "n_writers fs = int (length (filter (\<lambda>f. can_write (pf_flags f)) fs))"

definition pipe_state :: "bool \<Rightarrow> bool \<Rightarrow> nat \<Rightarrow> heap \<Rightarrow> scull_pipe \<Rightarrow> pipe_file list \<Rightarrow> byte list \<times> byte list \<Rightarrow> bool" where
  \<comment> \<open>after \<open>n\<close> calls; \<open>clean\<close>: no close was interrupted; \<open>np\<close>: none was a poll\<close>
  "pipe_state clean np n h d fs hist \<longleftrightarrow>
     0 \<le> p_sem d \<and> (np \<longrightarrow> p_sem d = 1) \<and> p_buffersize d = SCULL_P_BUFFER \<and>
     n_readers fs \<le> p_nreaders d \<and> p_nreaders d \<le> int n \<and> n_writers fs \<le> p_nwriters d \<and> p_nwriters d \<le> int n \<and>
     (if p_buffer d = NULL then p_nreaders d = 0 \<and> p_nwriters d = 0 else pipe_ok h d \<and> fst hist = snd hist @ pipe_bytes h d) \<and>
     (\<exists>rest. fst hist = snd hist @ rest \<and> int (length rest) < SCULL_P_BUFFER) \<and>
     (clean \<longrightarrow> p_nreaders d = n_readers fs \<and> p_nwriters d = n_writers fs \<and> (fs = [] \<longrightarrow> p_buffer d = NULL))"

definition apart :: "scull_pipe list \<Rightarrow> bool" where
  "apart ds \<longleftrightarrow> (\<forall>i<length ds. \<forall>j<length ds. i \<noteq> j \<and> p_buffer (ds ! i) \<noteq> NULL \<longrightarrow> p_buffer (ds ! i) \<noteq> p_buffer (ds ! j))"

definition pf_inv :: "bool \<Rightarrow> bool \<Rightarrow> heap \<Rightarrow> nat \<Rightarrow> 'u pfsys \<Rightarrow> bool" where
  \<comment> \<open>without the buffers the heap is \<open>h0\<close>\<close>
  "pf_inv clean np h0 n s \<longleftrightarrow>
     length (pf_devs s) = SCULL_P_NR_DEVS \<and> length (pf_hist s) = SCULL_P_NR_DEVS \<and> apart (pf_devs s) \<and>
     without_bufs (pf_heap s) (bufs (pf_devs s)) = h0 \<and>
     (\<forall>i<SCULL_P_NR_DEVS. pipe_state clean np n (pf_heap s) (pf_devs s ! i) (files_on i (pf_files s)) (pf_hist s ! i)) \<and>
     list_all (\<lambda>f. pf_pipe f < SCULL_P_NR_DEVS) (open_files (pf_files s))"

lemma pipe_stateD:
  assumes "pipe_state clean np n h d fs hist"
  shows "0 \<le> p_sem d" and "p_buffersize d = SCULL_P_BUFFER" and "n_readers fs \<le> p_nreaders d" and "n_writers fs \<le> p_nwriters d"
    and "p_nreaders d \<le> int n \<and> p_nwriters d \<le> int n"
    and "p_buffer d = NULL \<Longrightarrow> p_nreaders d = 0" and "p_buffer d = NULL \<Longrightarrow> p_nwriters d = 0"
    and "p_buffer d \<noteq> NULL \<Longrightarrow> pipe_ok h d" and "p_buffer d \<noteq> NULL \<Longrightarrow> fst hist = snd hist @ pipe_bytes h d"
    and "np \<Longrightarrow> p_sem d = 1"
proof -
  have "if p_buffer d = NULL then p_nreaders d = 0 \<and> p_nwriters d = 0 else pipe_ok h d \<and> fst hist = snd hist @ pipe_bytes h d"
    using assms unfolding pipe_state_def by blast
  then show "p_buffer d = NULL \<Longrightarrow> p_nreaders d = 0" "p_buffer d = NULL \<Longrightarrow> p_nwriters d = 0" "p_buffer d \<noteq> NULL \<Longrightarrow> pipe_ok h d"
    "p_buffer d \<noteq> NULL \<Longrightarrow> fst hist = snd hist @ pipe_bytes h d" by simp_all
qed (use assms in \<open>simp_all only: pipe_state_def simp_thms\<close>)

lemma pipe_elsewhere:
  "fmlookup (hp_blk h') (p_buffer d) = fmlookup (hp_blk h) (p_buffer d) \<Longrightarrow> pipe_ok h' d = pipe_ok h d \<and> pipe_bytes h' d = pipe_bytes h d"
  by (simp add: pipe_ok_def pipe_bytes_def)

lemma pipe_state_elsewhere:
  assumes "pipe_state clean np n h d fs hist" and "p_buffer d \<noteq> NULL \<Longrightarrow> fmlookup (hp_blk h') (p_buffer d) = fmlookup (hp_blk h) (p_buffer d)"
    and "n \<le> n'" and "clean' \<Longrightarrow> clean" and "np' \<Longrightarrow> np"
  shows "pipe_state clean' np' n' h' d fs hist"
proof -
  have "if p_buffer d = NULL then p_nreaders d = 0 \<and> p_nwriters d = 0 else pipe_ok h' d \<and> fst hist = snd hist @ pipe_bytes h' d"
    using assms(1) pipe_elsewhere [OF assms(2)] by (auto simp: pipe_state_def)
  with assms(1,3-5) show ?thesis by (auto simp: pipe_state_def)
qed

text \<open>One pipe changes: its buffer stays, is new, or is freed, and the memory outside of it stays.\<close>

definition buffer_moves :: "heap \<Rightarrow> addr \<Rightarrow> heap \<Rightarrow> addr \<Rightarrow> bool" where
  "buffer_moves h b h' b' \<longleftrightarrow>
     (b' = b \<or> b = NULL \<and> fmlookup (hp_blk h) b' = None \<or> b' = NULL \<and> fmlookup (hp_blk h') b = None) \<and>
     hp_qset h' = hp_qset h \<and> hp_ptrs h' = hp_ptrs h \<and>
     (\<forall>a. a = NULL \<or> a \<noteq> b \<and> a \<noteq> b' \<longrightarrow> fmlookup (hp_blk h') a = fmlookup (hp_blk h) a)"

lemma buffer_moves_refl [simp]: "buffer_moves h b h b"
  by (simp add: buffer_moves_def)

lemma mem_bufs: "b \<in> set (bufs ds) \<longleftrightarrow> b \<noteq> NULL \<and> (\<exists>j<length ds. p_buffer (ds ! j) = b)"
  by (auto simp: bufs_def image_iff Bex_def in_set_conv_nth)

lemma without_moved:
  assumes mv: "buffer_moves h (p_buffer (ds ! i)) h' (p_buffer d')" and i: "i < length ds" and ap: "apart ds"
  shows "without_bufs h' (bufs (ds[i := d'])) = without_bufs h (bufs ds)"
proof -
  let ?b = "p_buffer (ds ! i)" and ?b' = "p_buffer d'"
  have new: "a \<in> set (bufs (ds[i := d'])) \<longleftrightarrow> a \<noteq> NULL \<and> (a = ?b' \<or> (\<exists>j<length ds. j \<noteq> i \<and> p_buffer (ds ! j) = a))" for a
    using i by (auto simp: mem_bufs nth_list_update)
  have old: "a \<in> set (bufs ds) \<longleftrightarrow> a \<noteq> NULL \<and> (a = ?b \<or> (\<exists>j<length ds. j \<noteq> i \<and> p_buffer (ds ! j) = a))" for a
    using i by (auto simp: mem_bufs)
  have eq: "(if a \<notin> set (bufs (ds[i := d'])) then fmlookup (hp_blk h') a else None) = (if a \<notin> set (bufs ds) then fmlookup (hp_blk h) a else None)" for a
    unfolding new old using mv by (auto simp: buffer_moves_def)
  have "fmdrop_set (set (bufs (ds[i := d']))) (hp_blk h') = fmdrop_set (set (bufs ds)) (hp_blk h)"
    by (rule fmap_ext) (simp only: fmlookup_drop_set eq)
  then show ?thesis using mv by (simp add: without_bufs_def buffer_moves_def)
qed

lemma pf_change:
  assumes inv: "pf_inv clean np h0 n s" and i: "i < SCULL_P_NR_DEVS"
    and mv: "buffer_moves (pf_heap s) (p_buffer (pf_devs s ! i)) h' (p_buffer d')" and new: "pipe_state clean' np' n' h' d' (files_on i fs) hist'"
    and fs: "\<And>j. j \<noteq> i \<Longrightarrow> files_on j fs = files_on j (pf_files s)" "list_all (\<lambda>f. pf_pipe f < SCULL_P_NR_DEVS) (open_files fs)"
    and n: "n \<le> n'" "clean' \<Longrightarrow> clean" "np' \<Longrightarrow> np"
  shows "pf_inv clean' np' h0 n' (s\<lparr>pf_devs := (pf_devs s)[i := d'], pf_heap := h', pf_files := fs, pf_hist := (pf_hist s)[i := hist']\<rparr>)"
proof -
  have len: "length (pf_devs s) = SCULL_P_NR_DEVS" "length (pf_hist s) = SCULL_P_NR_DEVS" and ap: "apart (pf_devs s)" using inv by (simp_all add: pf_inv_def)
  have at: "pipe_state clean np n (pf_heap s) (pf_devs s ! j) (files_on j (pf_files s)) (pf_hist s ! j)" if "j < SCULL_P_NR_DEVS" for j
    using inv that by (simp add: pf_inv_def)
  have held: "fmlookup (hp_blk (pf_heap s)) (p_buffer (pf_devs s ! j)) \<noteq> None" if "j < SCULL_P_NR_DEVS" "p_buffer (pf_devs s ! j) \<noteq> NULL" for j
    using at [OF that(1)] that(2) by (auto simp: pipe_state_def pipe_ok_def split: option.splits)
  have others: "p_buffer (pf_devs s ! j) \<noteq> p_buffer (pf_devs s ! i)" "p_buffer (pf_devs s ! j) \<noteq> p_buffer d'"
    if "j < SCULL_P_NR_DEVS" "j \<noteq> i" "p_buffer (pf_devs s ! j) \<noteq> NULL" for j
  proof -
    show ne: "p_buffer (pf_devs s ! j) \<noteq> p_buffer (pf_devs s ! i)" using that ap i len unfolding apart_def by metis
    show "p_buffer (pf_devs s ! j) \<noteq> p_buffer d'" using ne that mv held [OF that(1,3)] by (auto simp: buffer_moves_def)
  qed
  have "pipe_state clean' np' n' h' (pf_devs s ! j) (files_on j fs) (pf_hist s ! j)" if j: "j < SCULL_P_NR_DEVS" "j \<noteq> i" for j
  proof -
    have "pipe_state clean' np' n' h' (pf_devs s ! j) (files_on j (pf_files s)) (pf_hist s ! j)"
      using others [OF j] mv by (intro pipe_state_elsewhere [OF at [OF j(1)] _ n]) (auto simp: buffer_moves_def)
    with fs(1) [OF j(2)] show ?thesis by simp
  qed
  moreover have "apart ((pf_devs s)[i := d'])"
    using ap others i len unfolding apart_def by (auto simp: nth_list_update) metis+
  moreover have "without_bufs h' (bufs ((pf_devs s)[i := d'])) = h0"
    using without_moved [OF mv _ ap] i len inv by (simp add: pf_inv_def)
  ultimately show ?thesis using new len fs(2) i by (auto simp: pf_inv_def nth_list_update)
qed

section \<open>Each call keeps it\<close>

lemma files_on_split:
  assumes "pf_lookup fd s = Some f"
  obtains as bs where "files_on (pf_pipe f) (pf_files s) = as @ f # bs" and "files_on (pf_pipe f) ((pf_files s)[fd := None]) = as @ bs"
    and "\<And>j. j \<noteq> pf_pipe f \<Longrightarrow> files_on j ((pf_files s)[fd := None]) = files_on j (pf_files s)"
    and "set (open_files ((pf_files s)[fd := None])) \<subseteq> set (open_files (pf_files s))" and "f \<in> set (open_files (pf_files s))"
proof -
  have fd: "fd < length (pf_files s)" "pf_files s ! fd = Some f" using assms by (auto simp: pf_lookup_def split: if_splits)
  obtain as bs where sp: "open_files (pf_files s) = as @ f # bs" "open_files ((pf_files s)[fd := None]) = as @ bs"
    by (rule open_files_split [OF fd]) blast
  then show thesis by (intro that [of "filter (\<lambda>g. pf_pipe g = pf_pipe f) as" "filter (\<lambda>g. pf_pipe g = pf_pipe f) bs"]) (auto simp: files_on_def)
qed

lemma counts_simps [simp]:
  "n_readers [] = 0" "n_writers [] = 0"
  "n_readers (as @ bs) = n_readers as + n_readers bs" "n_writers (as @ bs) = n_writers as + n_writers bs"
  "n_readers (f # fs) = of_bool (can_read (pf_flags f)) + n_readers fs" "n_writers (f # fs) = of_bool (can_write (pf_flags f)) + n_writers fs"
  by (simp_all add: n_readers_def n_writers_def)

lemma counts_nonneg: "0 \<le> n_readers fs" "0 \<le> n_writers fs"
  by (simp_all add: n_readers_def n_writers_def)

lemma pipe_bytes_short: "pipe_ok h d \<Longrightarrow> int (length (pipe_bytes h d)) < p_buffersize d"
  using spacefree_ok(1) [of h d] by (simp add: pipe_capacity_def) (auto simp: pipe_ok_def)

lemma pipe_state_counts:
  assumes "pipe_state clean np n h d fs hist" and "n < 2 ^ 30"
  shows "p_buffer d = NULL \<or> pipe_ok h d" and "0 \<le> p_nreaders d" and "p_nreaders d < 2 ^ 30" and "0 \<le> p_nwriters d" and "p_nwriters d < 2 ^ 30"
proof -
  have "n_readers fs \<le> p_nreaders d" "n_writers fs \<le> p_nwriters d" using assms(1) by (simp_all add: pipe_state_def)
  then show "0 \<le> p_nreaders d" "0 \<le> p_nwriters d" using order_trans [OF counts_nonneg(1)] order_trans [OF counts_nonneg(2)] by blast+
  show "p_buffer d = NULL \<or> pipe_ok h d" "p_nreaders d < 2 ^ 30" "p_nwriters d < 2 ^ 30"
    using assms by (auto simp: pipe_state_def split: if_splits)
qed

text \<open>A pipe in use whose contents and readers and writers are known.\<close>

lemma pipe_state_used:
  assumes "pipe_state clean np n h d fs hist" and "p_sem d' = p_sem d" "p_buffersize d' = p_buffersize d" "p_nreaders d' = p_nreaders d" "p_nwriters d' = p_nwriters d"
    and "pipe_ok h' d'" "fst hist' = snd hist' @ pipe_bytes h' d'" "p_buffer d' = p_buffer d" and "n \<le> n'"
  shows "pipe_state clean np n' h' d' fs hist'"
proof -
  have "p_buffer d' \<noteq> NULL" using assms(6) by (simp add: pipe_ok_def)
  moreover have "\<exists>rest. fst hist' = snd hist' @ rest \<and> int (length rest) < SCULL_P_BUFFER"
    using assms(1,3,7) pipe_bytes_short [OF assms(6)] by (auto simp: pipe_state_def)
  ultimately show ?thesis using assms by (auto simp: pipe_state_def)
qed

lemma open_frame:
  assumes "scull_p_open k (p_buffersize d) intr rd wr 0 d h = (v, d', h')" and "kernel_ok k" and "0 < p_buffersize d" and "p_buffersize d < 2 ^ 31"
  shows "buffer_moves h (p_buffer d) h' (p_buffer d')" and "p_buffersize d' = p_buffersize d"
proof -
  have "fmlookup (hp_blk h) (kmalloc k h n) = None" if "kmalloc k h n \<noteq> NULL" for n
    using kmalloc_fresh [OF assms(2) that] by (simp add: not_allocatedD)
  with assms(1) show "buffer_moves h (p_buffer d) h' (p_buffer d')"
    by (auto simp: scull_p_open_def Let_def new_blk_def buffer_moves_def p_up_def p_down_def split: if_splits)
  show "p_buffersize d' = p_buffersize d"
    using assms(1) by (auto simp: scull_p_open_def Let_def new_blk_def p_up_def p_down_def split: if_splits)
qed

lemma pf_inv_weaken: "pf_inv clean np h0 n s \<Longrightarrow> n \<le> n' \<Longrightarrow> (clean' \<Longrightarrow> clean) \<Longrightarrow> (np' \<Longrightarrow> np) \<Longrightarrow> pf_inv clean' np' h0 n' s"
  by (auto simp: pf_inv_def intro: pipe_state_elsewhere)

lemma pf_inv_Suc: "pf_inv clean np h0 n s \<Longrightarrow> pf_inv clean np h0 (Suc n) s"
  by (erule pf_inv_weaken) simp_all

lemma pf_open_ok:
  assumes k: "kernel_ok k" and inv: "pf_inv clean np h0 n s" and i: "i < SCULL_P_NR_DEVS" and b: "n < 2 ^ 30"
  obtains v s' where "pf_open k i intr fl s = (v, s')" and "pf_inv clean np h0 (Suc n) s'"
proof (cases "must_wait intr (pf_devs s ! i)")
  case True
  with that [of None s] pf_inv_Suc [OF inv] show thesis by (simp add: pf_open_def)
next
  case go: False
  let ?d = "pf_devs s ! i" and ?h = "pf_heap s" and ?rd = "can_read fl" and ?wr = "can_write fl" and ?hist = "pf_hist s ! i"
  have pi: "pipe_state clean np n ?h ?d (files_on i (pf_files s)) ?hist" and fs: "list_all (\<lambda>f. pf_pipe f < SCULL_P_NR_DEVS) (open_files (pf_files s))"
    and len: "i < length (pf_devs s)" "i < length (pf_hist s)" using inv i by (simp_all add: pf_inv_def)
  have sz: "p_buffersize ?d = SCULL_P_BUFFER" "0 < p_buffersize ?d" "p_buffersize ?d < 2 ^ 31" using pi by (simp_all add: pipe_state_def SCULL_P_BUFFER_def)
  obtain v d' h' where o: "scull_p_open k (p_buffersize ?d) intr ?rd ?wr 0 ?d ?h = (v, d', h')" by (metis prod.exhaust)
  note mv = open_frame [OF o k sz(2,3)]
  let ?fs = "if v < 0 then pf_files s else pf_files s @ [Some \<lparr>pf_pipe = i, pf_flags = fl, pf_closing = False\<rparr>]"
  let ?hist' = "if v < 0 \<or> p_buffer ?d \<noteq> NULL then ?hist else ([], [])"
  have new: "pipe_state clean np (Suc n) h' d' (files_on i ?fs) ?hist'"
  proof (cases intr)
    case True
    with o pi show ?thesis by (auto simp: scull_p_open_def pipe_state_def)
  next
    case False
    note c = pipe_state_counts [OF pi b]
    have r: "p_sem d' = p_sem ?d" "if p_buffer ?d = NULL \<and> kmalloc k ?h (nat (p_buffersize ?d)) = NULL then v = - ENOMEM \<and> d' = ?d \<and> h' = ?h
      else v = 0 \<and> pipe_ok h' d' \<and> pipe_bytes h' d' = (if p_buffer ?d = NULL then [] else pipe_bytes ?h ?d) \<and>
        p_nreaders d' = p_nreaders ?d + of_bool ?rd \<and> p_nwriters d' = p_nwriters ?d + of_bool ?wr"
      using p_open_ok [OF k c(1) sz(2,3) c(2-5), of ?rd ?wr] o False by auto
    show ?thesis
    proof (cases "v < 0")
      case True
      with r(2) have "d' = ?d" "h' = ?h" by (auto split: if_splits)
      with pi True show ?thesis by (auto simp: pipe_state_def)
    next
      case False
      have fs': "files_on i ?fs = files_on i (pf_files s) @ [\<lparr>pf_pipe = i, pf_flags = fl, pf_closing = False\<rparr>]" using False by (simp add: files_on_def open_files_def)
      have ok: "pipe_ok h' d'" and by': "pipe_bytes h' d' = (if p_buffer ?d = NULL then [] else pipe_bytes ?h ?d)"
        and cs: "p_nreaders d' = p_nreaders ?d + of_bool ?rd" "p_nwriters d' = p_nwriters ?d + of_bool ?wr"
        using r(2) False by (auto split: if_splits)
      have hist: "fst ?hist' = snd ?hist' @ pipe_bytes h' d'" using pi False by' by (auto simp: pipe_state_def)
      have bd: "p_buffersize d' = SCULL_P_BUFFER" "p_buffer d' \<noteq> NULL" "int (length (pipe_bytes h' d')) < SCULL_P_BUFFER"
        using mv(2) sz(1) ok pipe_bytes_short [OF ok] by (simp_all add: pipe_ok_def)
      show ?thesis unfolding fs' using pi r(1) ok hist bd cs
        by (auto simp: pipe_state_def)
    qed
  qed
  have fs': "files_on j ?fs = files_on j (pf_files s)" if "j \<noteq> i" for j using that by (simp add: files_on_def open_files_def)
  have "list_all (\<lambda>f. pf_pipe f < SCULL_P_NR_DEVS) (open_files ?fs)" using fs i by (simp add: open_files_def)
  from pf_change [OF inv i mv(1) new fs' this] show thesis
    by (intro that) (use o sz(1) go in \<open>auto simp: pf_open_def scull_p_fops_def\<close>)
qed

text \<open>A file that can transfer keeps its pipe in use.\<close>

lemma pipe_in_use:
  assumes st: "pipe_state clean np n h d fs hist" and f: "f \<in> set fs" and rw: "can_read (pf_flags f) \<or> can_write (pf_flags f)"
  shows "pipe_ok h d"
proof -
  have "0 < n_readers fs \<or> 0 < n_writers fs" using f rw by (auto simp: n_readers_def n_writers_def length_greater_0_conv filter_empty_conv)
  then have "p_buffer d \<noteq> NULL" using pipe_stateD(3,4,6,7) [OF st] by (cases "p_buffer d = NULL") simp_all
  then show ?thesis by (rule pipe_stateD(8) [OF st])
qed

lemma lookup_state:
  assumes "pf_inv clean np h0 n s" and "pf_lookup fd s = Some f"
  shows "pf_pipe f < SCULL_P_NR_DEVS"
    and "pipe_state clean np n (pf_heap s) (pf_devs s ! pf_pipe f) (files_on (pf_pipe f) (pf_files s)) (pf_hist s ! pf_pipe f)"
    and "f \<in> set (files_on (pf_pipe f) (pf_files s))"
proof -
  have m: "f \<in> set (open_files (pf_files s))" by (rule files_on_split [OF assms(2)])
  then show i: "pf_pipe f < SCULL_P_NR_DEVS" using assms(1) by (auto simp: pf_inv_def list_all_iff)
  show "pipe_state clean np n (pf_heap s) (pf_devs s ! pf_pipe f) (files_on (pf_pipe f) (pf_files s)) (pf_hist s ! pf_pipe f)"
    using assms(1) i by (simp add: pf_inv_def)
  show "f \<in> set (files_on (pf_pipe f) (pf_files s))" using m by (simp add: files_on_def)
qed

text \<open>A call that leaves the files open as they were.\<close>

lemma pf_same_files:
  assumes "pf_inv clean np h0 n s" and "i < SCULL_P_NR_DEVS"
    and "buffer_moves (pf_heap s) (p_buffer (pf_devs s ! i)) h' (p_buffer d')" and "pipe_state clean np (Suc n) h' d' (files_on i (pf_files s)) hist'"
  shows "pf_inv clean np h0 (Suc n) (s\<lparr>pf_devs := (pf_devs s)[i := d'], pf_heap := h', pf_hist := (pf_hist s)[i := hist']\<rparr>)"
  using pf_change [OF assms] assms(1) by (simp add: pf_inv_def)

text \<open>A read or a write that finds the semaphore taken has not begun.\<close>

lemma read_call_taken: "p_sem d \<le> 0 \<Longrightarrow> read_call k fl n d h = Inr (Asleep ([], d))"
  by (simp add: read_call_def alone_simps rd_down_def)

lemma write_call_taken: "p_sem d \<le> 0 \<Longrightarrow> write_call k fl u n d h = Inr (Asleep (d, h))"
  by (simp add: write_call_def alone_simps wr_down_def)

lemma pf_read_ok:
  assumes inv: "pf_inv clean np h0 n s" and f: "pf_lookup fd s = Some f" and rd: "can_read (pf_flags f)"
  obtains v s' where "pf_read k f m s = Inr (v, s')" and "pf_inv clean np h0 (Suc n) s'"
proof (cases "p_sem (pf_devs s ! pf_pipe f) \<le> 0")
  case True
  with that [of None s] pf_inv_Suc [OF inv] show thesis by (simp add: pf_read_def scull_p_fops_def read_call_taken)
next
  case free: False
  let ?i = "pf_pipe f" let ?d = "pf_devs s ! ?i" and ?h = "pf_heap s" and ?hist = "pf_hist s ! ?i"
  note st = lookup_state [OF inv f]
  have ok: "pipe_ok ?h ?d" using pipe_in_use [OF st(2,3)] rd by simp
  have b: "p_buffer ?d \<noteq> NULL" using ok by (simp add: pipe_ok_def)
  note hist = pipe_stateD(9) [OF st(2) b]
  have sem: "0 < p_sem ?d" using free by simp
  note call = read_call_ok [OF ok sem, of k "pf_flags f" m]
  have step: "pf_inv clean np h0 (Suc n) (s\<lparr>pf_devs := (pf_devs s)[?i := d'], pf_hist := (pf_hist s)[?i := (fst ?hist, snd ?hist @ bs)]\<rparr>)"
    if "pipe_ok ?h d'" "pipe_bytes ?h ?d = bs @ pipe_bytes ?h d'" "\<exists>r. d' = ?d\<lparr>p_rp := r\<rparr>" for d' bs
  proof -
    from that(3) have "p_buffer d' = p_buffer ?d" "p_sem d' = p_sem ?d" "p_buffersize d' = p_buffersize ?d"
      "p_nreaders d' = p_nreaders ?d" "p_nwriters d' = p_nwriters ?d" by auto
    moreover then have "pipe_state clean np (Suc n) ?h d' (files_on ?i (pf_files s)) (fst ?hist, snd ?hist @ bs)"
      using that(1,2) hist by (intro pipe_state_used [OF st(2)]) simp_all
    ultimately show ?thesis using pf_same_files [OF inv st(1), of ?h d'] by simp
  qed
  have "\<exists>v s'. pf_read k f m s = Inr (v, s') \<and> pf_inv clean np h0 (Suc n) s'"
  proof (cases "pipe_bytes ?h ?d = [] \<and> pf_flags f \<noteq> O_NONBLOCK")
    case True
    then show ?thesis using pf_inv_Suc [OF inv] by (simp add: pf_read_def scull_p_fops_def call Let_def)
  next
    case False
    then have run: "pf_read k f m s = bindE (p_read_nonblock k False m ?d ?h) (\<lambda>(v, bs, d'). Inr (Some v, s\<lparr>pf_devs := (pf_devs s)[?i := d'],
        pf_hist := (pf_hist s)[?i := (fst ?hist, snd ?hist @ bs)]\<rparr>))"
      by (cases "p_read_nonblock k False m ?d ?h") (simp_all add: pf_read_def scull_p_fops_def call Let_def split: prod.splits)
    show ?thesis
    proof (rule p_read_nonblock_cases [OF ok, of k m])
      fix c d'
      assume "p_read_nonblock k False m ?d ?h = Inr (int c, take c (pipe_bytes ?h ?d), d')" "pipe_ok ?h d'"
        "pipe_bytes ?h d' = drop c (pipe_bytes ?h ?d)" "\<exists>r. d' = ?d\<lparr>p_rp := r\<rparr>"
      then show ?thesis using step [of d' "take c (pipe_bytes ?h ?d)"] by (simp add: run)
    next
      have "pf_inv clean np h0 (Suc n) (s\<lparr>pf_devs := (pf_devs s)[?i := ?d], pf_hist := (pf_hist s)[?i := (fst ?hist, snd ?hist @ [])]\<rparr>)"
        using pf_inv_Suc [OF inv] by simp
      then show "p_read_nonblock k False m ?d ?h = Inr (- EAGAIN, [], ?d) \<Longrightarrow> ?thesis" "p_read_nonblock k False m ?d ?h = Inr (- EFAULT, [], ?d) \<Longrightarrow> ?thesis"
        by (simp_all add: run)
    qed
  qed
  then show thesis using that by blast
qed

lemma write_frame:
  assumes "p_write_nonblock k intr u m d h = Inr (v, d', h')"
  shows "hp_qset h' = hp_qset h" "hp_ptrs h' = hp_ptrs h" "a \<noteq> p_buffer d \<Longrightarrow> fmlookup (hp_blk h') a = fmlookup (hp_blk h) a"
  using assms by (auto simp: p_write_nonblock_def p_write_body_def Let_def write_blk_def p_down_def bindE_def split: if_splits sum.splits prod.splits)

lemma pf_write_ok:
  assumes k: "kernel_ok k" and inv: "pf_inv clean np h0 n s" and f: "pf_lookup fd s = Some f" and wr: "can_write (pf_flags f)"
  obtains v s' where "pf_write k f u m s = Inr (v, s')" and "pf_inv clean np h0 (Suc n) s'"
proof (cases "p_sem (pf_devs s ! pf_pipe f) \<le> 0")
  case True
  with that [of None s] pf_inv_Suc [OF inv] show thesis by (simp add: pf_write_def scull_p_fops_def write_call_taken)
next
  case free: False
  let ?i = "pf_pipe f" let ?d = "pf_devs s ! ?i" and ?h = "pf_heap s" and ?hist = "pf_hist s ! ?i"
  note st = lookup_state [OF inv f]
  have ok: "pipe_ok ?h ?d" using pipe_in_use [OF st(2,3)] wr by simp
  have b: "p_buffer ?d \<noteq> NULL" using ok by (simp add: pipe_ok_def)
  note hist = pipe_stateD(9) [OF st(2) b]
  have sem: "0 < p_sem ?d" using free by simp
  note call = write_call_ok [OF ok sem, of k "pf_flags f" u m]
  have step: "pf_inv clean np h0 (Suc n) (s\<lparr>pf_devs := (pf_devs s)[?i := d'], pf_heap := h', pf_hist := (pf_hist s)[?i := (fst ?hist @ bs, snd ?hist)]\<rparr>)"
    if w: "p_write_nonblock k False u m ?d ?h = Inr (v, d', h')" and "pipe_ok h' d'" "pipe_bytes h' d' = pipe_bytes ?h ?d @ bs" "\<exists>w. d' = ?d\<lparr>p_wp := w\<rparr>" for v d' h' bs
  proof -
    from that(4) have same: "p_buffer d' = p_buffer ?d" "p_sem d' = p_sem ?d" "p_buffersize d' = p_buffersize ?d"
      "p_nreaders d' = p_nreaders ?d" "p_nwriters d' = p_nwriters ?d" by auto
    then have new: "pipe_state clean np (Suc n) h' d' (files_on ?i (pf_files s)) (fst ?hist @ bs, snd ?hist)"
      using that(2,3) hist by (intro pipe_state_used [OF st(2)]) simp_all
    have mv: "buffer_moves ?h (p_buffer ?d) h' (p_buffer d')" using same(1) b write_frame [OF w] by (auto simp: buffer_moves_def)
    show ?thesis by (rule pf_same_files [OF inv st(1) mv new])
  qed
  have "\<exists>v s'. pf_write k f u m s = Inr (v, s') \<and> pf_inv clean np h0 (Suc n) s'"
  proof (cases "length (pipe_bytes ?h ?d) = pipe_capacity ?d \<and> pf_flags f AND O_NONBLOCK = 0")
    case True
    then show ?thesis using pf_inv_Suc [OF inv] by (simp add: pf_write_def scull_p_fops_def call Let_def)
  next
    case False
    then have run: "pf_write k f u m s = bindE (p_write_nonblock k False u m ?d ?h) (\<lambda>(v, d', h'). Inr (Some v, s\<lparr>pf_devs := (pf_devs s)[?i := d'],
        pf_heap := h', pf_hist := (pf_hist s)[?i := (fst ?hist @ take (nat v) u, snd ?hist)]\<rparr>))"
      by (cases "p_write_nonblock k False u m ?d ?h") (simp_all add: pf_write_def scull_p_fops_def call Let_def split: prod.splits)
    have same: "\<exists>w. ?d = ?d\<lparr>p_wp := w\<rparr>" by (intro exI [of _ "p_wp ?d"]) simp
    show ?thesis
    proof (rule p_write_nonblock_cases [OF k ok, of u m])
      assume "p_write_nonblock k False u m ?d ?h = Inr (- EAGAIN, ?d, ?h)"
      with step [OF this ok _ same, of "[]"] show ?thesis by (simp add: run)
    next
      fix h'
      assume w: "p_write_nonblock k False u m ?d ?h = Inr (- EFAULT, ?d, h')" "pipe_ok h' ?d" "pipe_bytes h' ?d = pipe_bytes ?h ?d"
      with step [OF w(1,2) _ same, of "[]"] show ?thesis by (simp add: run)
    next
      fix c d' h'
      assume "p_write_nonblock k False u m ?d ?h = Inr (int c, d', h')" "pipe_ok h' d'"
        "pipe_bytes h' d' = pipe_bytes ?h ?d @ take c u" "\<exists>w. d' = ?d\<lparr>p_wp := w\<rparr>"
      with step [OF this] show ?thesis by (simp add: run)
    qed
  qed
  then show thesis using that by blast
qed

text \<open>Closing: interrupted, the counts stay; else they go down, and the buffer goes with the last of them.\<close>

lemma pipe_state_async [simp]: "pipe_state clean np n h (d\<lparr>p_async := q\<rparr>) fs hist = pipe_state clean np n h d fs hist"
  by (simp add: pipe_state_def)

lemma pipe_state_fewer:
  assumes "pipe_state clean np n h d (as @ f # bs) hist"
  shows "pipe_state False np (Suc n) h d (as @ bs) hist"
proof -
  have "n_readers (as @ bs) \<le> n_readers (as @ f # bs)" "n_writers (as @ bs) \<le> n_writers (as @ f # bs)" by simp_all
  with pipe_stateD(3,4) [OF assms] have "n_readers (as @ bs) \<le> p_nreaders d" "n_writers (as @ bs) \<le> p_nwriters d" by linarith+
  moreover have "p_nreaders d \<le> int (Suc n) \<and> p_nwriters d \<le> int (Suc n)" using pipe_stateD(5) [OF assms] by simp
  ultimately show ?thesis using assms unfolding pipe_state_def by blast
qed

lemma release_frame:
  assumes "scull_p_release helper intr rd wr d h = Inr (v, d', h')"
  shows "p_buffersize d' = p_buffersize d" and "p_buffer d' = NULL \<or> p_buffer d' = p_buffer d"
  using assms by (auto simp: scull_p_release_def scull_p_fasync_def Let_def bindE_def p_up_def p_down_def split: prod.splits if_splits sum.splits)

lemma release_state:
  assumes st: "pipe_state clean np n h d (as @ f # bs) hist" and b: "n < 2 ^ 30"
  obtains v d' h' where "scull_p_release helper intr (can_read (pf_flags f)) (can_write (pf_flags f)) d h = Inr (v, d', h')"
    and "pipe_state (clean \<and> \<not> intr) np (Suc n) h' d' (as @ bs) hist" and "buffer_moves h (p_buffer d) h' (p_buffer d')"
proof -
  let ?rd = "can_read (pf_flags f)" and ?wr = "can_write (pf_flags f)" and ?q = "snd (helper (- 1) False (p_async d))"
  note c = pipe_state_counts [OF st b] and D = pipe_stateD [OF st]
  have le: "of_bool ?rd + n_readers (as @ bs) \<le> p_nreaders d" "of_bool ?wr + n_writers (as @ bs) \<le> p_nwriters d" using D(3,4) by simp_all
  have nn: "0 \<le> n_readers (as @ bs)" "0 \<le> n_writers (as @ bs)" by (rule counts_nonneg)+
  consider (intr) "intr" | (idle) "\<not> intr" "p_buffer d = NULL" | (used) "\<not> intr" "pipe_ok h d" using c(1) by (cases intr) auto
  then show thesis
  proof cases
    case intr
    then show thesis using pipe_state_fewer [OF st]
      by (intro that [of "- ERESTARTSYS" "d\<lparr>p_async := ?q\<rparr>" h]) (simp_all add: scull_p_release_def scull_p_fasync_def split: prod.splits)
  next
    case idle
    have z: "p_nreaders d = 0" "p_nwriters d = 0" using D(6,7) idle(2) by blast+
    have no: "\<not> ?rd" "\<not> ?wr" "n_readers (as @ bs) = 0" "n_writers (as @ bs) = 0"
      using le nn unfolding z by (auto simp del: counts_simps simp: of_bool_def split: if_splits)
    then have "pipe_state clean np (Suc n) h d (as @ bs) hist" using st z idle(2) by (auto simp: pipe_state_def)
    with idle z no(1,2) show thesis
      by (intro that [of 0 "d\<lparr>p_async := ?q\<rparr>" h]) (simp_all add: scull_p_release_def scull_p_fasync_def free_blk_def p_down_def p_up_def s32_def split: prod.splits)
  next
    case used
    obtain d' h' where r: "scull_p_release helper False ?rd ?wr d h = Inr (0, d', h')" "p_sem d' = p_sem d"
        "p_nreaders d' = p_nreaders d - of_bool ?rd" "p_nwriters d' = p_nwriters d - of_bool ?wr"
      and p: "if p_nreaders d' + p_nwriters d' = 0 then p_buffer d' = NULL \<and> h' = h\<lparr>hp_blk := fmdrop (p_buffer d) (hp_blk h)\<rparr>
        else h' = h \<and> pipe_ok h d' \<and> pipe_bytes h d' = pipe_bytes h d"
      using p_release_ok [OF used(2), of ?rd ?wr helper] le nn c(3,5) by auto
    have b: "p_buffer d \<noteq> NULL" using used(2) by (simp add: pipe_ok_def)
    note frame = release_frame [OF r(1)]
    have pos: "n_readers (as @ bs) \<le> p_nreaders d'" "n_writers (as @ bs) \<le> p_nwriters d'" using le r(3,4) by simp_all
    have "if p_buffer d' = NULL then p_nreaders d' = 0 \<and> p_nwriters d' = 0 else pipe_ok h' d' \<and> fst hist = snd hist @ pipe_bytes h' d'"
      using p pos nn D(9) [OF b] by (auto simp del: counts_simps split: if_splits simp: pipe_ok_def)
    moreover have "clean \<longrightarrow> p_nreaders d' = n_readers (as @ bs) \<and> p_nwriters d' = n_writers (as @ bs) \<and> (as @ bs = [] \<longrightarrow> p_buffer d' = NULL)"
      using st r(3,4) p by (auto simp: pipe_state_def split: if_splits)
    moreover have "\<exists>rest. fst hist = snd hist @ rest \<and> int (length rest) < SCULL_P_BUFFER" using st unfolding pipe_state_def by blast
    moreover have "0 \<le> p_sem d' \<and> (np \<longrightarrow> p_sem d' = 1)" "p_buffersize d' = SCULL_P_BUFFER" "p_nreaders d' \<le> int (Suc n)" "p_nwriters d' \<le> int (Suc n)"
      using D(1,2,5,10) r(2-4) frame(1) by auto
    ultimately have "pipe_state (clean \<and> \<not> intr) np (Suc n) h' d' (as @ bs) hist" using pos unfolding pipe_state_def by blast
    moreover have "buffer_moves h (p_buffer d) h' (p_buffer d')"
      using p frame(2) b by (auto simp: buffer_moves_def pipe_ok_def split: if_splits)
    ultimately show thesis using r(1) used(1) by (intro that [of 0 d' h']) simp_all
  qed
qed

text \<open>A file that begins to close is still one of the files of its pipe.\<close>

lemma files_on_closing:
  assumes "pf_lookup fd s = Some f"
  obtains as bs where "files_on (pf_pipe f) (pf_files s) = as @ f # bs"
    and "files_on (pf_pipe f) ((pf_files s)[fd := Some (f\<lparr>pf_closing := c\<rparr>)]) = as @ f\<lparr>pf_closing := c\<rparr> # bs"
    and "\<And>j. j \<noteq> pf_pipe f \<Longrightarrow> files_on j ((pf_files s)[fd := Some (f\<lparr>pf_closing := c\<rparr>)]) = files_on j (pf_files s)"
    and "set (open_files ((pf_files s)[fd := Some (f\<lparr>pf_closing := c\<rparr>)])) \<subseteq> insert (f\<lparr>pf_closing := c\<rparr>) (set (open_files (pf_files s)))"
proof -
  have fd: "fd < length (pf_files s)" "pf_files s ! fd = Some f" using assms by (auto simp: pf_lookup_def split: if_splits)
  obtain as bs where "open_files (pf_files s) = as @ f # bs" "\<And>f'. open_files ((pf_files s)[fd := Some f']) = as @ f' # bs"
    by (rule open_files_split [OF fd]) blast
  then show thesis by (intro that [of "filter (\<lambda>g. pf_pipe g = pf_pipe f) as" "filter (\<lambda>g. pf_pipe g = pf_pipe f) bs"]) (auto simp: files_on_def)
qed

lemma release_interrupted:
  "\<exists>q. scull_p_release helper True rd wr d h = Inr (- ERESTARTSYS, d\<lparr>p_async := q\<rparr>, h)"
  by (simp add: scull_p_release_def scull_p_fasync_def split: prod.splits) blast

lemma pf_close_waits:
  assumes inv: "pf_inv clean np h0 n s" and f: "pf_lookup fd s = Some f" and w: "must_wait intr (pf_devs s ! pf_pipe f)"
  obtains s' where "pf_close helper fd f intr s = Inr (None, s')" and "pf_inv (clean \<and> \<not> intr) np h0 (Suc n) s'"
proof -
  let ?i = "pf_pipe f" and ?f = "f\<lparr>pf_closing := True\<rparr>" let ?d = "pf_devs s ! ?i" and ?fs = "(pf_files s)[fd := Some ?f]"
  obtain as bs where fs: "files_on ?i (pf_files s) = as @ f # bs" "files_on ?i ?fs = as @ ?f # bs"
      "\<And>j. j \<noteq> ?i \<Longrightarrow> files_on j ?fs = files_on j (pf_files s)" "set (open_files ?fs) \<subseteq> insert ?f (set (open_files (pf_files s)))"
    by (rule files_on_closing [OF f]) blast
  note st = lookup_state [OF inv f]
  obtain q where q: "scull_p_release (if pf_closing f then (\<lambda>fd on q. (0, q)) else helper) True (can_read (pf_flags f)) (can_write (pf_flags f)) ?d (pf_heap s) =
      Inr (- ERESTARTSYS, ?d\<lparr>p_async := q\<rparr>, pf_heap s)" using release_interrupted by blast
  have "n_readers (as @ ?f # bs) = n_readers (as @ f # bs)" "n_writers (as @ ?f # bs) = n_writers (as @ f # bs)" by simp_all
  then have "pipe_state clean np n (pf_heap s) (?d\<lparr>p_async := q\<rparr>) (files_on ?i ?fs) (pf_hist s ! ?i)"
    using st(2) unfolding fs(1,2) by (simp only: pipe_state_async pipe_state_def) simp
  then have new: "pipe_state (clean \<and> \<not> intr) np (Suc n) (pf_heap s) (?d\<lparr>p_async := q\<rparr>) (files_on ?i ?fs) (pf_hist s ! ?i)"
    by (rule pipe_state_elsewhere) simp_all
  have "list_all (\<lambda>f. pf_pipe f < SCULL_P_NR_DEVS) (open_files ?fs)" using inv fs(4) st(1) by (auto simp: pf_inv_def list_all_iff)
  from pf_change [OF inv st(1) _ new fs(3) this] show thesis
    by (intro that) (use w q in \<open>auto simp: pf_close_def scull_p_fops_def Let_def\<close>)
qed

lemma pf_close_ok:
  assumes inv: "pf_inv clean np h0 n s" and f: "pf_lookup fd s = Some f" and b: "n < 2 ^ 30"
  obtains v s' where "pf_close helper fd f intr s = Inr (v, s')" and "pf_inv (clean \<and> \<not> intr) np h0 (Suc n) s'"
proof (cases "must_wait intr (pf_devs s ! pf_pipe f)")
  case True
  from pf_close_waits [OF inv f True, of helper] that show thesis by blast
next
  case False
  let ?i = "pf_pipe f" and ?helper = "if pf_closing f then (\<lambda>fd on q. (0, q)) else helper" let ?d = "pf_devs s ! ?i" and ?fs = "(pf_files s)[fd := None]"
  obtain as bs where fs: "files_on ?i (pf_files s) = as @ f # bs" "files_on ?i ?fs = as @ bs"
      "\<And>j. j \<noteq> ?i \<Longrightarrow> files_on j ?fs = files_on j (pf_files s)" "set (open_files ?fs) \<subseteq> set (open_files (pf_files s))"
    by (rule files_on_split [OF f]) blast
  note st = lookup_state [OF inv f]
  obtain v d' h' where r: "scull_p_release ?helper intr (can_read (pf_flags f)) (can_write (pf_flags f)) ?d (pf_heap s) = Inr (v, d', h')"
    and new: "pipe_state (clean \<and> \<not> intr) np (Suc n) h' d' (files_on ?i ?fs) (pf_hist s ! ?i)" and mv: "buffer_moves (pf_heap s) (p_buffer ?d) h' (p_buffer d')"
    using release_state [OF st(2) [unfolded fs(1)] b] unfolding fs(2) by metis
  have "list_all (\<lambda>f. pf_pipe f < SCULL_P_NR_DEVS) (open_files ?fs)" using inv fs(4) by (auto simp: pf_inv_def list_all_iff)
  from pf_change [OF inv st(1) mv new fs(3) this] r False show thesis
    by (intro that) (auto simp: pf_close_def scull_p_fops_def Let_def)
qed

text \<open>A poll: it takes or releases the semaphore, and no more.\<close>

lemma pf_poll_ok:
  assumes inv: "pf_inv clean np h0 n s" and f: "pf_lookup fd s = Some f"
  obtains v s' where "pf_poll f intr s = Inr (v, s')" and "pf_inv clean False h0 (Suc n) s'"
proof (cases "must_wait intr (pf_devs s ! pf_pipe f)")
  case True
  with that [of None s] pf_inv_weaken [OF inv, of "Suc n"] show thesis by (simp add: pf_poll_def)
next
  case False
  let ?d = "pf_devs s ! pf_pipe f" and ?h = "pf_heap s"
  note st = lookup_state [OF inv f]
  have "\<exists>z. spacefree ?d = Inr z" using pipe_stateD(2) [OF st(2)] by (simp add: spacefree_def cmod_def SCULL_P_BUFFER_def)
  then obtain bits d' where p: "scull_p_poll intr ?d = Inr (bits, d')" and d': "d' = p_up ?d \<or> d' = p_down ?d \<and> 0 < p_sem ?d"
    using False by (cases intr) (auto simp: scull_p_poll_def must_wait_def Let_def)
  have eq: "d' = ?d\<lparr>p_sem := p_sem d'\<rparr>" and sem: "0 \<le> p_sem d'" using d' pipe_stateD(1) [OF st(2)] by (auto simp: p_up_def p_down_def)
  have "pipe_state clean False (Suc n) ?h (?d\<lparr>p_sem := m\<rparr>) (files_on (pf_pipe f) (pf_files s)) (pf_hist s ! pf_pipe f)" if "0 \<le> m" for m
  proof -
    have "pipe_ok ?h (?d\<lparr>p_sem := m\<rparr>) = pipe_ok ?h ?d" "pipe_bytes ?h (?d\<lparr>p_sem := m\<rparr>) = pipe_bytes ?h ?d" by (simp_all add: pipe_ok_def pipe_bytes_def split: option.split)
    with st(2) that show ?thesis by (auto simp: pipe_state_def)
  qed
  from this [OF sem] eq have new: "pipe_state clean False (Suc n) ?h d' (files_on (pf_pipe f) (pf_files s)) (pf_hist s ! pf_pipe f)" by simp
  have "buffer_moves ?h (p_buffer ?d) ?h (p_buffer d')" using d' by (auto simp: p_up_def p_down_def)
  from pf_change [where fs = "pf_files s", OF inv st(1) this new] inv
  have "pf_inv clean False h0 (Suc n) (s\<lparr>pf_devs := (pf_devs s)[pf_pipe f := d']\<rparr>)" by (simp add: pf_inv_def)
  with p False show thesis by (intro that) (auto simp: pf_poll_def scull_p_fops_def Let_def)
qed

lemma pf_async [simp]: "pf_inv clean np h0 n (s\<lparr>pf_globals := g, pf_user := u\<rparr>) = pf_inv clean np h0 n s"
  by (simp add: pf_inv_def)

lemma pf_fasync_ok:
  assumes inv: "pf_inv clean np h0 n s" and f: "pf_lookup fd s = Some f"
  shows "pf_inv clean np h0 (Suc n) (s\<lparr>pf_devs := (pf_devs s)[pf_pipe f := (pf_devs s ! pf_pipe f)\<lparr>p_async := q\<rparr>]\<rparr>)"
proof -
  note st = lookup_state [OF inv f]
  have "pipe_state clean np (Suc n) (pf_heap s) ((pf_devs s ! pf_pipe f)\<lparr>p_async := q\<rparr>) (files_on (pf_pipe f) (pf_files s)) (pf_hist s ! pf_pipe f)"
    using pipe_state_elsewhere [OF st(2)] by simp
  from pf_same_files [OF inv st(1) _ this] show ?thesis by simp
qed

section \<open>Any sequence of calls\<close>

fun undisturbed :: "pcall \<Rightarrow> bool" where
  \<comment> \<open>not a close that a signal interrupts\<close>
  "undisturbed (P_close fd intr) = (\<not> intr)"
| "undisturbed _ = True"

fun on_pipe :: "pcall \<Rightarrow> bool" where
  "on_pipe (P_open i intr fl) = (i < SCULL_P_NR_DEVS)"
| "on_pipe _ = True"

fun no_poll :: "pcall \<Rightarrow> bool" where
  "no_poll (P_poll fd intr) = False"
| "no_poll _ = True"

lemma on_file_ok:
  assumes "\<And>f. pf_lookup fd s = Some f \<Longrightarrow> \<exists>v s'. call f = Inr (v, s') \<and> P s'" and "P s"
  shows "\<exists>v s'. valued (on_file fd call s) = Inr (v, s') \<and> P s'"
  using assms by (cases "pf_lookup fd s") (auto simp: on_file_def valued_def)

lemma pf_call_ok:
  assumes k: "kernel_ok k" and inv: "pf_inv clean np h0 n s" and c: "on_pipe c" and b: "n < 2 ^ 30"
  shows "\<exists>v s'. pf_call k a helper c s = Inr (v, s') \<and> pf_inv (clean \<and> undisturbed c) (np \<and> no_poll c) h0 (Suc n) s'"
proof (cases c)
  case (P_open i intr fl)
  with c have "i < SCULL_P_NR_DEVS" by simp
  from pf_open_ok [OF k inv this b, of intr fl] obtain v s' where "pf_open k i intr fl s = (v, s')" "pf_inv clean np h0 (Suc n) s'" .
  with P_open show ?thesis by (simp add: valued_def)
next
  case (P_read fd m)
  show ?thesis unfolding P_read pf_call.simps undisturbed.simps no_poll.simps simp_thms
  proof (rule on_file_ok [where P = "pf_inv clean np h0 (Suc n)", OF _ pf_inv_Suc [OF inv]])
    fix f assume f: "pf_lookup fd s = Some f"
    show "\<exists>v s'. (if can_read (pf_flags f) then pf_read k f m s else Inr (Some (- EBADF), s)) = Inr (v, s') \<and> pf_inv clean np h0 (Suc n) s'"
      using pf_inv_Suc [OF inv] by (auto intro: pf_read_ok [OF inv f, of k m])
  qed
next
  case (P_write fd u m)
  show ?thesis unfolding P_write pf_call.simps undisturbed.simps no_poll.simps simp_thms
  proof (rule on_file_ok [where P = "pf_inv clean np h0 (Suc n)", OF _ pf_inv_Suc [OF inv]])
    fix f assume f: "pf_lookup fd s = Some f"
    show "\<exists>v s'. (if can_write (pf_flags f) then pf_write k f u m s else Inr (Some (- EBADF), s)) = Inr (v, s') \<and> pf_inv clean np h0 (Suc n) s'"
      using pf_inv_Suc [OF inv] by (auto intro: pf_write_ok [OF k inv f, of u m])
  qed
next
  case (P_ioctl fd cap cmd arg)
  show ?thesis unfolding P_ioctl pf_call.simps undisturbed.simps no_poll.simps simp_thms
    by (rule on_file_ok [where P = "pf_inv clean np h0 (Suc n)"]) (use pf_inv_Suc [OF inv] in \<open>auto split: prod.splits\<close>)
next
  case (P_poll fd intr)
  have "pf_inv clean False h0 (Suc n) s" by (rule pf_inv_weaken [OF inv]) simp_all
  moreover have "\<exists>v s'. pf_poll f intr s = Inr (v, s') \<and> pf_inv clean False h0 (Suc n) s'" if "pf_lookup fd s = Some f" for f
    using pf_poll_ok [OF inv that, of intr] by blast
  ultimately show ?thesis using P_poll by (simp split: option.split)
next
  case (P_fasync fd on)
  show ?thesis unfolding P_fasync pf_call.simps undisturbed.simps no_poll.simps simp_thms
    by (rule on_file_ok [where P = "pf_inv clean np h0 (Suc n)"]) (use pf_inv_Suc [OF inv] pf_fasync_ok [OF inv] in \<open>auto simp: scull_p_fops_def scull_p_fasync_def split: prod.splits\<close>)
next
  case (P_seek fd)
  show ?thesis unfolding P_seek pf_call.simps undisturbed.simps no_poll.simps simp_thms
    by (rule on_file_ok [where P = "pf_inv clean np h0 (Suc n)"]) (use pf_inv_Suc [OF inv] in auto)
next
  case (P_close fd intr)
  have "pf_inv (clean \<and> \<not> intr) np h0 (Suc n) s" by (rule pf_inv_weaken [OF inv]) simp_all
  moreover have "\<exists>v s'. pf_close helper fd f intr s = Inr (v, s') \<and> pf_inv (clean \<and> \<not> intr) np h0 (Suc n) s'" if "pf_lookup fd s = Some f" for f
    using pf_close_ok [OF inv that b, of helper intr] by blast
  ultimately show ?thesis unfolding P_close pf_call.simps undisturbed.simps no_poll.simps simp_thms
    by (cases "pf_lookup fd s") (fastforce simp: valued_def)+
qed

lemma run_pf_ok:
  assumes "kernel_ok k" and "pf_inv clean np h0 n s" and "list_all on_pipe cs" and "n + length cs < 2 ^ 30"
  shows "\<exists>vs s'. run_pf k a helper cs s = Inr (vs, s') \<and> pf_inv (clean \<and> list_all undisturbed cs) (np \<and> list_all no_poll cs) h0 (n + length cs) s'"
  using assms(2-4)
proof (induction cs arbitrary: clean np n s)
  case (Cons c cs)
  have c: "on_pipe c" and cs: "list_all on_pipe cs" and b: "n < 2 ^ 30" "Suc n + length cs < 2 ^ 30" using Cons.prems(2,3) by simp_all
  obtain v s1 where 1: "pf_call k a helper c s = Inr (v, s1)" "pf_inv (clean \<and> undisturbed c) (np \<and> no_poll c) h0 (Suc n) s1"
    using pf_call_ok [OF assms(1) Cons.prems(1) c b(1)] by blast
  from Cons.IH [OF 1(2) cs b(2)] 1(1) show ?case by (auto simp: conj_assoc)
qed simp

lemma pf_start:
  assumes "devices_granted ap" and "scull_p_init SCULL_P_BUFFER ap pm0 = (r, pm)"
  shows "pf_inv True True h 0 (pipe_files pm h g u)" and "pm_devices pm = Array_live (replicate SCULL_P_NR_DEVS (init_pipe SCULL_P_BUFFER))"
proof -
  have s: "snd (setup_cdevs (a_cdev ap) 0 SCULL_P_NR_DEVS)"
    using assms(1) setup_cdevs_all [of 0 SCULL_P_NR_DEVS "a_cdev ap"] by (simp add: devices_granted_def scull_nr_devs_def SCULL_P_NR_DEVS_def)
  then show live: "pm_devices pm = Array_live (replicate SCULL_P_NR_DEVS (init_pipe SCULL_P_BUFFER))"
    using assms by (auto simp: scull_p_init_def devices_granted_def Let_def split: prod.splits)
  have "pipe_state True True 0 h (init_pipe SCULL_P_BUFFER) [] ([], [])"
    by (simp add: pipe_state_def init_pipe_def SCULL_P_BUFFER_def)
  then show "pf_inv True True h 0 (pipe_files pm h g u)"
    by (simp add: pf_inv_def pipe_files_def live apart_def bufs_def files_on_def open_files_def without_bufs_def init_pipe_def)
qed

lemma pf_pipes_own:
  assumes inv: "pf_inv clean np h0 n s"
  shows "pipes_own (pf_heap s) (pf_devs s)"
proof -
  let ?ds = "pf_devs s"
  have "distinct (bufs ds)" if "apart ds" for ds
    using that
  proof (induction ds)
    case (Cons d ds)
    have "p_buffer d \<noteq> p_buffer (ds ! j)" if "j < length ds" "p_buffer d \<noteq> NULL" for j
      using Cons.prems that unfolding apart_def by (elim allE [of _ 0]) (auto dest: spec [of _ "Suc j"])
    then have "p_buffer d \<noteq> NULL \<Longrightarrow> p_buffer d \<notin> set (bufs ds)" unfolding mem_bufs by metis
    moreover have "apart ds" using Cons.prems unfolding apart_def by (metis Suc_less_eq length_Cons nth_Cons_Suc old.nat.inject)
    ultimately show ?case using Cons.IH by (simp add: bufs_def)
  qed (simp add: bufs_def)
  moreover have "\<exists>bs. fmlookup (hp_blk (pf_heap s)) b = Some (By_kmalloc, bs)" if b: "b \<in> set (bufs ?ds)" for b
  proof -
    obtain j where j: "j < length ?ds" "p_buffer (?ds ! j) = b" "b \<noteq> NULL" using b by (auto simp: mem_bufs)
    have "pipe_ok (pf_heap s) (?ds ! j)" using inv j by (intro pipe_stateD(8)) (auto simp: pf_inv_def)
    then show ?thesis using j(2) by (auto elim: pipe_okE)
  qed
  ultimately show ?thesis using inv by (simp add: pipes_own_def pf_inv_def list_all_iff)
qed

lemma close_interrupted:
  assumes "pf_lookup fd s = Some f"
  obtains q where "pf_close helper fd f True s = Inr (Some (- ERESTARTSYS), s\<lparr>pf_devs := (pf_devs s)[pf_pipe f := (pf_devs s ! pf_pipe f)\<lparr>p_async := q\<rparr>],
    pf_files := (pf_files s)[fd := None]\<rparr>)"
  using that release_interrupted [of "if pf_closing f then (\<lambda>fd on q. (0, q)) else helper" "can_read (pf_flags f)" "can_write (pf_flags f)"
    "pf_devs s ! pf_pipe f" "pf_heap s"]
  by (auto simp: pf_close_def scull_p_fops_def must_wait_def Let_def)

lemma open_interrupted:
  assumes "pf_inv clean np h0 n s" and "i < SCULL_P_NR_DEVS"
  shows "pf_open k i True fl s = (Some (- ERESTARTSYS), s)"
  using assms by (simp add: pf_open_def must_wait_def scull_p_fops_def scull_p_open_def)

lemma open_result:
  assumes k: "kernel_ok k" and inv: "pf_inv clean np h0 n s" and i: "i < SCULL_P_NR_DEVS" and b: "n < 2 ^ 30"
  shows "if p_sem (pf_devs s ! i) = 0 then pf_open k i False fl s = (None, s)
    else if p_buffer (pf_devs s ! i) = NULL \<and> kmalloc k (pf_heap s) (nat SCULL_P_BUFFER) = NULL then pf_open k i False fl s = (Some (- ENOMEM), s)
    else fst (pf_open k i False fl s) = Some (int (length (pf_files s)))"
proof (cases "p_sem (pf_devs s ! i) = 0")
  case True
  then show ?thesis by (simp add: pf_open_def must_wait_def)
next
  case False
  let ?d = "pf_devs s ! i" and ?h = "pf_heap s"
  have pi: "pipe_state clean np n ?h ?d (files_on i (pf_files s)) (pf_hist s ! i)" using inv i by (simp add: pf_inv_def)
  have sz: "p_buffersize ?d = SCULL_P_BUFFER" "0 < p_buffersize ?d" "p_buffersize ?d < 2 ^ 31" using pipe_stateD(2) [OF pi] by (simp_all add: SCULL_P_BUFFER_def)
  have go: "\<not> must_wait False ?d" using pipe_stateD(1) [OF pi] False by (simp add: must_wait_def)
  note c = pipe_state_counts [OF pi b]
  obtain v d' h' where o: "scull_p_open k SCULL_P_BUFFER False (can_read fl) (can_write fl) 0 ?d ?h = (v, d', h')" by (metis prod.exhaust)
  then have "if p_buffer ?d = NULL \<and> kmalloc k ?h (nat SCULL_P_BUFFER) = NULL then v = - ENOMEM \<and> d' = ?d \<and> h' = ?h else v = 0"
    using p_open_ok [OF k c(1) sz(2,3) c(2-5), of "can_read fl" "can_write fl"] unfolding sz(1) by (auto split: if_splits)
  with o go False show ?thesis by (auto simp: pf_open_def scull_p_fops_def Let_def split: if_splits)
qed

section \<open>Theorem\<close>

text \<open>
  C13. The pipes of the module scull, from loading to unloading: after \<open>scull_p_init\<close> has set them up, any sequence of calls through the table
  \<open>scull_p_fops\<close>, polls included, on files opened and closed in any order, one call at a time, some of them asleep or interrupted, runs without
  a fault. For each pipe, what was read since it got its buffer is a prefix of what was written, with fewer than 1000 bytes between them.
  An open that a signal interrupts returns \<open>-ERESTARTSYS\<close> without effect. Any other waits, also without effect, if the semaphore is taken, which only polls leave
  behind: without them every semaphore is 1 after the calls. If it is free, the open fails only for want of memory for a buffer, and without effect.
  If no close was interrupted, the reader and writer counts are the numbers of files that are open or still closing, and a pipe without files
  has no buffer. A close that a signal interrupts takes the file away and leaves counts and buffer as they are, so
  that the buffer outlives the files; but \<open>scull_p_cleanup\<close> frees whatever buffers are left and nothing else, in every case.
\<close>

theorem pipe_files_safe:
  assumes "kernel_ok k" and "devices_granted ap" and "scull_p_init SCULL_P_BUFFER ap pm0 = (r, pm)"
    and "list_all on_pipe cs" and "length cs < 2 ^ 30"
  shows "\<exists>vs s. run_pf k a helper cs (pipe_files pm h g u) = Inr (vs, s) \<and>
    (\<forall>i<SCULL_P_NR_DEVS. \<exists>rest. fst (pf_hist s ! i) = snd (pf_hist s ! i) @ rest \<and> int (length rest) < SCULL_P_BUFFER) \<and>
    (list_all undisturbed cs \<longrightarrow> (\<forall>i<SCULL_P_NR_DEVS. p_nreaders (pf_devs s ! i) = n_readers (files_on i (pf_files s)) \<and>
       p_nwriters (pf_devs s ! i) = n_writers (files_on i (pf_files s)) \<and> (files_on i (pf_files s) = [] \<longrightarrow> p_buffer (pf_devs s ! i) = NULL))) \<and>
    (list_all no_poll cs \<longrightarrow> (\<forall>i<SCULL_P_NR_DEVS. p_sem (pf_devs s ! i) = 1)) \<and>
    (\<forall>fd f. pf_lookup fd s = Some f \<longrightarrow> (\<exists>q. pf_close helper fd f True s = Inr (Some (- ERESTARTSYS), s\<lparr>
       pf_devs := (pf_devs s)[pf_pipe f := (pf_devs s ! pf_pipe f)\<lparr>p_async := q\<rparr>], pf_files := (pf_files s)[fd := None]\<rparr>))) \<and>
    (\<forall>i<SCULL_P_NR_DEVS. \<forall>fl. pf_open k i True fl s = (Some (- ERESTARTSYS), s) \<and>
       (if p_sem (pf_devs s ! i) = 0 then pf_open k i False fl s = (None, s)
        else if p_buffer (pf_devs s ! i) = NULL \<and> kmalloc k (pf_heap s) (nat SCULL_P_BUFFER) = NULL then pf_open k i False fl s = (Some (- ENOMEM), s)
        else fst (pf_open k i False fl s) = Some (int (length (pf_files s))))) \<and>
    (\<exists>pm'. scull_p_cleanup (pm\<lparr>pm_devices := Array_live (pf_devs s)\<rparr>) (pf_heap s) = Inr (pm', h))"
proof -
  have start: "pf_inv True True h 0 (pipe_files pm h g u)" by (rule pf_start [OF assms(2,3)])
  obtain vs s where run: "run_pf k a helper cs (pipe_files pm h g u) = Inr (vs, s)"
    and inv: "pf_inv (list_all undisturbed cs) (list_all no_poll cs) h (length cs) s"
    using run_pf_ok [OF assms(1) start assms(4), of a helper] assms(5) by auto
  have "\<exists>pm'. scull_p_cleanup (pm\<lparr>pm_devices := Array_live (pf_devs s)\<rparr>) (pf_heap s) = Inr (pm', h)"
    using free_buffers_ok [OF pf_pipes_own [OF inv]] inv by (simp add: scull_p_cleanup_def pf_inv_def)
  moreover have "\<exists>rest. fst (pf_hist s ! i) = snd (pf_hist s ! i) @ rest \<and> int (length rest) < SCULL_P_BUFFER"
    and "list_all undisturbed cs \<Longrightarrow> p_nreaders (pf_devs s ! i) = n_readers (files_on i (pf_files s)) \<and>
       p_nwriters (pf_devs s ! i) = n_writers (files_on i (pf_files s)) \<and> (files_on i (pf_files s) = [] \<longrightarrow> p_buffer (pf_devs s ! i) = NULL)"
    and "list_all no_poll cs \<Longrightarrow> p_sem (pf_devs s ! i) = 1"
    if "i < SCULL_P_NR_DEVS" for i
    using inv that unfolding pf_inv_def pipe_state_def by blast+
  moreover have "\<exists>q. pf_close helper fd f True s = Inr (Some (- ERESTARTSYS), s\<lparr>
       pf_devs := (pf_devs s)[pf_pipe f := (pf_devs s ! pf_pipe f)\<lparr>p_async := q\<rparr>], pf_files := (pf_files s)[fd := None]\<rparr>)"
    if "pf_lookup fd s = Some f" for fd f
    by (rule close_interrupted [OF that, of helper]) blast
  moreover note open_interrupted [OF inv] open_result [OF assms(1) inv _ assms(5)]
  ultimately show ?thesis using run by blast
qed

definition no_fasync :: "int \<Rightarrow> bool \<Rightarrow> bool \<Rightarrow> int \<times> bool" where
  "no_fasync fd on q = (0, False)"

theorem pipe_files_safe_witness:
  "\<exists>r pm vs s pm'. scull_p_init SCULL_P_BUFFER demo_answers (sm_pipe scull_module_init) = (r, pm) \<and>
    run_pf simple_kernel mapped_user no_fasync [P_open 1 False 2, P_write 0 [7, 8] 2, P_open 1 False 0x800, P_poll 1 False, P_read 1 5, P_close 1 False,
      P_poll 0 True, P_read 0 1, P_close 1 False, P_close 0 False] (pipe_files pm empty_heap scull_globals_init Map.empty) = Inr (vs, s) \<and>
    p_nreaders (pf_devs s ! 1) = n_readers (files_on 1 (pf_files s)) \<and>
    scull_p_cleanup (pm\<lparr>pm_devices := Array_live (pf_devs s)\<rparr>) (pf_heap s) = Inr (pm', empty_heap)"
proof -
  let ?cs = "[P_open 1 False 2, P_write 0 [7, 8] 2, P_open 1 False 0x800, P_poll 1 False, P_read 1 5, P_close 1 False,
      P_poll 0 True, P_read 0 1, P_close 1 False, P_close 0 False]"
  obtain r pm where i: "scull_p_init SCULL_P_BUFFER demo_answers (sm_pipe scull_module_init) = (r, pm)" by (metis prod.exhaust)
  have cs: "list_all on_pipe ?cs" "length ?cs < 2 ^ 30" and u: "list_all undisturbed ?cs" and one: "1 < SCULL_P_NR_DEVS" by (simp_all add: SCULL_P_NR_DEVS_def)
  from pipe_files_safe [OF simple_kernel_ok demo_answers_good(2) i cs, of mapped_user no_fasync empty_heap scull_globals_init Map.empty]
  show ?thesis using u one i by metis
qed

text \<open>A buffer that outlives its files: one file, closed by a process that a signal interrupts.\<close>

lemma interrupted_close_keeps_buffer:
  assumes "pm_devices pm = Array_live (replicate SCULL_P_NR_DEVS (init_pipe SCULL_P_BUFFER))"
  shows "\<exists>vs s. run_pf simple_kernel mapped_user no_fasync [P_open 1 False 2, P_close 0 True] (pipe_files pm empty_heap scull_globals_init Map.empty) = Inr (vs, s) \<and>
    open_files (pf_files s) = [] \<and> p_buffer (pf_devs s ! 1) \<noteq> NULL \<and> p_nreaders (pf_devs s ! 1) = 1"
  using assms
  by (simp add: pipe_files_def pf_open_def pf_close_def valued_def must_wait_def scull_p_fops_def Let_def pf_lookup_def scull_p_open_def scull_p_release_def
      scull_p_fasync_def no_fasync_def init_pipe_def new_blk_def simple_kernel_def next_addr_def
      open_files_def SCULL_P_NR_DEVS_def SCULL_P_BUFFER_def p_up_def p_down_def s32_def can_read_def can_write_def O_ACCMODE_def)

end
