(* ===== verification/Small_Progs.thy ===== *)
theory Small_Progs
  imports Printf
begin

text \<open>
  The programs \<^verbatim>\<open>setlevel.c\<close>, \<^verbatim>\<open>setconsole.c\<close> and \<^verbatim>\<open>hello.c\<close> of
  \<^verbatim>\<open>misc_progs/\<close>, and the module \<^verbatim>\<open>hello/\<close>. A run is the list of what the program asks the
  system for, and its exit status; what the system answers is a parameter.
\<close>

section \<open>atoi\<close>

definition isspace :: "char \<Rightarrow> bool" where
  "isspace c \<longleftrightarrow> c \<in> {CHR '' '', CHR 0x09, CHR 0x0A, CHR 0x0B, CHR 0x0C, CHR 0x0D}"

definition isdigit :: "char \<Rightarrow> bool" where
  "isdigit c \<longleftrightarrow> 48 \<le> (of_char c :: nat) \<and> (of_char c :: nat) \<le> 57"

fun digits_value :: "nat \<Rightarrow> string \<Rightarrow> nat" where
  "digits_value acc [] = acc"
| "digits_value acc (c # cs) = digits_value (10 * acc + (of_char c - 48)) cs"

definition strtol10 :: "string \<Rightarrow> int" where
  \<comment> \<open>base 10; values out of the range of \<^verbatim>\<open>long\<close> become its bounds\<close>
  "strtol10 s =
     (let s = dropWhile isspace s;
          (neg, ds) = (case s of c # cs \<Rightarrow> if c = CHR ''-'' then (True, cs) else if c = CHR ''+'' then (False, cs) else (False, s)
                       | [] \<Rightarrow> (False, s));
          v = int (digits_value 0 (takeWhile isdigit ds))
      in if neg then max (- (2 ^ 63)) (- v) else min (2 ^ 63 - 1) v)"

definition atoi :: "string \<Rightarrow> int" where
  "atoi s = s32 (strtol10 s)"

section \<open>The programs\<close>

datatype action =
    Out string                 \<comment> \<open>\<^verbatim>\<open>printf\<close>\<close>
  | Err string                 \<comment> \<open>\<^verbatim>\<open>fprintf(stderr, ...)\<close>\<close>
  | Klogctl int int            \<comment> \<open>\<^verbatim>\<open>klogctl(type, NULL, level)\<close>\<close>
  | Tioclinux "byte list"      \<comment> \<open>\<^verbatim>\<open>ioctl(STDIN_FILENO, TIOCLINUX, bytes)\<close>\<close>

definition argv0 :: "string list \<Rightarrow> string" where
  "argv0 args = (case args of [] \<Rightarrow> ''(null)'' | a # as \<Rightarrow> a)"

definition setlevel :: "(int \<Rightarrow> int) \<Rightarrow> string \<Rightarrow> string list \<Rightarrow> action list \<times> int" where
  \<comment> \<open>what \<^verbatim>\<open>klogctl\<close> returns for a level, the text of \<^verbatim>\<open>strerror(errno)\<close>, the arguments\<close>
  "setlevel klog errtext args =
     (let (complaint, level) =
            (if length args = 2 then ([], atoi (args ! 1)) else ([Err (argv0 args @ '' need a single argument!'' @ nl)], 8));
          acts = complaint @ [Klogctl 8 level]
      in if klog level \<noteq> 0 then (acts @ [Err (argv0 args @ '' :syslog(setlevel) failed due to '' @ errtext)], 1)
         else (acts, 0))"

definition setconsole :: "(byte list \<Rightarrow> int) \<Rightarrow> string \<Rightarrow> string list \<Rightarrow> action list \<times> int" where
  "setconsole ioc errtext args =
     (if length args = 2
      then let bytes = [11, word_of_int (atoi (args ! 1))];
               acts = [Out (''test2222'' @ nl), Tioclinux bytes]
           in if ioc bytes < 0 then (acts @ [Err (argv0 args @ '': ioctl(stdin, TIOCLINEX) : '' @ errtext)], 1) else (acts, 0)
      else ([Err ''number of arguments should be 2.'', Out (''test111'' @ nl)], 1))"

definition hello_main :: "action list \<times> int" where
  "hello_main = ([Out (''hello, world'' @ nl)], 0)"

section \<open>The module hello\<close>

text \<open>The kernel's log as a list of messages.\<close>

definition hello_init :: "string list \<Rightarrow> int \<times> string list" where
  "hello_init log = (0, log @ [''Hello, world'' @ nl])"

definition hello_exit :: "string list \<Rightarrow> string list" where
  "hello_exit log = log @ [''Goodbye, cruel world'' @ nl]"

section \<open>Numbers as arguments\<close>

lemma digits_value_append: "digits_value acc (s @ [c]) = 10 * digits_value acc s + (of_char c - 48)"
  by (induction acc s rule: digits_value.induct) simp_all

lemma isdigit_digit: "n < 10 \<Longrightarrow> isdigit (digit n)"
  by (simp add: isdigit_def digit_def)

lemma dec_nat_digits: "list_all isdigit (dec_nat n) \<and> digits_value 0 (dec_nat n) = n"
proof (induction n rule: dec_nat.induct)
  case (1 n)
  show ?case
  proof (cases "n < 10")
    case True
    then show ?thesis by (subst (1 2) dec_nat.simps) (simp add: isdigit_digit, simp add: digit_def)
  next
    case False
    with 1 have "list_all isdigit (dec_nat (n div 10))" "digits_value 0 (dec_nat (n div 10)) = n div 10" by simp_all
    moreover have "of_char (digit (n mod 10)) - 48 = n mod 10" by (simp add: digit_def)
    ultimately show ?thesis using False
      by (subst (1 2) dec_nat.simps) (simp add: digits_value_append isdigit_digit)
  qed
qed

lemma takeWhile_all: "list_all P xs \<Longrightarrow> takeWhile P xs = xs"
  by (simp add: list_all_iff takeWhile_eq_all_conv)

lemma isdigit_plain: "isdigit c \<Longrightarrow> \<not> isspace c \<and> c \<noteq> CHR ''-'' \<and> c \<noteq> CHR ''+''"
  by (auto simp: isdigit_def isspace_def)

lemma atoi_dec:
  assumes "- (2 ^ 31) \<le> i" and "i < 2 ^ 31"
  shows "atoi (dec i) = i"
proof -
  obtain c cs where c: "dec_nat (nat \<bar>i\<bar>) = c # cs" using dec_nat_pos [of "nat \<bar>i\<bar>"] by (cases "dec_nat (nat \<bar>i\<bar>)") auto
  have ds: "int (digits_value 0 (takeWhile isdigit (c # cs))) = \<bar>i\<bar>" "isdigit c"
  proof -
    have all: "list_all isdigit (c # cs)" and val: "digits_value 0 (c # cs) = nat \<bar>i\<bar>"
      using dec_nat_digits [of "nat \<bar>i\<bar>"] unfolding c by blast+
    show "int (digits_value 0 (takeWhile isdigit (c # cs))) = \<bar>i\<bar>" unfolding takeWhile_all [OF all] val by simp
    show "isdigit c" using all by simp
  qed
  have "strtol10 (dec i) = i"
  proof (cases "i < 0")
    case True
    then have "dec i = CHR ''-'' # c # cs" using c by (simp add: dec_def)
    with ds True assms(1) show ?thesis by (simp add: strtol10_def isspace_def del: takeWhile.simps digits_value.simps)
  next
    case False
    then have "dec i = c # cs" using c by (simp add: dec_def)
    with ds isdigit_plain [OF ds(2)] False assms(2) show ?thesis
      by (simp add: strtol10_def del: takeWhile.simps digits_value.simps)
  qed
  then show ?thesis using assms by (simp add: atoi_def s32_id)
qed

section \<open>Theorem\<close>

text \<open>
  C40. The two programs that take a number act on the number they are given. \<open>setlevel\<close> with one decimal argument in the range of
  \<open>int\<close> asks for exactly this level and exits with 0 if the kernel accepts it, and with 1 and a message if not; called with any other number
  of arguments it first complains that it needs one, and then sets level 8 all the same. \<open>setconsole\<close> passes on the last eight bits of its argument, so that
  numbers that differ by 256 select the same console, and reports a refusal; not given exactly one argument it says so and
  exits with 1, having asked for nothing.
\<close>

theorem number_arguments:
  assumes "- (2 ^ 31) \<le> i" and "i < 2 ^ 31"
  shows "setlevel klog errtext [prog, dec i] =
      (if klog i = 0 then ([Klogctl 8 i], 0) else ([Klogctl 8 i, Err (prog @ '' :syslog(setlevel) failed due to '' @ errtext)], 1)) \<and>
    (length args \<noteq> 2 \<longrightarrow> setlevel klog errtext args =
      (let complaint = Err (argv0 args @ '' need a single argument!'' @ nl) in
       if klog 8 = 0 then ([complaint, Klogctl 8 8], 0)
       else ([complaint, Klogctl 8 8, Err (argv0 args @ '' :syslog(setlevel) failed due to '' @ errtext)], 1))) \<and>
    setconsole ioc errtext [prog, dec i] =
      (if 0 \<le> ioc [11, word_of_int i] then ([Out (''test2222'' @ nl), Tioclinux [11, word_of_int i]], 0)
       else ([Out (''test2222'' @ nl), Tioclinux [11, word_of_int i], Err (prog @ '': ioctl(stdin, TIOCLINEX) : '' @ errtext)], 1)) \<and>
    (- (2 ^ 31) \<le> i + 256 \<and> i + 256 < 2 ^ 31 \<longrightarrow> setconsole ioc errtext [prog, dec (i + 256)] = setconsole ioc errtext [prog, dec i]) \<and>
    (length args \<noteq> 2 \<longrightarrow> setconsole ioc errtext args = ([Err ''number of arguments should be 2.'', Out (''test111'' @ nl)], 1))"
proof -
  have w: "word_of_int i + 256 = (word_of_int i :: byte)" by simp
  show ?thesis using atoi_dec [OF assms] atoi_dec [of "i + 256"]
    by (auto simp: setlevel_def setconsole_def argv0_def Let_def w)
qed

theorem number_arguments_witness:
  "setlevel (\<lambda>l. if l = 7 then 0 else - 1) ''Operation not permitted'' [''setlevel'', ''7''] = ([Klogctl 8 7], 0)"
proof -
  have "dec 7 = ''7''" by code_simp
  with number_arguments [of 7 "\<lambda>l. if l = 7 then 0 else - 1" "''Operation not permitted''" "''setlevel''"] show ?thesis by simp
qed

end
