(* ===== verification/Nbtest.thy ===== *)
theory Nbtest
  imports Pipe_Calls Small_Progs "HOL-Library.Sublist"
begin

text \<open>
  The program \<^verbatim>\<open>misc_progs/nbtest.c\<close>, which copies its standard input to its standard output without
  waiting, and what two of them do with a scull pipe between them. The contract that one side of such a pair relies on
  is the locale \<open>nb_channel\<close>, interpreted on the calls of the pipe.
\<close>

unbundle bit_operations_syntax

section \<open>The program\<close>

text \<open>
  The variables of \<^verbatim>\<open>main\<close> and the static buffer. A call of \<^verbatim>\<open>read(2)\<close> or \<^verbatim>\<open>write(2)\<close> answers
  \<open>Inl\<close> of an error number, which goes to \<^verbatim>\<open>errno\<close>, or \<open>Inr\<close> of its result; \<open>None\<close> says that it does not return now.
\<close>

record nb =
  nb_n :: int
  nb_m :: int
  nb_errno :: int
  nb_buf :: "byte list"

type_synonym 'a reader = "nat \<Rightarrow> 'a \<Rightarrow> ((int + byte list) \<times> 'a) option"
type_synonym 'b writer = "byte list \<Rightarrow> 'b \<Rightarrow> ((int + nat) \<times> 'b) option"

definition nb_init :: nb where
  "nb_init = \<lparr>nb_n = 0, nb_m = 0, nb_errno = 0, nb_buf = replicate 4096 0\<rparr>"

definition nb_delay :: "string list \<Rightarrow> int" where
  "nb_delay args = (if length args > 1 then atoi (args ! 1) else 1)"

definition nb_flags :: "32 word \<Rightarrow> 32 word" where
  \<comment> \<open>\<open>fcntl(fd, F_SETFL, fcntl(fd, F_GETFL) | O_NONBLOCK)\<close>\<close>
  "nb_flags fl = fl OR O_NONBLOCK"

definition nb_read :: "'a reader \<Rightarrow> nb \<Rightarrow> 'a \<Rightarrow> (nb \<times> 'a) option" where
  "nb_read rd v a = (case rd 4096 a of
      None \<Rightarrow> None
    | Some (Inl e, a') \<Rightarrow> Some (v\<lparr>nb_n := - 1, nb_errno := e\<rparr>, a')
    | Some (Inr bs, a') \<Rightarrow> Some (v\<lparr>nb_n := int (length bs), nb_buf := overwrite (nb_buf v) 0 bs\<rparr>, a'))"

definition nb_write :: "'b writer \<Rightarrow> nb \<Rightarrow> 'b \<Rightarrow> (nb \<times> 'b) option" where
  "nb_write wr v b =
     (if nb_n v \<ge> 0 then
        (case wr (take (nat (nb_n v)) (nb_buf v)) b of
           None \<Rightarrow> None
         | Some (Inl e, b') \<Rightarrow> Some (v\<lparr>nb_m := - 1, nb_errno := e\<rparr>, b')
         | Some (Inr m, b') \<Rightarrow> Some (v\<lparr>nb_m := int m\<rparr>, b'))
      else Some (v, b))"

definition nb_stops :: "nb \<Rightarrow> bool" where
  "nb_stops v \<longleftrightarrow> (nb_n v < 0 \<or> nb_m v < 0) \<and> nb_errno v \<noteq> EAGAIN"

definition nb_round :: "'a reader \<Rightarrow> 'b writer \<Rightarrow> nb \<times> 'a \<times> 'b \<Rightarrow> (bool \<times> nb \<times> 'a \<times> 'b) option" where
  \<comment> \<open>the body of the loop; the flag: it ends with \<open>break\<close>\<close>
  "nb_round rd wr s = (case s of (v, a, b) \<Rightarrow>
     Option.bind (nb_read rd v a) (\<lambda>(v1, a1).
     Option.bind (nb_write wr v1 b) (\<lambda>(v2, b1). Some (nb_stops v2, v2, a1, b1))))"

partial_function (option) nb_loop :: "'a reader \<Rightarrow> 'b writer \<Rightarrow> nb \<times> 'a \<times> 'b \<Rightarrow> (nb \<times> 'a \<times> 'b) option" where
  "nb_loop rd wr s = Option.bind (nb_round rd wr s) (\<lambda>(stop, s'). if stop then Some s' else nb_loop rd wr s')"

definition nbtest :: "'a reader \<Rightarrow> 'b writer \<Rightarrow> 'a \<Rightarrow> 'b \<Rightarrow> (string \<times> int \<times> 'a \<times> 'b) option" where
  \<comment> \<open>the argument of \<^verbatim>\<open>perror\<close>, the exit status and the two files\<close>
  "nbtest rd wr a b = map_option (\<lambda>(v, a', b'). (if nb_n v < 0 then ''stdin'' else ''stdout'', 1, a', b')) (nb_loop rd wr (nb_init, a, b))"

section \<open>One round\<close>

lemma nb_buf_take: "length bs \<le> length buf \<Longrightarrow> take (length bs) (overwrite buf 0 bs) = bs"
  by (simp add: overwrite_def)

text \<open>
  A round in terms of its two calls. The variable \<open>m\<close> of an earlier round is never looked at: after a failed read the test
  does not depend on it.
\<close>

lemma nb_round_cases:
  assumes "nb_round rd wr (v, a, b) = Some (stop, v', a', b')"
    and "length (nb_buf v) = 4096" and sane: "\<And>bs a'. rd 4096 a = Some (Inr bs, a') \<Longrightarrow> length bs \<le> 4096"
  obtains (read_failed) e where "rd 4096 a = Some (Inl e, a')" "b' = b" "nb_n v' < 0" "stop \<longleftrightarrow> e \<noteq> EAGAIN" "length (nb_buf v') = 4096"
  | (write_failed) bs e where "rd 4096 a = Some (Inr bs, a')" "wr bs b = Some (Inl e, b')" "0 \<le> nb_n v'" "stop \<longleftrightarrow> e \<noteq> EAGAIN"
      "length (nb_buf v') = 4096"
  | (copied) bs n where "rd 4096 a = Some (Inr bs, a')" "wr bs b = Some (Inr n, b')" "0 \<le> nb_n v'" "\<not> stop" "length (nb_buf v') = 4096"
proof -
  obtain r where rd: "rd 4096 a = Some (r, a')"
    using assms(1) by (auto simp: nb_round_def nb_read_def split: option.splits sum.splits bind_splits)
  show thesis
  proof (cases r)
    case (Inl e)
    with rd assms(1,2) show thesis
      by (intro read_failed) (auto simp: nb_round_def nb_read_def nb_write_def nb_stops_def)
  next
    case (Inr bs)
    let ?v = "v\<lparr>nb_n := int (length bs), nb_buf := overwrite (nb_buf v) 0 bs\<rparr>"
    have len: "length bs \<le> length (nb_buf v)" using sane [of bs a'] rd Inr assms(2) by simp
    have "nb_round rd wr (v, a, b) = Option.bind (nb_write wr ?v b) (\<lambda>(v2, b1). Some (nb_stops v2, v2, a', b1))"
      using rd Inr by (simp add: nb_round_def nb_read_def)
    moreover have "nb_write wr ?v b = (case wr bs b of None \<Rightarrow> None
         | Some (Inl e, b') \<Rightarrow> Some (?v\<lparr>nb_m := - 1, nb_errno := e\<rparr>, b') | Some (Inr m, b') \<Rightarrow> Some (?v\<lparr>nb_m := int m\<rparr>, b'))"
      using nb_buf_take [OF len] by (simp add: nb_write_def)
    ultimately show thesis using assms(1,2) len rd Inr write_failed [of bs] copied [of bs]
      by (auto simp: nb_stops_def split: option.splits sum.splits)
  qed
qed

text \<open>The program ends only when a call has failed for another reason than having to wait, and names the right file.\<close>

definition nb_ended :: "'a reader \<Rightarrow> 'b writer \<Rightarrow> nb \<times> 'a \<times> 'b \<Rightarrow> bool" where
  "nb_ended rd wr s = (case s of (v, a, b) \<Rightarrow>
     if nb_n v < 0 then \<exists>a0 e. rd 4096 a0 = Some (Inl e, a) \<and> e \<noteq> EAGAIN else \<exists>bs b0 e. wr bs b0 = Some (Inl e, b) \<and> e \<noteq> EAGAIN)"

lemma nb_loop_ends:
  assumes "nb_loop rd wr s = Some s'"
  shows "length (nb_buf (fst s)) = 4096 \<Longrightarrow> (\<And>a bs a'. rd 4096 a = Some (Inr bs, a') \<Longrightarrow> length bs \<le> 4096) \<Longrightarrow> nb_ended rd wr s'"
proof (induction rule: nb_loop.raw_induct [OF _ assms, consumes 0, case_names round])
  case (round rec rd wr s s')
  obtain v a b where s: "s = (v, a, b)" by (cases s)
  from round.hyps obtain stop v1 a1 b1 where r: "nb_round rd wr (v, a, b) = Some (stop, v1, a1, b1)"
    and q: "(if stop then Some (v1, a1, b1) else rec rd wr (v1, a1, b1)) = Some s'"
    by (auto simp: s split: bind_splits)
  have buf: "length (nb_buf v) = 4096" using round.prems(1) by (simp add: s)
  show ?case
    by (rule nb_round_cases [OF r buf])
      (use q round.IH [of rd wr "(v1, a1, b1)" s'] round.prems(2) in \<open>auto simp: nb_ended_def split: if_splits\<close>)
qed

section \<open>Two programs and a channel\<close>

text \<open>
  One nbtest copies a text into a channel, another one copies the channel to a file that takes everything. A schedule says whose turn
  it is (\<open>True\<close>: the first). A program that has ended, or whose call does not return now, does nothing.
\<close>

record 'p pipeline =
  pl_in :: "byte list"
  pl_first :: "nb option"     \<comment> \<open>\<open>None\<close>: it has ended\<close>
  pl_chan :: 'p
  pl_second :: "nb option"
  pl_out :: "byte list"

definition text_read :: "byte list reader" where
  "text_read n xs = Some (Inr (take n xs), drop n xs)"

definition file_write :: "byte list writer" where
  "file_write bs out = Some (Inr (length bs), out @ bs)"

definition pl_turn :: "'p writer \<Rightarrow> 'p reader \<Rightarrow> bool \<Rightarrow> 'p pipeline \<Rightarrow> 'p pipeline" where
  "pl_turn wr rd first s =
     (if first then
        (case pl_first s of None \<Rightarrow> s
         | Some v \<Rightarrow>
            (case nb_round text_read wr (v, pl_in s, pl_chan s) of None \<Rightarrow> s
             | Some (stop, v', xs, c) \<Rightarrow> s\<lparr>pl_in := xs, pl_chan := c, pl_first := if stop then None else Some v'\<rparr>))
      else
        (case pl_second s of None \<Rightarrow> s
         | Some v \<Rightarrow>
            (case nb_round rd file_write (v, pl_chan s, pl_out s) of None \<Rightarrow> s
             | Some (stop, v', c, out) \<Rightarrow> s\<lparr>pl_out := out, pl_chan := c, pl_second := if stop then None else Some v'\<rparr>)))"

fun run_pl :: "'p writer \<Rightarrow> 'p reader \<Rightarrow> bool list \<Rightarrow> 'p pipeline \<Rightarrow> 'p pipeline" where
  "run_pl wr rd [] s = s"
| "run_pl wr rd (t # ts) s = run_pl wr rd ts (pl_turn wr rd t s)"

definition pl_start :: "byte list \<Rightarrow> 'p \<Rightarrow> 'p pipeline" where
  "pl_start xs c = \<lparr>pl_in = xs, pl_first = Some nb_init, pl_chan = c, pl_second = Some nb_init, pl_out = []\<rparr>"

text \<open>The writes of the first program in a run, each with the bytes it was given and its answer; and what a write has taken.\<close>

definition pl_offer :: "'p writer \<Rightarrow> 'p pipeline \<Rightarrow> (byte list \<times> (int + nat)) list" where
  "pl_offer wr s = (if pl_first s = None then []
     else case wr (take 4096 (pl_in s)) (pl_chan s) of None \<Rightarrow> [] | Some (r, c) \<Rightarrow> [(take 4096 (pl_in s), r)])"

fun pl_writes :: "'p writer \<Rightarrow> 'p reader \<Rightarrow> bool list \<Rightarrow> 'p pipeline \<Rightarrow> (byte list \<times> (int + nat)) list" where
  "pl_writes wr rd [] s = []"
| "pl_writes wr rd (t # ts) s = (if t then pl_offer wr s else []) @ pl_writes wr rd ts (pl_turn wr rd t s)"

definition accepted :: "byte list \<times> (int + nat) \<Rightarrow> byte list" where
  "accepted w = (case snd w of Inl e \<Rightarrow> [] | Inr n \<Rightarrow> take n (fst w))"

definition bufs_full :: "'p pipeline \<Rightarrow> bool" where
  \<comment> \<open>the buffers of the programs have their 4096 bytes\<close>
  "bufs_full s \<longleftrightarrow> pred_option (\<lambda>v. length (nb_buf v) = 4096) (pl_first s) \<and> pred_option (\<lambda>v. length (nb_buf v) = 4096) (pl_second s)"

locale nb_channel =
  fixes inv :: "'p \<Rightarrow> bool" and contents :: "'p \<Rightarrow> byte list" and capacity :: "'p \<Rightarrow> nat"
    and wr :: "'p writer" and rd :: "'p reader"
  assumes bounded: "inv c \<Longrightarrow> length (contents c) \<le> capacity c"
    and wr_ok: "inv c \<Longrightarrow> wr bs c = Some (r, c') \<Longrightarrow> inv c' \<and> capacity c' = capacity c \<and>
      contents c' = contents c @ (case r of Inl e \<Rightarrow> [] | Inr n \<Rightarrow> take n bs)"
    and rd_ok: "inv c \<Longrightarrow> rd n c = Some (q, c') \<Longrightarrow> inv c' \<and> capacity c' = capacity c \<and>
      (case q of Inl e \<Rightarrow> contents c' = contents c | Inr bs \<Rightarrow> length bs \<le> n \<and> contents c = bs @ contents c')"
begin

lemma first_turn:
  assumes "inv (pl_chan s)" and "bufs_full s"
  shows "pl_in s = concat (map fst (pl_offer wr s)) @ pl_in (pl_turn wr rd True s)" and "bufs_full (pl_turn wr rd True s)"
    and "inv (pl_chan (pl_turn wr rd True s))" and "capacity (pl_chan (pl_turn wr rd True s)) = capacity (pl_chan s)"
    and "contents (pl_chan (pl_turn wr rd True s)) = contents (pl_chan s) @ concat (map accepted (pl_offer wr s))"
    and "pl_out (pl_turn wr rd True s) = pl_out s"
    and "length (pl_in s) \<le> 4096 \<longrightarrow> pl_offer wr s = [] \<or> pl_in (pl_turn wr rd True s) = []"
proof -
  let ?bs = "take 4096 (pl_in s)" and ?s = "pl_turn wr rd True s"
  have "pl_in s = concat (map fst (pl_offer wr s)) @ pl_in ?s \<and> bufs_full ?s \<and> inv (pl_chan ?s) \<and> capacity (pl_chan ?s) = capacity (pl_chan s) \<and>
    contents (pl_chan ?s) = contents (pl_chan s) @ concat (map accepted (pl_offer wr s)) \<and> pl_out ?s = pl_out s \<and>
    (length (pl_in s) \<le> 4096 \<longrightarrow> pl_offer wr s = [] \<or> pl_in ?s = [])"
  proof (cases "pl_first s")
    case None
    then have "?s = s" "pl_offer wr s = []" by (simp_all add: pl_turn_def pl_offer_def)
    with assms show ?thesis by simp
  next
    case v: (Some v)
    have buf: "length (nb_buf v) = 4096" using assms(2) v by (simp add: bufs_full_def)
    show ?thesis
    proof (cases "nb_round text_read wr (v, pl_in s, pl_chan s)")
      case None
      have "take (length ?bs) (overwrite (nb_buf v) 0 ?bs) = ?bs" using buf by (intro nb_buf_take) simp
      then have "wr ?bs (pl_chan s) = None"
        using None by (simp add: nb_round_def nb_read_def nb_write_def text_read_def split: option.splits prod.splits sum.splits)
      then have "pl_offer wr s = []" by (simp add: pl_offer_def)
      moreover have "?s = s" using v None by (simp add: pl_turn_def)
      ultimately show ?thesis using assms by simp
    next
      case (Some r)
      obtain stop v' xs c where r: "nb_round text_read wr (v, pl_in s, pl_chan s) = Some (stop, v', xs, c)" using Some by (cases r) auto
      have t: "?s = s\<lparr>pl_in := xs, pl_chan := c, pl_first := if stop then None else Some v'\<rparr>" using v r by (simp add: pl_turn_def)
      have w: "\<exists>q. wr ?bs (pl_chan s) = Some (q, c) \<and> xs = drop 4096 (pl_in s) \<and> length (nb_buf v') = 4096"
        by (rule nb_round_cases [OF r buf]) (auto simp: text_read_def)
      then obtain q where q: "wr ?bs (pl_chan s) = Some (q, c)" "xs = drop 4096 (pl_in s)" "length (nb_buf v') = 4096" by blast
      have "pl_offer wr s = [(?bs, q)]" using v q(1) by (simp add: pl_offer_def)
      with wr_ok [OF assms(1) q(1)] q(2,3) assms(2) show ?thesis by (auto simp: t bufs_full_def accepted_def split: sum.splits)
    qed
  qed
  then show "pl_in s = concat (map fst (pl_offer wr s)) @ pl_in ?s" "bufs_full ?s" "inv (pl_chan ?s)" "capacity (pl_chan ?s) = capacity (pl_chan s)"
    "contents (pl_chan ?s) = contents (pl_chan s) @ concat (map accepted (pl_offer wr s))" "pl_out ?s = pl_out s"
    "length (pl_in s) \<le> 4096 \<longrightarrow> pl_offer wr s = [] \<or> pl_in ?s = []" by blast+
qed

lemma first_turn_pieces:
  assumes "inv (pl_chan s)" and "bufs_full s"
  obtains used got where "pl_in s = used @ pl_in (pl_turn wr rd True s)" and "used = [] \<Longrightarrow> got = []" and "bufs_full (pl_turn wr rd True s)"
    and "inv (pl_chan (pl_turn wr rd True s))" and "capacity (pl_chan (pl_turn wr rd True s)) = capacity (pl_chan s)"
    and "contents (pl_chan (pl_turn wr rd True s)) = contents (pl_chan s) @ got" and "pl_out (pl_turn wr rd True s) = pl_out s"
    and "length (pl_in s) \<le> 4096 \<longrightarrow> used = [] \<or> pl_in (pl_turn wr rd True s) = []"
proof (rule that)
  show "concat (map fst (pl_offer wr s)) = [] \<Longrightarrow> concat (map accepted (pl_offer wr s)) = []"
    by (auto simp: pl_offer_def accepted_def split: option.splits sum.splits if_splits)
  show "length (pl_in s) \<le> 4096 \<longrightarrow> concat (map fst (pl_offer wr s)) = [] \<or> pl_in (pl_turn wr rd True s) = []"
    using first_turn(7) [OF assms] by auto
qed (rule first_turn [OF assms])+

lemma second_turn:
  assumes "inv (pl_chan s)" and "bufs_full s"
  shows "pl_in (pl_turn wr rd False s) = pl_in s" and "bufs_full (pl_turn wr rd False s)" and "inv (pl_chan (pl_turn wr rd False s))"
    and "capacity (pl_chan (pl_turn wr rd False s)) = capacity (pl_chan s)"
    and "\<exists>bs. pl_out (pl_turn wr rd False s) = pl_out s @ bs \<and> contents (pl_chan s) = bs @ contents (pl_chan (pl_turn wr rd False s))"
proof -
  have "pl_in (pl_turn wr rd False s) = pl_in s \<and> bufs_full (pl_turn wr rd False s) \<and> inv (pl_chan (pl_turn wr rd False s)) \<and>
    capacity (pl_chan (pl_turn wr rd False s)) = capacity (pl_chan s) \<and>
    (\<exists>bs. pl_out (pl_turn wr rd False s) = pl_out s @ bs \<and> contents (pl_chan s) = bs @ contents (pl_chan (pl_turn wr rd False s)))"
  proof (cases "pl_second s = None \<or> (\<exists>v. pl_second s = Some v \<and> nb_round rd file_write (v, pl_chan s, pl_out s) = None)")
    case True
    then have "pl_turn wr rd False s = s" by (auto simp: pl_turn_def)
    with assms show ?thesis by simp
  next
    case False
    then obtain v stop v' c out where v: "pl_second s = Some v" and r: "nb_round rd file_write (v, pl_chan s, pl_out s) = Some (stop, v', c, out)"
      by fastforce
    have buf: "length (nb_buf v) = 4096" using assms(2) v by (simp add: bufs_full_def)
    have t: "pl_turn wr rd False s = s\<lparr>pl_out := out, pl_chan := c, pl_second := if stop then None else Some v'\<rparr>"
      using v r by (simp add: pl_turn_def)
    show ?thesis
      by (rule nb_round_cases [OF r buf])
        (use assms rd_ok [OF assms(1)] in \<open>fastforce simp: t bufs_full_def file_write_def\<close>)+
  qed
  then show "pl_in (pl_turn wr rd False s) = pl_in s" "bufs_full (pl_turn wr rd False s)" "inv (pl_chan (pl_turn wr rd False s))"
    "capacity (pl_chan (pl_turn wr rd False s)) = capacity (pl_chan s)"
    "\<exists>bs. pl_out (pl_turn wr rd False s) = pl_out s @ bs \<and> contents (pl_chan s) = bs @ contents (pl_chan (pl_turn wr rd False s))" by simp_all
qed

text \<open>What comes out is what the writes have taken, in order.\<close>

lemma order_kept:
  "inv (pl_chan s) \<Longrightarrow> bufs_full s \<Longrightarrow> run_pl wr rd ts s = s' \<Longrightarrow>
   pl_in s = concat (map fst (pl_writes wr rd ts s)) @ pl_in s' \<and> inv (pl_chan s') \<and> capacity (pl_chan s') = capacity (pl_chan s) \<and>
     pl_out s' @ contents (pl_chan s') = pl_out s @ contents (pl_chan s) @ concat (map accepted (pl_writes wr rd ts s))"
proof (induction ts arbitrary: s)
  case (Cons t ts)
  let ?s = "pl_turn wr rd t s" and ?w = "if t then pl_offer wr s else []"
  have 1: "pl_in s = concat (map fst ?w) @ pl_in ?s" "inv (pl_chan ?s)" "bufs_full ?s" "capacity (pl_chan ?s) = capacity (pl_chan s)"
    "pl_out ?s @ contents (pl_chan ?s) = pl_out s @ contents (pl_chan s) @ concat (map accepted ?w)"
    using first_turn [OF Cons.prems(1,2)] second_turn [OF Cons.prems(1,2)] by (cases t; auto)+
  have 2: "pl_in ?s = concat (map fst (pl_writes wr rd ts ?s)) @ pl_in s'" "inv (pl_chan s')" "capacity (pl_chan s') = capacity (pl_chan ?s)"
    "pl_out s' @ contents (pl_chan s') = pl_out ?s @ contents (pl_chan ?s) @ concat (map accepted (pl_writes wr rd ts ?s))"
    using Cons.IH [OF 1(2,3)] Cons.prems(3) by simp_all
  have "pl_out s' @ contents (pl_chan s') = pl_out s @ contents (pl_chan s) @ concat (map accepted ?w) @ concat (map accepted (pl_writes wr rd ts ?s))"
    using 1(5) 2(4) by (metis append.assoc)
  moreover have "pl_in s = concat (map fst ?w) @ concat (map fst (pl_writes wr rd ts ?s)) @ pl_in s'" using 1(1) 2(1) by metis
  ultimately show ?case using 1(4) 2(2,3) by simp
qed simp

text \<open>A text that is read at once is offered to the channel once; what does not fit then is never offered again.\<close>

lemma one_offer:
  "inv (pl_chan s) \<Longrightarrow> bufs_full s \<Longrightarrow> length (pl_in s) \<le> 4096 \<Longrightarrow> run_pl wr rd ts s = s' \<Longrightarrow>
   length (pl_out s' @ contents (pl_chan s')) \<le>
     length (pl_out s @ contents (pl_chan s)) + (if pl_in s = [] then 0 else capacity (pl_chan s))"
proof (induction ts arbitrary: s)
  case (Cons t ts)
  let ?s = "pl_turn wr rd t s"
  show ?case
  proof (cases t)
    case False
    then show ?thesis using Cons.IH [of "pl_turn wr rd False s"] Cons.prems second_turn [OF Cons.prems(1,2)]
      by (cases "pl_in s = []") auto
  next
    case True
    obtain u g where f: "pl_in s = u @ pl_in ?s" "u = [] \<Longrightarrow> g = []" "bufs_full ?s" "inv (pl_chan ?s)" "capacity (pl_chan ?s) = capacity (pl_chan s)"
      "contents (pl_chan ?s) = contents (pl_chan s) @ g" "pl_out ?s = pl_out s" "length (pl_in s) \<le> 4096 \<longrightarrow> u = [] \<or> pl_in ?s = []"
      by (rule first_turn_pieces [OF Cons.prems(1,2)]) (use True in auto)
    have "length (pl_in ?s) \<le> 4096" using f(1) Cons.prems(3) by (metis length_append le_add2 order_trans)
    with Cons.IH [of ?s] f Cons.prems(4) have ih: "length (pl_out s' @ contents (pl_chan s')) \<le>
        length (pl_out s @ contents (pl_chan s)) + length g + (if pl_in ?s = [] then 0 else capacity (pl_chan s))" by (cases "pl_in ?s = []") auto
    have "length g \<le> capacity (pl_chan s)" using bounded [OF f(4)] f(5,6) by simp
    moreover note f(2)
    ultimately show ?thesis using ih f(1,8) Cons.prems(3) by (cases "u = []") auto
  qed
qed simp

end

section \<open>The channel is a scull pipe\<close>

type_synonym pipe_state = "kernel \<times> scull_pipe \<times> heap"

definition pipe_write :: "32 word \<Rightarrow> pipe_state writer" where
  \<comment> \<open>\<open>write(2)\<close> on the pipe through a file with flags \<open>fl\<close>, as the program sees it\<close>
  "pipe_write fl bs s = (case s of (k, d, h) \<Rightarrow>
     (case write_call k fl bs (length bs) d h of
        Inr (Returned v (d', h')) \<Rightarrow> Some (if v < 0 then Inl (- v) else Inr (nat v), k, d', h')
      | _ \<Rightarrow> None))"

definition pipe_read :: "32 word \<Rightarrow> pipe_state reader" where
  "pipe_read fl n s = (case s of (k, d, h) \<Rightarrow>
     (case read_call k fl n d h of
        Inr (Returned v (bs, d')) \<Rightarrow> Some (if v < 0 then Inl (- v) else Inr bs, k, d', h)
      | _ \<Rightarrow> None))"

lemma pipe_read_length: "pipe_read fl n s = Some (Inr bs, s') \<Longrightarrow> length bs \<le> n"
proof -
  assume a: "pipe_read fl n s = Some (Inr bs, s')"
  obtain k d h where s: "s = (k, d, h)" by (cases s)
  have body: "length ys \<le> n" if "p_read_body k n d' h = Inr (r, ys, d'')" for d' r ys d''
    using that by (auto simp: p_read_body_def Let_def read_blk_def peek_def clamp_def split: if_splits)
  note sim = s pipe_read_def read_call_def alone_simps rd_down_def rd_wait_event_def
  show ?thesis
  proof (cases "p_read_body k n (p_down d) h")
    case (Inl f)
    with a show ?thesis by (auto simp: sim split: if_splits)
  next
    case (Inr x)
    obtain r ys d'' where x: "x = (r, ys, d'')" by (cases x)
    with Inr a body [of "p_down d" r ys d''] show ?thesis by (cases r) (auto simp: sim split: if_splits)
  qed
qed

definition chan_ok :: "pipe_state \<Rightarrow> bool" where
  "chan_ok s = (case s of (k, d, h) \<Rightarrow> kernel_ok k \<and> pipe_ok h d \<and> 0 < p_sem d)"

interpretation pc: nb_channel chan_ok "\<lambda>(k, d, h). pipe_bytes h d" "\<lambda>(k, d, h). pipe_capacity d" "pipe_write fo" "pipe_read fi" for fo fi
proof
  fix c c' :: pipe_state and bs n r q
  obtain k d h where c: "c = (k, d, h)" by (cases c)
  assume "chan_ok c"
  then have k: "kernel_ok k" and ok: "pipe_ok h d" and sem: "0 < p_sem d" by (simp_all add: c chan_ok_def)
  show "length (case c of (k, d, h) \<Rightarrow> pipe_bytes h d) \<le> (case c of (k, d, h) \<Rightarrow> pipe_capacity d)"
    using spacefree_ok(1) [OF ok] by (simp add: c)
  show "chan_ok c' \<and> (case c' of (k, d, h) \<Rightarrow> pipe_capacity d) = (case c of (k, d, h) \<Rightarrow> pipe_capacity d) \<and>
      (case c' of (k, d, h) \<Rightarrow> pipe_bytes h d) =
      (case c of (k, d, h) \<Rightarrow> pipe_bytes h d) @ (case r of Inl e \<Rightarrow> [] | Inr n \<Rightarrow> take n bs)" if "pipe_write fo bs c = Some (r, c')"
    by (rule p_write_nonblock_cases [OF k ok, of bs "length bs"])
      (use that k ok sem in \<open>auto simp: c pipe_write_def write_call_ok [OF ok sem] chan_ok_def pipe_capacity_def split: if_splits\<close>)
  show "chan_ok c' \<and> (case c' of (k, d, h) \<Rightarrow> pipe_capacity d) = (case c of (k, d, h) \<Rightarrow> pipe_capacity d) \<and>
      (case q of Inl e \<Rightarrow> (case c' of (k, d, h) \<Rightarrow> pipe_bytes h d) = (case c of (k, d, h) \<Rightarrow> pipe_bytes h d)
       | Inr bs \<Rightarrow> length bs \<le> n \<and> (case c of (k, d, h) \<Rightarrow> pipe_bytes h d) = bs @ (case c' of (k, d, h) \<Rightarrow> pipe_bytes h d))"
    if "pipe_read fi n c = Some (q, c')"
    by (rule p_read_nonblock_cases [OF ok, of k n])
      (use that k ok sem in \<open>auto simp: c pipe_read_def read_call_ok [OF ok sem] chan_ok_def pipe_capacity_def split: if_splits\<close>)
qed

lemma pipe_write_keeps:
  assumes "chan_ok (k, d, h)" and "pipe_write fl bs (k, d, h) = Some (q, c)"
  shows "\<exists>w h'. c = (k, d\<lparr>p_wp := w\<rparr>, h')"
proof -
  have ok: "kernel_ok k" "pipe_ok h d" "0 < p_sem d" using assms(1) by (simp_all add: chan_ok_def)
  have "\<exists>w. d = d\<lparr>p_wp := w\<rparr>" by (rule exI [of _ "p_wp d"]) simp
  then show ?thesis
    by (rule_tac p_write_nonblock_cases [OF ok(1,2), of bs "length bs"])
      (use assms(2) in \<open>auto simp: pipe_write_def write_call_ok [OF ok(2,3)] split: if_splits\<close>)
qed

lemma pipe_read_keeps:
  assumes "chan_ok (k, d, h)" and "pipe_read fl n (k, d, h) = Some (q, c)"
  shows "\<exists>r. c = (k, d\<lparr>p_rp := r\<rparr>, h)"
proof -
  have ok: "pipe_ok h d" "0 < p_sem d" using assms(1) by (simp_all add: chan_ok_def)
  have "\<exists>r. d = d\<lparr>p_rp := r\<rparr>" by (rule exI [of _ "p_rp d"]) simp
  then show ?thesis
    by (rule_tac p_read_nonblock_cases [OF ok(1), of k n])
      (use assms(2) in \<open>auto simp: pipe_read_def read_call_ok [OF ok] split: if_splits\<close>)
qed

lemma pipe_read_data:
  assumes "user_ok k" and ok: "pipe_ok h d" and sem: "0 < p_sem d" and ne: "pipe_bytes h d \<noteq> []" and "0 < n"
  obtains bs d' where "pipe_read fl n (k, d, h) = Some (Inr bs, k, d', h)" and "bs \<noteq> []"
proof -
  have rw: "p_rp (p_down d) \<noteq> p_wp (p_down d)" and ok': "pipe_ok h (p_down d)" using pipe_empty [OF ok] ne ok by simp_all
  obtain m d' where m: "m \<le> length (pipe_bytes h d)" "0 < m"
    "p_read_body k n (p_down d) h = Inr (Inr m, take m (pipe_bytes h d), p_up d')"
    by (rule p_read_body_ok [OF ok' rw, of n k]) (use assms(1,5) in \<open>auto simp: user_ok_def\<close>)
  have "int m < 2 ^ 31" using m(1) spacefree_ok(1) [OF ok] pipe_capacity_bound [OF ok] by simp
  then have "p_read_nonblock k False n d h = Inr (int m, take m (pipe_bytes h d), p_up d')"
    using m rw by (simp add: p_read_nonblock_def s64_id)
  with m ne show thesis
    by (intro that [of "take m (pipe_bytes h d)" "p_up d'"]) (simp_all add: pipe_read_def read_call_ok [OF ok sem])
qed

subsection \<open>A text that fits\<close>

lemma p_down_fields: "p_end (p_down d) = p_end d" "p_buffer (p_down d) = p_buffer d"
  by (simp_all add: p_down_def)

lemma fresh_write:
  assumes "kernel_ok k" and "user_ok k" and ok: "pipe_ok h d" and "p_rp d = p_buffer d" and "p_wp d = p_buffer d"
    and "xs \<noteq> []" and "length xs \<le> pipe_capacity d"
  obtains d' h' where "p_write_nonblock k False xs (length xs) d h = Inr (int (length xs), d', h')" and "pipe_ok h' d'"
    and "pipe_bytes h' d' = xs" and "p_rp d' = p_buffer d'" and "p_sem d' = p_sem d" and "pipe_capacity d' = pipe_capacity d"
proof -
  have empty: "pipe_bytes h d = []" using pipe_empty [OF ok] assms(4,5) by simp
  have full: "0 < pipe_capacity d" using assms(6,7) by (cases xs) auto
  have sz: "pipe_capacity d < 2 ^ 31" "p_end d = p_buffer d + Suc (pipe_capacity d)"
    using ok by (auto simp: pipe_ok_def pipe_capacity_def Suc_nat_eq_nat_zadd1)
  have free: "spacefree d = Inr (int (pipe_capacity d))" using spacefree_ok(2) [OF ok] empty by simp
  have cnt: "clamp (u64 (int (pipe_capacity d))) (clamp (u64 (int (Suc (pipe_capacity d)))) (length xs)) = length xs"
    using assms(7) sz(1) by (simp add: u64_id clamp_def)
  have cp: "copy_from_user k xs (length xs) = (0, xs)"
    using assms(1,2) copied_all [OF assms(1), of xs "length xs"] by (simp add: user_ok_def prod_eq_iff)
  have v: "\<exists>f. p_write_nonblock k False xs (length xs) d h = Inl f \<or>
    (\<exists>d' h'. p_write_nonblock k False xs (length xs) d h = Inr (int (length xs), d', h'))"
    using free full cnt cp sz assms(4,5,7) by (auto simp: p_write_nonblock_def p_write_body_def p_down_fields Let_def s64_id bindE_def split: sum.splits)
  show thesis
  proof (rule p_write_nonblock_cases [OF assms(1) ok, of xs "length xs"])
    fix n d' h' assume "p_write_nonblock k False xs (length xs) d h = Inr (int n, d', h')" "pipe_ok h' d'"
      "pipe_bytes h' d' = pipe_bytes h d @ take n xs" "\<exists>w. d' = d\<lparr>p_wp := w\<rparr>"
    with v empty assms(4) show thesis by (intro that [of d' h']) (auto simp: pipe_capacity_def)
  qed (use v full empty assms(6) in auto)
qed

lemma whole_read:
  assumes "user_ok k" and ok: "pipe_ok h d" and "p_rp d = p_buffer d" and "pipe_bytes h d \<noteq> []" and "length (pipe_bytes h d) \<le> 4096"
  obtains d' where "p_read_nonblock k False 4096 d h = Inr (int (length (pipe_bytes h d)), pipe_bytes h d, d')" and "pipe_ok h d'"
    and "pipe_bytes h d' = []" and "p_sem d' = p_sem d"
proof -
  from ok obtain bs r w where b: "length bs = nat (p_buffersize d)" "p_buffersize d < 2 ^ 31" "p_rp d = p_buffer d + r" "r < length bs"
    "p_wp d = p_buffer d + w" "w < length bs" "pipe_bytes h d = ring bs r w" by (elim pipe_okE)
  have len: "length (pipe_bytes h d) = w" "0 < w" using b assms(3,4) by (auto simp: length_ring ring_def)
  then have cnt: "clamp (u64 (int (p_wp d) - int (p_rp d))) 4096 = w" "p_rp d < p_wp d"
    using b assms(3,5) by (simp_all add: u64_id clamp_def)
  have v: "\<exists>f. p_read_nonblock k False 4096 d h = Inl f \<or> (\<exists>bs d'. p_read_nonblock k False 4096 d h = Inr (int w, bs, d'))"
    using cnt assms(1,5) len by (auto simp: p_read_nonblock_def p_read_body_def p_down_fields Let_def s64_id user_ok_def bindE_def split: sum.splits)
  show thesis
  proof (rule p_read_nonblock_cases [OF ok, of k 4096])
    fix n d' assume "p_read_nonblock k False 4096 d h = Inr (int n, take n (pipe_bytes h d), d')" "pipe_ok h d'"
      "pipe_bytes h d' = drop n (pipe_bytes h d)" "\<exists>r. d' = d\<lparr>p_rp := r\<rparr>"
    with v len show thesis by (intro that [of d']) auto
  qed (use v in auto)
qed

text \<open>The text is still to be written, is in the pipe, or has arrived.\<close>

definition pl_waits :: "byte list \<Rightarrow> pipe_state pipeline \<Rightarrow> bool" where
  "pl_waits xs s \<longleftrightarrow> pl_in s = xs \<and> length xs \<le> 4096 \<and> pl_out s = [] \<and> bufs_full s \<and> pl_first s \<noteq> None \<and> pl_second s \<noteq> None \<and>
     (case pl_chan s of (k, d, h) \<Rightarrow> chan_ok (k, d, h) \<and> user_ok k \<and> p_rp d = p_buffer d \<and> p_wp d = p_buffer d \<and> length xs \<le> pipe_capacity d)"

definition pl_inside :: "byte list \<Rightarrow> pipe_state pipeline \<Rightarrow> bool" where
  "pl_inside xs s \<longleftrightarrow> pl_in s = [] \<and> pl_out s = [] \<and> bufs_full s \<and> pl_second s \<noteq> None \<and>
     (case pl_chan s of (k, d, h) \<Rightarrow> chan_ok (k, d, h) \<and> user_ok k \<and> p_rp d = p_buffer d \<and> pipe_bytes h d = xs)"

definition pl_arrived :: "byte list \<Rightarrow> pipe_state pipeline \<Rightarrow> bool" where
  "pl_arrived xs s \<longleftrightarrow> pl_in s = [] \<and> pl_out s = xs \<and> bufs_full s \<and>
     (case pl_chan s of (k, d, h) \<Rightarrow> chan_ok (k, d, h) \<and> pipe_bytes h d = [])"

lemma arrived_turn: "pl_arrived xs s \<Longrightarrow> pl_arrived xs (pl_turn (pipe_write fo) (pipe_read fi) t s)"
proof (cases t)
  case True
  assume a: "pl_arrived xs s"
  then have c: "chan_ok (pl_chan s)" and b: "bufs_full s" by (auto simp: pl_arrived_def)
  show ?thesis
    by (rule pc.first_turn_pieces [OF c b, of fo fi]) (use a in \<open>auto simp: True pl_arrived_def split: prod.splits\<close>)
next
  case False
  assume a: "pl_arrived xs s"
  then have c: "chan_ok (pl_chan s)" and b: "bufs_full s" by (auto simp: pl_arrived_def)
  show ?thesis using pc.second_turn [OF c b, of fo fi] a by (auto simp: False pl_arrived_def split: prod.splits)
qed

lemma waits_turn:
  assumes "pl_waits xs s" and "xs \<noteq> []"
  shows "pl_waits xs (pl_turn (pipe_write fo) (pipe_read fi) False s)" and "pl_inside xs (pl_turn (pipe_write fo) (pipe_read fi) True s)"
proof -
  obtain k d h v w where s: "pl_chan s = (k, d, h)" "pl_first s = Some v" "pl_second s = Some w"
    using assms(1) by (cases "pl_chan s") (auto simp: pl_waits_def)
  have ok: "kernel_ok k" "pipe_ok h d" "0 < p_sem d" "user_ok k" and p: "p_rp d = p_buffer d" "p_wp d = p_buffer d" "length xs \<le> pipe_capacity d"
    and b: "length (nb_buf v) = 4096" "length (nb_buf w) = 4096" and xs: "pl_in s = xs" "pl_out s = []" "bufs_full s" and l: "length xs \<le> 4096"
    using assms(1) s by (simp_all add: pl_waits_def chan_ok_def bufs_full_def)
  have e: "pipe_bytes h d = []" using pipe_empty [OF ok(2)] p by simp
  have "pipe_read fi 4096 (k, d, h) = (if fi = O_NONBLOCK then Some (Inl EAGAIN, k, d, h) else None)"
    using p by (simp add: pipe_read_def read_call_ok [OF ok(2,3)] e p_read_nonblock_def)
  then show "pl_waits xs (pl_turn (pipe_write fo) (pipe_read fi) False s)"
    using assms(1) s b by (simp add: pl_turn_def nb_round_def nb_read_def nb_write_def nb_stops_def pl_waits_def bufs_full_def)
  obtain d' h' where w: "p_write_nonblock k False xs (length xs) d h = Inr (int (length xs), d', h')" "pipe_ok h' d'" "pipe_bytes h' d' = xs"
    "p_rp d' = p_buffer d'" "p_sem d' = p_sem d" by (rule fresh_write [OF ok(1,4,2) p(1,2) assms(2) p(3)])
  have "length xs \<noteq> 0" "0 < pipe_capacity d" using assms(2) p(3) by (cases xs, auto)+
  then have "pipe_write fo xs (k, d, h) = Some (Inr (length xs), k, d', h')"
    using w(1) by (simp add: pipe_write_def write_call_ok [OF ok(2,3)] e)
  moreover have "take (length xs) (overwrite (nb_buf v) 0 xs) = xs" using b l by (simp add: nb_buf_take)
  ultimately show "pl_inside xs (pl_turn (pipe_write fo) (pipe_read fi) True s)"
    using s b l w ok xs by (simp add: pl_turn_def nb_round_def nb_read_def nb_write_def nb_stops_def pl_inside_def bufs_full_def
        text_read_def chan_ok_def)
qed

lemma inside_turn:
  assumes "pl_inside xs s" and "xs \<noteq> []" and "length xs \<le> 4096"
  shows "pl_inside xs (pl_turn (pipe_write fo) (pipe_read fi) True s)" and "pl_arrived xs (pl_turn (pipe_write fo) (pipe_read fi) False s)"
proof -
  obtain k d h w where s: "pl_chan s = (k, d, h)" "pl_second s = Some w"
    using assms(1) by (cases "pl_chan s") (auto simp: pl_inside_def)
  have ok: "kernel_ok k" "pipe_ok h d" "0 < p_sem d" "user_ok k" and p: "p_rp d = p_buffer d" and xs: "pipe_bytes h d = xs"
    and b: "length (nb_buf w) = 4096" and e: "pl_in s = []" "pl_out s = []" "bufs_full s"
    using assms(1) s by (simp_all add: pl_inside_def chan_ok_def bufs_full_def)
  obtain d' where r: "p_read_nonblock k False 4096 d h = Inr (int (length xs), xs, d')" "pipe_ok h d'" "pipe_bytes h d' = []" "p_sem d' = p_sem d"
    by (rule whole_read [OF ok(4,2) p]) (use assms xs in auto)
  then have "pipe_read fi 4096 (k, d, h) = Some (Inr xs, k, d', h)"
    using assms(2) by (simp add: pipe_read_def read_call_ok [OF ok(2,3)] xs)
  then show "pl_arrived xs (pl_turn (pipe_write fo) (pipe_read fi) False s)"
    using s b e assms(3) r ok nb_buf_take [of xs "nb_buf w"]
    by (simp add: pl_turn_def nb_round_def nb_read_def nb_write_def nb_stops_def pl_arrived_def bufs_full_def file_write_def chan_ok_def)
  let ?s = "pl_turn (pipe_write fo) (pipe_read fi) True s"
  have c: "chan_ok (pl_chan s)" using ok by (simp add: s chan_ok_def)
  note wr = pipe_write_keeps [OF c [unfolded s(1)], of fo "[]"]
  have keep: "pl_second ?s = Some w \<and> (\<exists>w' h'. pl_chan ?s = (k, d\<lparr>p_wp := w'\<rparr>, h'))"
  proof (cases "pl_first s = None \<or> (\<exists>v. pl_first s = Some v \<and> nb_round text_read (pipe_write fo) (v, pl_in s, pl_chan s) = None)")
    case True
    then have "?s = s" by (auto simp: pl_turn_def)
    then show ?thesis using s by (auto intro!: exI [of _ "p_wp d"])
  next
    case False
    then obtain v where "pl_first s = Some v" by auto
    with False s e show ?thesis
      by (auto simp: pl_turn_def nb_round_def nb_read_def nb_write_def text_read_def dest!: wr split: option.splits sum.splits)
  qed
  show "pl_inside xs ?s"
    by (rule pc.first_turn_pieces [OF c e(3), of fo fi])
      (use keep e s xs p ok(4) in \<open>auto simp: pl_inside_def\<close>)
qed

lemma fitting_text_arrives:
  assumes "xs \<noteq> []" and "length xs \<le> 4096" and "pl_waits xs s"
  shows "pl_arrived xs (run_pl (pipe_write fo) (pipe_read fi) (a @ True # b @ False # c) s)"
proof -
  let ?run = "run_pl (pipe_write fo) (pipe_read fi)"
  have app: "?run (x @ y) s = ?run y (?run x s)" for x y s by (induction x arbitrary: s) simp_all
  have arr: "pl_arrived xs (?run ts s)" if "pl_arrived xs s" for ts s
    using that by (induction ts arbitrary: s) (simp_all add: arrived_turn)
  have ins: "pl_inside xs (?run ts s) \<or> pl_arrived xs (?run ts s)" if "pl_inside xs s" for ts s
    using that
  proof (induction ts arbitrary: s)
    case (Cons t ts)
    then show ?case using inside_turn [OF Cons.prems assms(1,2), of fo fi] arr by (cases t) auto
  qed simp
  have wait: "pl_waits xs (?run ts s) \<or> pl_inside xs (?run ts s) \<or> pl_arrived xs (?run ts s)" if "pl_waits xs s" for ts s
    using that
  proof (induction ts arbitrary: s)
    case (Cons t ts)
    then show ?case using waits_turn [OF Cons.prems assms(1), of fo fi] ins by (cases t) auto
  qed simp
  have 1: "pl_inside xs (?run (a @ [True]) s) \<or> pl_arrived xs (?run (a @ [True]) s)"
    using wait [OF assms(3), of a] waits_turn(2) [OF _ assms(1)] inside_turn(1) [OF _ assms(1,2)] arrived_turn by (auto simp: app)
  have 2: "pl_inside xs (?run ((a @ [True]) @ b) s) \<or> pl_arrived xs (?run ((a @ [True]) @ b) s)"
    using 1 ins arr unfolding app [of "a @ [True]" b] by blast
  have 3: "pl_arrived xs (?run (((a @ [True]) @ b) @ [False]) s)"
    using 2 inside_turn(2) [OF _ assms(1,2)] arrived_turn unfolding app [of "(a @ [True]) @ b" "[False]"] by auto
  have "pl_arrived xs (?run ((((a @ [True]) @ b) @ [False]) @ c) s)" unfolding app [of "((a @ [True]) @ b) @ [False]" c] by (rule arr [OF 3])
  then show ?thesis by simp
qed

section \<open>Theorem\<close>

text \<open>
  C18. Two nbtest programs with a scull pipe between them, the first copying a text into it and the second copying it out, taking turns in
  any order. What the first program has read is the concatenation of what it gave to its writes, in order; and the bytes that arrive, followed by those still in the pipe,
  are those that were in the pipe followed by what its writes have accepted (nothing for a refused write, the first \<open>n\<close> bytes for one that
  returned \<open>n\<close>). So nothing is reordered, repeated or invented, and the bytes lost are exactly those that a short or refused write has not taken, which
  nbtest forgets: of a text that one read takes in (up to 4096 bytes) never more than the capacity of the pipe arrives,
  whatever the schedule. A text that fits into a fresh pipe arrives completely once each program has had its turn. And nbtest ends only when a call fails for another
  reason than having to wait; the file it then names is the one the call was on.
\<close>

theorem nbtest_pipeline:
  assumes "kernel_ok k" and "pipe_ok h d" and "0 < p_sem d"
    and "run_pl (pipe_write (nb_flags fo)) (pipe_read (nb_flags fi)) ts (pl_start xs (k, d, h)) = s'"
  shows "(\<exists>ws k' d' h'. ws = pl_writes (pipe_write (nb_flags fo)) (pipe_read (nb_flags fi)) ts (pl_start xs (k, d, h)) \<and>
      xs = concat (map fst ws) @ pl_in s' \<and> pl_chan s' = (k', d', h') \<and> pipe_ok h' d' \<and>
      pl_out s' @ pipe_bytes h' d' = pipe_bytes h d @ concat (map accepted ws)) \<and>
    (length xs \<le> 4096 \<longrightarrow> length (pl_out s') \<le> length (pipe_bytes h d) + pipe_capacity d) \<and>
    (user_ok k \<and> p_rp d = p_buffer d \<and> p_wp d = p_buffer d \<and> length xs \<le> min 4096 (pipe_capacity d) \<and>
       ts = before @ True # between @ False # after \<longrightarrow> pl_out s' = xs) \<and>
    (nbtest (pipe_read (nb_flags fi)) wr (k, d, h) b = Some (msg, st, a', b') \<longrightarrow> st = 1 \<and>
       (msg = ''stdin'' \<and> (\<exists>a0 e. pipe_read (nb_flags fi) 4096 a0 = Some (Inl e, a') \<and> e \<noteq> EAGAIN) \<or>
        msg = ''stdout'' \<and> (\<exists>bs b0 e. wr bs b0 = Some (Inl e, b') \<and> e \<noteq> EAGAIN)))"
proof (intro conjI impI)
  have c: "chan_ok (pl_chan (pl_start xs (k, d, h)))" and b: "bufs_full (pl_start xs (k, d, h))"
    using assms(1-3) by (simp_all add: pl_start_def chan_ok_def bufs_full_def nb_init_def)
  obtain k' d' h' where s': "pl_chan s' = (k', d', h')" by (cases "pl_chan s'")
  define ws where "ws = pl_writes (pipe_write (nb_flags fo)) (pipe_read (nb_flags fi)) ts (pl_start xs (k, d, h))"
  have o: "xs = concat (map fst ws) @ pl_in s'" "chan_ok (k', d', h')" "pl_out s' @ pipe_bytes h' d' = pipe_bytes h d @ concat (map accepted ws)"
    using pc.order_kept [OF c b assms(4)] s' unfolding ws_def [symmetric] by (simp_all add: pl_start_def)
  then show "\<exists>ws k' d' h'. ws = pl_writes (pipe_write (nb_flags fo)) (pipe_read (nb_flags fi)) ts (pl_start xs (k, d, h)) \<and>
      xs = concat (map fst ws) @ pl_in s' \<and> pl_chan s' = (k', d', h') \<and> pipe_ok h' d' \<and>
      pl_out s' @ pipe_bytes h' d' = pipe_bytes h d @ concat (map accepted ws)"
    using s' by (intro exI [of _ ws] exI [of _ k'] exI [of _ d'] exI [of _ h']) (simp add: ws_def chan_ok_def)
  show "length (pl_out s') \<le> length (pipe_bytes h d) + pipe_capacity d" if "length xs \<le> 4096"
    using pc.one_offer [OF c b _ assms(4)] that s' by (auto simp: pl_start_def split: if_splits)
  show "pl_out s' = xs" if u: "user_ok k \<and> p_rp d = p_buffer d \<and> p_wp d = p_buffer d \<and> length xs \<le> min 4096 (pipe_capacity d) \<and>
       ts = before @ True # between @ False # after"
  proof (cases "xs = []")
    case True
    have "pipe_bytes h d = []" using u pipe_empty [OF assms(2)] by simp
    moreover
    have "accepted w = []" if "w \<in> set ws" for w using o(1) True that by (auto simp: accepted_def split: sum.splits)
    then have "concat (map accepted ws) = []" by simp
    ultimately have "pl_out s' @ pipe_bytes h' d' = []" using o(3) by (simp only: append_Nil)
    then show ?thesis using True by simp
  next
    case False
    have "pl_waits xs (pl_start xs (k, d, h))" using u b assms(1-3) by (simp add: pl_waits_def pl_start_def chan_ok_def)
    with fitting_text_arrives [OF False _ this, of "nb_flags fo" "nb_flags fi" before between after] u assms(4)
    show ?thesis by (simp add: pl_arrived_def)
  qed
  assume "nbtest (pipe_read (nb_flags fi)) wr (k, d, h) b = Some (msg, st, a', b')"
  then obtain v where v: "nb_loop (pipe_read (nb_flags fi)) wr (nb_init, (k, d, h), b) = Some (v, a', b')"
    "msg = (if nb_n v < 0 then ''stdin'' else ''stdout'')" "st = 1" by (auto simp: nbtest_def)
  show "st = 1" by (fact v(3))
  have "length bs \<le> 4096" if "pipe_read (nb_flags fi) 4096 a = Some (Inr bs, a')" for a bs a'
    using pipe_read_length [OF that] .
  with nb_loop_ends [OF v(1)] v(2) show "msg = ''stdin'' \<and> (\<exists>a0 e. pipe_read (nb_flags fi) 4096 a0 = Some (Inl e, a') \<and> e \<noteq> EAGAIN) \<or>
        msg = ''stdout'' \<and> (\<exists>bs b0 e. wr bs b0 = Some (Inl e, b') \<and> e \<noteq> EAGAIN)"
    by (auto simp: nb_init_def nb_ended_def split: if_splits)
qed

theorem nbtest_pipeline_witness:
  "pl_out (run_pl (pipe_write (nb_flags 1)) (pipe_read (nb_flags 0)) [False, True, True, False]
     (pl_start [1, 2] (simple_kernel, demo_pipe\<lparr>p_rp := 8, p_wp := 8\<rparr>, demo_pipe_heap))) = [1, 2]"
proof -
  let ?d = "demo_pipe\<lparr>p_rp := 8, p_wp := 8\<rparr>"
  have "pipe_ok demo_pipe_heap ?d" "0 < p_sem ?d" "p_rp ?d = p_buffer ?d" "p_wp ?d = p_buffer ?d" "pipe_capacity ?d = 3"
    by (simp_all add: pipe_ok_def pipe_capacity_def demo_pipe_def demo_pipe_heap_def)
  with nbtest_pipeline [OF simple_kernel_ok this(1,2) refl, where fo = 1 and fi = 0 and xs = "[1, 2]" and before = "[False]" and between = "[True]"
      and after = "[]" and ts = "[False, True, True, False]" and wr = file_write] simple_kernel_plenty(2)
  show ?thesis by simp
qed

end
