(* ===== verification/Asyntest.thy ===== *)
theory Asyntest
  imports Nbtest
begin

text \<open>
  The program \<^verbatim>\<open>misc_progs/asyntest.c\<close>: it asks to be told by a signal when a scull pipe has data, and reads when it
  has been told. Other processes write into the pipe at any moment; each write raises the signal, whose handler counts.
\<close>

unbundle bit_operations_syntax

section \<open>The program\<close>

definition SIGIO :: int where "SIGIO = 29"
definition FASYNC :: "32 word" where "FASYNC = 0x2000"

text \<open>Where the program is: in \<^verbatim>\<open>sleep\<close>, at the test, at the read, at the write or at the assignment.\<close>

datatype as_pc = As_sleep | As_test | As_read | As_write | As_clear

record asyn =
  as_pc :: as_pc
  gotdata :: int
  as_count :: int
  as_buffer :: "byte list"

record as_sys =
  ay_prog :: asyn
  ay_pipe :: pipe_state
  ay_out :: "byte list"    \<comment> \<open>what the program has written to the terminal\<close>
  ay_sent :: "byte list"   \<comment> \<open>ghost: what the pipe has taken since the start\<close>

definition input_handler :: "int \<Rightarrow> asyn \<Rightarrow> asyn" where
  "input_handler signo v = (if signo = SIGIO then v\<lparr>gotdata := s32 (gotdata v + 1)\<rparr> else v)"

definition as_flags :: "32 word \<Rightarrow> 32 word" where
  \<comment> \<open>\<open>fcntl(fd, F_SETFL, oflags | FASYNC)\<close>\<close>
  "as_flags oflags = oflags OR FASYNC"

definition as_start :: "(int \<Rightarrow> bool \<Rightarrow> bool \<Rightarrow> int \<times> bool) \<Rightarrow> int \<Rightarrow> pipe_state \<Rightarrow> as_sys" where
  \<comment> \<open>setting the flag calls \<open>scull_p_fasync\<close>\<close>
  "as_start helper fd p = (case p of (k, d, h) \<Rightarrow>
     \<lparr>ay_prog = \<lparr>as_pc = As_sleep, gotdata = 0, as_count = 0, as_buffer = replicate 4096 0\<rparr>,
      ay_pipe = (k, snd (scull_p_fasync helper fd True d), h), ay_out = [], ay_sent = []\<rparr>)"

definition as_next :: "32 word \<Rightarrow> as_sys \<Rightarrow> as_sys option" where
  \<comment> \<open>the next step of the program; \<open>None\<close>: it waits in the read\<close>
  "as_next fl s = (let v = ay_prog s in
     case as_pc v of
       As_sleep \<Rightarrow> Some (s\<lparr>ay_prog := v\<lparr>as_pc := As_test\<rparr>\<rparr>)
     | As_test \<Rightarrow> Some (s\<lparr>ay_prog := v\<lparr>as_pc := if gotdata v = 0 then As_sleep else As_read\<rparr>\<rparr>)
     | As_read \<Rightarrow>
         (case pipe_read fl 4096 (ay_pipe s) of
            None \<Rightarrow> None
          | Some (Inl e, p) \<Rightarrow> Some (s\<lparr>ay_prog := v\<lparr>as_pc := As_write, as_count := - 1\<rparr>, ay_pipe := p\<rparr>)
          | Some (Inr bs, p) \<Rightarrow>
              Some (s\<lparr>ay_prog := v\<lparr>as_pc := As_write, as_count := int (length bs), as_buffer := overwrite (as_buffer v) 0 bs\<rparr>, ay_pipe := p\<rparr>))
     | As_write \<Rightarrow>
         \<comment> \<open>a count of -1 is a huge size, for which \<open>write(2)\<close> fails\<close>
         Some (s\<lparr>ay_prog := v\<lparr>as_pc := As_clear\<rparr>,
                 ay_out := ay_out s @ (if as_count v < 0 then [] else take (nat (as_count v)) (as_buffer v))\<rparr>)
     | As_clear \<Rightarrow> Some (s\<lparr>ay_prog := v\<lparr>as_pc := As_sleep, gotdata := 0\<rparr>\<rparr>))"

fun as_run :: "nat \<Rightarrow> 32 word \<Rightarrow> as_sys \<Rightarrow> as_sys" where
  \<comment> \<open>the program on its own for \<open>n\<close> steps\<close>
  "as_run 0 fl s = s"
| "as_run (Suc n) fl s = (case as_next fl s of None \<Rightarrow> s | Some s' \<Rightarrow> as_run n fl s')"

section \<open>The program and its environment\<close>

definition other_write :: "32 word \<Rightarrow> byte list \<Rightarrow> as_sys \<Rightarrow> as_sys option" where
  \<comment> \<open>another process writes; \<open>kill_fasync\<close> at the end of \<open>scull_p_write\<close> runs the handler if the program is registered\<close>
  "other_write fl bs s =
     (case pipe_write fl bs (ay_pipe s) of
        Some (Inr n, p) \<Rightarrow>
          (case p of (k, d, h) \<Rightarrow>
             Some (s\<lparr>ay_pipe := p, ay_sent := ay_sent s @ take n bs,
                     ay_prog := if p_async d then input_handler SIGIO (ay_prog s) else ay_prog s\<rparr>))
      | _ \<Rightarrow> None)"

inductive as_step :: "32 word \<Rightarrow> as_sys \<Rightarrow> as_sys \<Rightarrow> bool" for fl where
  program: "as_next fl s = Some s' \<Longrightarrow> as_step fl s s'"
| others: "other_write fl' bs s = Some s' \<Longrightarrow> as_step fl s s'"
| interrupted: "as_pc (ay_prog s) = As_read \<Longrightarrow> pipe_read fl 4096 (ay_pipe s) = None \<Longrightarrow>
    as_step fl s (s\<lparr>ay_prog := (input_handler SIGIO (ay_prog s))\<lparr>as_pc := As_write, as_count := - 1\<rparr>\<rparr>)"
    \<comment> \<open>a signal while the read waits: the handler has no \<open>SA_RESTART\<close>\<close>

inductive as_reach :: "32 word \<Rightarrow> as_sys \<Rightarrow> as_sys \<Rightarrow> bool" for fl s0 where
  initial: "as_reach fl s0 s0"
| later: "as_reach fl s0 s \<Longrightarrow> as_step fl s s' \<Longrightarrow> as_reach fl s0 s'"

section \<open>Invariant\<close>

definition as_held :: "asyn \<Rightarrow> byte list" where
  \<comment> \<open>read and not yet written\<close>
  "as_held v = (if as_pc v = As_write \<and> 0 \<le> as_count v then take (nat (as_count v)) (as_buffer v) else [])"

definition as_bytes :: "as_sys \<Rightarrow> byte list" where
  "as_bytes s = (case ay_pipe s of (k, d, h) \<Rightarrow> pipe_bytes h d)"

definition as_inv :: "kernel \<Rightarrow> byte list \<Rightarrow> as_sys \<Rightarrow> bool" where
  \<comment> \<open>\<open>start\<close> was in the pipe at first; the program stays registered\<close>
  "as_inv k start s \<longleftrightarrow> chan_ok (ay_pipe s) \<and> fst (ay_pipe s) = k \<and> p_async (fst (snd (ay_pipe s))) \<and> length (as_buffer (ay_prog s)) = 4096 \<and>
     ay_out s @ as_held (ay_prog s) @ as_bytes s = start @ ay_sent s"

lemma as_inv_next:
  assumes "as_inv k start s" and "as_next fl s = Some s'"
  shows "as_inv k start s'"
proof (cases "as_pc (ay_prog s)")
  case As_read
  then obtain r q where r: "pipe_read fl 4096 (ay_pipe s) = Some (r, q)" using assms(2) by (auto simp: as_next_def Let_def split: option.splits)
  have c: "chan_ok (ay_pipe s)" using assms(1) by (simp add: as_inv_def)
  obtain k' d h where p: "ay_pipe s = (k', d, h)" by (cases "ay_pipe s")
  note ok = pc.rd_ok [OF c r] and len = pipe_read_length [of fl 4096 "ay_pipe s"] and keeps = pipe_read_keeps [OF c [unfolded p] r [unfolded p]]
  show ?thesis using As_read r assms ok len [of _ q] keeps p
    by (cases r) (auto simp: as_next_def as_inv_def as_held_def as_bytes_def nb_buf_take Let_def split: prod.splits)
qed (use assms in \<open>auto simp: as_next_def as_inv_def as_held_def as_bytes_def Let_def split: if_splits\<close>)

lemma as_inv_others:
  assumes "as_inv k start s" and "other_write fl bs s = Some s'"
  shows "as_inv k start s'"
proof -
  from assms(2) obtain n k d h where w: "pipe_write fl bs (ay_pipe s) = Some (Inr n, k, d, h)"
    and s': "s' = s\<lparr>ay_pipe := (k, d, h), ay_sent := ay_sent s @ take n bs, ay_prog := if p_async d then input_handler SIGIO (ay_prog s) else ay_prog s\<rparr>"
    by (auto simp: other_write_def split: option.splits sum.splits)
  have c: "chan_ok (ay_pipe s)" using assms(1) by (simp add: as_inv_def)
  obtain k' d' h' where p: "ay_pipe s = (k', d', h')" by (cases "ay_pipe s")
  from pc.wr_ok [OF c w] pipe_write_keeps [OF c [unfolded p] w [unfolded p]] assms(1) p show ?thesis
    by (auto simp: s' as_inv_def as_held_def as_bytes_def input_handler_def split: prod.splits)
qed

lemma as_inv_step:
  assumes "as_inv k start s" and "as_step fl s s'"
  shows "as_inv k start s'"
  using assms(2)
proof cases
  case program
  with assms(1) show ?thesis by (rule as_inv_next)
next
  case (others fl' bs)
  with assms(1) show ?thesis by (rule as_inv_others)
next
  case interrupted
  with assms(1) show ?thesis by (auto simp: as_inv_def as_held_def as_bytes_def input_handler_def)
qed

lemma as_inv_reach: "as_reach fl s0 s \<Longrightarrow> as_inv k start s0 \<Longrightarrow> as_inv k start s"
  by (induction rule: as_reach.induct) (auto intro: as_inv_step)

section \<open>Told in time, and too late\<close>

lemma as_notices:
  assumes "as_inv k start s" and "user_ok k" and "as_pc (ay_prog s) = As_sleep" and "gotdata (ay_prog s) \<noteq> 0" and "as_bytes s \<noteq> []"
  shows "\<exists>bs. bs \<noteq> [] \<and> ay_out (as_run 5 fl s) = ay_out s @ bs \<and> as_bytes s = bs @ as_bytes (as_run 5 fl s)"
proof -
  obtain d h where p: "ay_pipe s = (k, d, h)" using assms(1) by (cases "ay_pipe s") (auto simp: as_inv_def)
  have c: "chan_ok (ay_pipe s)" and buf: "length (as_buffer (ay_prog s)) = 4096" using assms(1) by (simp_all add: as_inv_def)
  obtain bs d' where r: "pipe_read fl 4096 (k, d, h) = Some (Inr bs, k, d', h)" "bs \<noteq> []"
    by (rule pipe_read_data [of k h d 4096 fl]) (use assms(2,5) c in \<open>auto simp: p chan_ok_def as_bytes_def\<close>)
  have "take (length bs) (overwrite (as_buffer (ay_prog s)) 0 bs) = bs"
    using pipe_read_length [OF r(1)] buf by (simp add: nb_buf_take)
  with r p assms(3,4) have "ay_out (as_run 5 fl s) = ay_out s @ bs" "ay_pipe (as_run 5 fl s) = (k, d', h)"
    by (simp_all add: numeral_eq_Suc as_next_def Let_def)
  moreover have "pipe_bytes h d = bs @ pipe_bytes h d'" using pc.rd_ok [OF c [unfolded p] r(1)] by simp
  ultimately show ?thesis using r(2) p by (auto simp: as_bytes_def)
qed

definition as_idle :: "as_sys \<Rightarrow> bool" where
  "as_idle s \<longleftrightarrow> as_pc (ay_prog s) \<in> {As_sleep, As_test} \<and> gotdata (ay_prog s) = 0"

lemma as_idle_run: "as_idle s \<Longrightarrow> as_idle (as_run m fl s) \<and> ay_out (as_run m fl s) = ay_out s \<and> ay_pipe (as_run m fl s) = ay_pipe s"
proof (induction m arbitrary: s)
  case (Suc m)
  then obtain s' where s': "as_next fl s = Some s'" "as_idle s'" "ay_out s' = ay_out s" "ay_pipe s' = ay_pipe s"
    by (auto simp: as_idle_def as_next_def)
  with Suc.IH [OF s'(2)] show ?case by simp
qed simp

lemma as_forgets:
  assumes "as_pc (ay_prog s) = As_write"
  shows "as_idle (as_run 2 fl s) \<and> ay_pipe (as_run 2 fl s) = ay_pipe s"
  using assms by (simp add: numeral_eq_Suc as_next_def as_idle_def Let_def)

section \<open>Theorem\<close>

text \<open>
  C19. asyntest on a scull pipe that others write to. In every reachable state the bytes the program has shown, those it holds and those still in the pipe
  are all the bytes there were and were sent, in order. If it is asleep with data in the pipe and a signal noticed, then its next round
  shows a non-empty part of them. But the counter is reset after the read: bytes that the pipe takes between the read and
  the reset leave the program asleep with data in the pipe and nothing noticed, and it never shows them until something else is written.
\<close>

theorem asyntest_notified:
  assumes "kernel_ok k" and "pipe_ok h d" and "0 < p_sem d" and "user_ok k" and "snd (helper fd True (p_async d))"
    and "as_reach (as_flags oflags) (as_start helper fd (k, d, h)) s"
  shows "ay_out s @ as_held (ay_prog s) @ as_bytes s = pipe_bytes h d @ ay_sent s \<and>
    (as_pc (ay_prog s) = As_sleep \<and> gotdata (ay_prog s) \<noteq> 0 \<and> as_bytes s \<noteq> [] \<longrightarrow>
       (\<exists>bs. bs \<noteq> [] \<and> ay_out (as_run 5 (as_flags oflags) s) = ay_out s @ bs \<and> as_bytes s = bs @ as_bytes (as_run 5 (as_flags oflags) s))) \<and>
    (\<forall>fl bs s1. as_pc (ay_prog s) = As_sleep \<and> gotdata (ay_prog s) = 0 \<and> other_write fl bs s = Some s1 \<longrightarrow> gotdata (ay_prog s1) = 1) \<and>
    (\<forall>fl bs s1 m. as_pc (ay_prog s) = As_write \<and> other_write fl bs s = Some s1 \<longrightarrow>
       (let s2 = as_run 2 (as_flags oflags) s1 in
        as_bytes s2 = as_bytes s1 \<and> gotdata (ay_prog s2) = 0 \<and>
        ay_out (as_run m (as_flags oflags) s2) = ay_out s2 \<and> as_bytes (as_run m (as_flags oflags) s2) = as_bytes s2))"
proof (intro conjI allI impI)
  let ?fl = "as_flags oflags"
  have "as_inv k (pipe_bytes h d) (as_start helper fd (k, d, h))"
    using assms(1-3,5) by (auto simp: as_inv_def as_start_def as_held_def as_bytes_def chan_ok_def scull_p_fasync_def split: prod.splits)
  then have inv: "as_inv k (pipe_bytes h d) s" by (rule as_inv_reach [OF assms(6)])
  then show "ay_out s @ as_held (ay_prog s) @ as_bytes s = pipe_bytes h d @ ay_sent s" by (simp add: as_inv_def)
  show "\<exists>bs. bs \<noteq> [] \<and> ay_out (as_run 5 ?fl s) = ay_out s @ bs \<and> as_bytes s = bs @ as_bytes (as_run 5 ?fl s)"
    if "as_pc (ay_prog s) = As_sleep \<and> gotdata (ay_prog s) \<noteq> 0 \<and> as_bytes s \<noteq> []"
    using as_notices [OF inv assms(4), of ?fl] that by simp
  show "gotdata (ay_prog s1) = 1" if w: "as_pc (ay_prog s) = As_sleep \<and> gotdata (ay_prog s) = 0 \<and> other_write fl bs s = Some s1" for fl bs s1
  proof -
    obtain n p where "pipe_write fl bs (ay_pipe s) = Some (Inr n, p)" using w by (auto simp: other_write_def split: option.splits sum.splits)
    with as_inv_others [OF inv, of fl bs s1] w show ?thesis
      by (auto simp: other_write_def input_handler_def as_inv_def s32_id split: prod.splits if_splits)
  qed
  show "let s2 = as_run 2 ?fl s1 in as_bytes s2 = as_bytes s1 \<and> gotdata (ay_prog s2) = 0 \<and>
        ay_out (as_run m ?fl s2) = ay_out s2 \<and> as_bytes (as_run m ?fl s2) = as_bytes s2"
    if "as_pc (ay_prog s) = As_write \<and> other_write fl bs s = Some s1" for fl bs s1 m
  proof -
    have "as_pc (ay_prog s1) = As_write"
      using that by (auto simp: other_write_def input_handler_def split: option.splits sum.splits prod.splits)
    from as_forgets [OF this, of ?fl] as_idle_run [of "as_run 2 ?fl s1" m ?fl] show ?thesis by (auto simp: as_bytes_def as_idle_def Let_def)
  qed
qed

theorem asyntest_notified_witness:
  "\<exists>s1. other_write 1 [7] (as_start (\<lambda>fd mode q. (1, mode)) 3 (simple_kernel, demo_pipe, demo_pipe_heap)) = Some s1 \<and> gotdata (ay_prog s1) = 1 \<and>
    as_bytes s1 = [5, 6, 7]"
proof -
  let ?d = "demo_pipe\<lparr>p_async := True\<rparr>" and ?s = "as_start (\<lambda>fd mode q. (1, mode)) 3 (simple_kernel, demo_pipe, demo_pipe_heap)"
  have d: "pipe_ok demo_pipe_heap ?d" "0 < p_sem ?d" "pipe_bytes demo_pipe_heap ?d = [5, 6]" "pipe_capacity ?d = 3"
    by (simp_all add: pipe_ok_def pipe_bytes_def ring_def pipe_capacity_def demo_pipe_def demo_pipe_heap_def)
  have "\<exists>d' h'. p_write_nonblock simple_kernel False [7] 1 ?d demo_pipe_heap = Inr (1, d', h') \<and> pipe_bytes h' d' = [5, 6, 7]"
    by (simp add: p_write_nonblock_def p_write_body_def spacefree_def cmod_def signed_modulo_int_def signed_divide_int_def s32_def s64_def
        clamp_def u64_def write_blk_def load_def poke_def overwrite_def p_down_def p_up_def Let_def simple_kernel_def demo_pipe_def
        demo_pipe_heap_def pipe_bytes_def ring_def)
  then obtain d' h' where "pipe_write 1 [7] (simple_kernel, ?d, demo_pipe_heap) = Some (Inr 1, simple_kernel, d', h')" "pipe_bytes h' d' = [5, 6, 7]"
    by (auto simp: pipe_write_def write_call_ok [OF d(1,2)] d(3,4) demo_pipe_bytes)
  then obtain s1 where s1: "other_write 1 [7] ?s = Some s1" "as_bytes s1 = [5, 6, 7]"
    by (auto simp: other_write_def as_start_def scull_p_fasync_def as_bytes_def)
  have "0 < p_sem demo_pipe" by (simp add: demo_pipe_fields)
  from asyntest_notified [OF simple_kernel_ok demo_pipe_ok this simple_kernel_plenty(2), of "\<lambda>fd mode q. (1, mode)" 3, OF _ as_reach.initial] s1
  show ?thesis by (auto simp: as_start_def)
qed

end
