(* ===== verification/Sculluidtst.thy ===== *)
theory Sculluidtst
  imports Scull_Files Printf
begin

text \<open>
  The program \<^verbatim>\<open>misc_progs/sculluidtst.c\<close> on the files of the module scull: it opens \<open>scull_uid\<close>, prints what it can
  read, and keeps the device for its user as long as it runs.
\<close>

unbundle bit_operations_syntax

section \<open>The program\<close>

text \<open>What appears on the terminal: a message of the program, or bytes it has read.\<close>

datatype shown = Message string | Bytes "byte list"

record uidtst =
  ut_fd :: int
  ut_buffer :: "byte list"
  ut_out :: "shown list"

definition O_RDWR :: "32 word" where "O_RDWR = 2"

definition ut_print :: "string \<Rightarrow> uidtst \<Rightarrow> uidtst" where
  "ut_print text v = v\<lparr>ut_out := ut_out v @ [Message text]\<rparr>"

definition ut_start :: "kernel \<Rightarrow> opener \<Rightarrow> 'u fsys \<Rightarrow> (uidtst \<times> 'u fsys) option res" where
  \<comment> \<open>up to the loop; the result of the open is not looked at. The library turns a negative result into -1\<close>
  "ut_start k p s = bindE (fs_open k Scull_uid p O_RDWR s) (\<lambda>r. case r of None \<Rightarrow> Inr None
     | Some (v, s1) \<Rightarrow> Inr (Some (ut_print (''Am i running ?'' @ nl) \<lparr>ut_fd = (if v < 0 then - 1 else v), ut_buffer = replicate 4096 0, ut_out = []\<rparr>, s1)))"

definition ut_read :: "kernel \<Rightarrow> uidtst \<Rightarrow> 'u fsys \<Rightarrow> (int \<times> uidtst \<times> 'u fsys) res" where
  \<comment> \<open>\<open>count = read(fd, buffer, 4096)\<close>; no file has the number -1\<close>
  "ut_read k v s =
     (if ut_fd v < 0 then Inr (- 1, v, s)
      else bindE (fs_read k (nat (ut_fd v)) False 4096 s) (\<lambda>(n, bs, s1).
        if n < 0 then Inr (- 1, v, s1) else Inr (n, v\<lparr>ut_buffer := overwrite (ut_buffer v) 0 bs\<rparr>, s1)))"

definition ut_round :: "kernel \<Rightarrow> uidtst \<Rightarrow> 'u fsys \<Rightarrow> (uidtst \<times> 'u fsys) res" where
  \<comment> \<open>a count of -1 is a huge size, for which \<open>write(2)\<close> fails\<close>
  "ut_round k v s =
     bindE (ut_read k (ut_print (''Begin reading ...'' @ nl) v) s) (\<lambda>(n, v1, s1).
       Inr (v1\<lparr>ut_out := ut_out v1 @ [Bytes (if n < 0 then [] else take (nat n) (ut_buffer v1))]\<rparr>, s1))"

fun ut_loop :: "kernel \<Rightarrow> nat \<Rightarrow> uidtst \<Rightarrow> 'u fsys \<Rightarrow> (uidtst \<times> 'u fsys) res" where
  \<comment> \<open>the first \<open>n\<close> rounds of the loop, which has no end\<close>
  "ut_loop k 0 v s = Inr (v, s)"
| "ut_loop k (Suc n) v s = bindE (ut_round k v s) (\<lambda>(v1, s1). ut_loop k n v1 s1)"

definition sculluidtst :: "kernel \<Rightarrow> opener \<Rightarrow> nat \<Rightarrow> 'u fsys \<Rightarrow> (uidtst \<times> 'u fsys) option res" where
  "sculluidtst k p n s = bindE (ut_start k p s) (\<lambda>r. case r of None \<Rightarrow> Inr None
     | Some (v, s1) \<Rightarrow> bindE (ut_loop k n v s1) (\<lambda>x. Inr (Some x)))"

section \<open>Reading the device\<close>

fun shown_bytes :: "shown list \<Rightarrow> byte list" where
  "shown_bytes [] = []"
| "shown_bytes (Message t # xs) = shown_bytes xs"
| "shown_bytes (Bytes bs # xs) = bs @ shown_bytes xs"

lemma shown_bytes_append [simp]: "shown_bytes (xs @ ys) = shown_bytes xs @ shown_bytes ys"
  by (induction xs rule: shown_bytes.induct) simp_all

definition uid_byte :: "'u fsys \<Rightarrow> nat \<Rightarrow> byte" where
  "uid_byte s = (let d = acc_dev (fy_uid s) in byte_at (fy_heap s) d (nodes d (fy_heap s)))"

definition uid_size :: "'u fsys \<Rightarrow> int" where
  "uid_size s = dsize (acc_dev (fy_uid s))"

definition uid_dense :: "'u fsys \<Rightarrow> bool" where
  \<comment> \<open>the device has a block for each of its bytes\<close>
  "uid_dense s \<longleftrightarrow> (let d = acc_dev (fy_uid s) in \<forall>q. int q < dsize d \<longrightarrow> blk_at d (nodes d (fy_heap s)) q \<noteq> NULL)"

definition uid_file :: "int \<Rightarrow> 'u fsys \<Rightarrow> open_file option" where
  "uid_file fd s = (if fd < 0 then None else case lookup_file (nat fd) s of None \<Rightarrow> None
     | Some f \<Rightarrow> if of_target f = T_uid \<and> can_read (of_flags f) then Some f else None)"

definition same_uid :: "'u fsys \<Rightarrow> 'u fsys \<Rightarrow> bool" where
  \<comment> \<open>the device shows the same and belongs to the same user\<close>
  "same_uid s s' \<longleftrightarrow> uid_byte s' = uid_byte s \<and> uid_size s' = uid_size s \<and> (uid_dense s \<longrightarrow> uid_dense s') \<and>
     acc_count (fy_uid s') = acc_count (fy_uid s) \<and> acc_owner (fy_uid s') = acc_owner (fy_uid s)"

lemma uid_dev:
  assumes "fs_inv k h0 n s"
  shows "dev_of M_scull 0 n (acc_dev (fy_uid s))" and "\<exists>gs. dev_inv (fy_heap s) (acc_dev (fy_uid s)) gs"
proof -
  note D = fs_invD [OF assms]
  have at: "5 < length (fs_devs s)" "fs_devs s ! 5 = acc_dev (fy_uid s)" using dev_at [OF D(2), of T_uid] by simp_all
  show "dev_of M_scull 0 n (acc_dev (fy_uid s))" using mod_invD(2) [OF D(1), of 5] at by simp
  obtain gss where "devs_ok k (fy_globals s) (fy_heap s) (fs_devs s) gss" using mod_invD(3) [OF D(1), of 5] at by auto
  then show "\<exists>gs. dev_inv (fy_heap s) (acc_dev (fy_uid s)) gs" using at by (metis devs_ok_def)
qed

lemma fs_read_uid:
  assumes k: "kernel_ok k" and inv: "fs_inv k h0 n s" and b: "n + count < 2 ^ 31" and f: "uid_file fd s = Some f"
  obtains v bs s' c where "fs_read k (nat fd) False count s = Inr (v, bs, s')" and "fs_inv k h0 (n + count) s'" and "same_uid s s'"
    and "uid_file fd s' = Some (f\<lparr>of_pos := of_pos f + int c\<rparr>)" and "length (fy_files s') = length (fy_files s)"
    and "v < 0 \<and> c = 0 \<or> v = int c \<and> bs = map (uid_byte s) [nat (of_pos f) ..< nat (of_pos f) + c]" and "c \<le> count"
    and "c = 0 \<or> of_pos f + int c \<le> uid_size s" and "user_ok k \<and> uid_dense s \<and> 0 < count \<and> of_pos f < uid_size s \<Longrightarrow> 0 < c"
proof -
  let ?d = "acc_dev (fy_uid s)" and ?p = "of_pos f"
  have fd: "lookup_file (nat fd) s = Some f" "of_target f = T_uid" "can_read (of_flags f)" "0 \<le> fd"
    using f by (auto simp: uid_file_def split: if_splits option.splits)
  note dv = uid_dev(1) [OF inv] and F = fs_invD(6) [OF inv fd(1)]
  have pos: "0 \<le> ?p" "?p < 2 ^ 31" using F b by auto
  obtain gs where gs: "dev_inv (fy_heap s) ?d gs" using uid_dev(2) [OF inv] by blast
  have "n + count < 2 ^ 62" using b by simp
  from near_in_range [OF gs dv pos this] have rng: "in_range ?d ?p count" .
  obtain r gs' where r: "scull_read k False ?d ?d (fy_heap s) count ?p = Inr r" "read_outcome k ?d gs (fy_heap s) count ?p r gs'"
    by (rule scull_read_cases [OF k gs rng])
  let ?s = "store_io (nat fd) f r s"
  have rd: "fs_read k (nat fd) False count s = Inr (ret r, out r, ?s)" using fd r(1) by (simp add: fs_read_def scull_u_fops_def Let_def)
  have inv': "fs_inv k h0 (n + count) ?s" using fs_read_ok [OF k inv b, of "nat fd" False] rd by auto
  have fr: "io_frame ?d gs (fy_heap s) r gs'" and sz: "dsize (dev' r) = dsize ?d" and bt: "byte_at (heap' r) (dev' r) gs' = byte_at (fy_heap s) ?d gs"
    using r(2) by (simp_all add: read_outcome_def)
  have nd: "nodes (dev' r) (heap' r) = gs'" "nodes ?d (fy_heap s) = gs" using fr gs by (simp_all add: io_frame_def nodes_eq)
  have sh: "acc_dev (fy_uid ?s) = dev' r" "fy_heap ?s = heap' r" "acc_count (fy_uid ?s) = acc_count (fy_uid s)" "acc_owner (fy_uid ?s) = acc_owner (fy_uid s)"
    using fd by (simp_all add: store_io_def)
  have "blk_at (dev' r) = blk_at ?d" using fr same_shape_contents(2) by (auto simp: io_frame_def)
  with fr sz nd have dense: "uid_dense s \<Longrightarrow> uid_dense ?s" by (simp add: uid_dense_def sh Let_def io_frame_def blocks_kept_def)
  with bt sz nd have same: "same_uid s ?s" by (simp add: same_uid_def uid_byte_def uid_size_def sh Let_def)
  have "nat fd < length (fy_files s)" using fd(1) by (auto simp: lookup_file_def split: if_splits)
  then have new: "uid_file fd ?s = Some (f\<lparr>of_pos := pos' r\<rparr>)" using fd by (simp add: uid_file_def store_io_def lookup_file_def)
  let ?m = "min (chunk ?d (nat ?p) count) (nat (dsize ?d - ?p))"
  have m: "?m \<le> count" by (simp add: chunk_def)
  have low: "0 < ?m" if "0 < count" "?p < dsize ?d"
    using that pos off_bound [OF dev_invD(1) [OF gs], of "nat ?p"] by (simp add: chunk_def)
  show thesis
  proof (cases "dsize ?d \<le> ?p \<or> blk_at ?d gs (nat ?p) = NULL")
    case True
    then have o: "ret r = 0" "pos' r = ?p" "out r = []" using r(2) by (simp_all add: read_outcome_def)
    show thesis
      by (rule that [OF rd inv' same, of 0]) (use o new True pos nd in \<open>auto simp: uid_size_def uid_dense_def Let_def dest!: spec [of _ "nat ?p"]\<close>)
  next
    case False
    have o: "out r = map (uid_byte s) [nat ?p ..< nat ?p + ?m]"
      "if copy_to_user k (out r) = 0 then ret r = int ?m \<and> pos' r = ?p + int ?m else ret r = - EFAULT \<and> pos' r = ?p"
      using r(2) False nd by (simp_all add: read_outcome_def uid_byte_def Let_def)
    show thesis
      by (rule that [OF rd inv' same, of "if copy_to_user k (out r) = 0 then ?m else 0"])
        (use o new False low pos m in \<open>auto simp: uid_size_def user_ok_def\<close>)
  qed
qed

section \<open>The loop\<close>

lemma same_uid_trans: "same_uid s s1 \<Longrightarrow> same_uid s1 s2 \<Longrightarrow> same_uid s s2"
  by (simp add: same_uid_def)

definition ut_inv :: "kernel \<Rightarrow> heap \<Rightarrow> nat \<Rightarrow> 'u fsys \<Rightarrow> open_file \<Rightarrow> uidtst \<times> 'u fsys \<Rightarrow> bool" where
  \<comment> \<open>since \<open>s0\<close> the device is the same, and what is on the terminal is the device up to the position of the file\<close>
  "ut_inv k h0 n s0 f = (\<lambda>(v, s). fs_inv k h0 n s \<and> same_uid s0 s \<and> uid_file (ut_fd v) s = Some f \<and> length (ut_buffer v) = 4096 \<and>
     shown_bytes (ut_out v) = map (uid_byte s0) [0 ..< nat (of_pos f)])"

lemma map_upt_append: "map g [0 ..< a] @ map g [a ..< a + c] = map g [0 ..< a + c]"
  by (simp add: upt_add_eq_append [of 0 a c, simplified])

lemma ut_round_ok:
  assumes k: "kernel_ok k" and inv: "ut_inv k h0 n s0 f (v, s)" and b: "n + 4096 < 2 ^ 31"
  obtains v' s' c where "ut_round k v s = Inr (v', s')" and "ut_inv k h0 (n + 4096) s0 (f\<lparr>of_pos := of_pos f + int c\<rparr>) (v', s')" and "ut_fd v' = ut_fd v"
    and "c = 0 \<or> of_pos f + int c \<le> uid_size s0" and "user_ok k \<and> uid_dense s0 \<and> of_pos f < uid_size s0 \<Longrightarrow> 0 < c"
proof -
  have I: "fs_inv k h0 n s" "same_uid s0 s" "uid_file (ut_fd v) s = Some f" "length (ut_buffer v) = 4096"
    "shown_bytes (ut_out v) = map (uid_byte s0) [0 ..< nat (of_pos f)]" using inv by (simp_all add: ut_inv_def)
  obtain r bs s' c where r: "fs_read k (nat (ut_fd v)) False 4096 s = Inr (r, bs, s')" "fs_inv k h0 (n + 4096) s'" "same_uid s s'"
    "uid_file (ut_fd v) s' = Some (f\<lparr>of_pos := of_pos f + int c\<rparr>)"
    "r < 0 \<and> c = 0 \<or> r = int c \<and> bs = map (uid_byte s) [nat (of_pos f) ..< nat (of_pos f) + c]" "c \<le> 4096"
    "c = 0 \<or> of_pos f + int c \<le> uid_size s" "user_ok k \<and> uid_dense s \<and> 0 < (4096 :: nat) \<and> of_pos f < uid_size s \<Longrightarrow> 0 < c"
    by (rule fs_read_uid [OF k I(1) b I(3)]) blast
  have fd: "0 \<le> ut_fd v" "0 \<le> of_pos f" using I(3) fs_invD(6) [OF I(1), of "nat (ut_fd v)" f] by (auto simp: uid_file_def split: if_splits option.splits)
  let ?head = "Message (''Begin reading ...'' @ nl)" and ?buf = "if r < 0 then ut_buffer v else overwrite (ut_buffer v) 0 bs"
  let ?v = "v\<lparr>ut_buffer := ?buf, ut_out := ut_out v @ [?head, Bytes (if r < 0 then [] else bs)]\<rparr>"
  have len: "length ?buf = 4096" and tk: "\<not> r < 0 \<Longrightarrow> take (nat r) (overwrite (ut_buffer v) 0 bs) = bs"
    using r(5,6) I(4) by (auto simp: overwrite_def)
  have run: "ut_round k v s = Inr (?v, s')"
    using r(1) fd(1) tk by (simp add: ut_round_def ut_read_def ut_print_def)
  have "nat (of_pos f + int c) = nat (of_pos f) + c" using fd(2) by simp
  then have "shown_bytes (ut_out ?v) = map (uid_byte s0) [0 ..< nat (of_pos f + int c)]"
    using r(5) I(2,5) map_upt_append [of "uid_byte s0" "nat (of_pos f)" c] by (auto simp: same_uid_def)
  then have "ut_inv k h0 (n + 4096) s0 (f\<lparr>of_pos := of_pos f + int c\<rparr>) (?v, s')"
    using r(2-4) len same_uid_trans [OF I(2) r(3)] by (simp add: ut_inv_def)
  from that [OF run this] r(7,8) I(2) show thesis by (simp add: same_uid_def)
qed

lemma ut_loop_ok:
  assumes k: "kernel_ok k"
  shows "ut_inv k h0 m s0 f (v, s) \<Longrightarrow> m + 4096 * n < 2 ^ 31 \<Longrightarrow> \<exists>v' s' c. ut_loop k n v s = Inr (v', s') \<and>
    ut_inv k h0 (m + 4096 * n) s0 (f\<lparr>of_pos := of_pos f + int c\<rparr>) (v', s') \<and> ut_fd v' = ut_fd v \<and> (c = 0 \<or> of_pos f + int c \<le> uid_size s0) \<and>
    (user_ok k \<and> uid_dense s0 \<longrightarrow> min (of_pos f + int n) (uid_size s0) \<le> of_pos f + int c)"
proof (induction n arbitrary: m f v s)
  case 0
  then show ?case by (intro exI [of _ v] exI [of _ s] exI [of _ 0]) simp
next
  case (Suc n)
  have b: "m + 4096 < 2 ^ 31" "m + 4096 + 4096 * n < 2 ^ 31" "m + 4096 * Suc n = m + 4096 + 4096 * n" using Suc.prems(2) by simp_all
  obtain v1 s1 c where 1: "ut_round k v s = Inr (v1, s1)" "ut_inv k h0 (m + 4096) s0 (f\<lparr>of_pos := of_pos f + int c\<rparr>) (v1, s1)" "ut_fd v1 = ut_fd v"
    "c = 0 \<or> of_pos f + int c \<le> uid_size s0" "user_ok k \<and> uid_dense s0 \<and> of_pos f < uid_size s0 \<Longrightarrow> 0 < c"
    by (rule ut_round_ok [OF k Suc.prems(1) b(1)]) blast
  let ?p = "of_pos f + int c"
  obtain v2 s2 c' where 2: "ut_loop k n v1 s1 = Inr (v2, s2)"
    "ut_inv k h0 (m + 4096 * Suc n) s0 (f\<lparr>of_pos := ?p + int c'\<rparr>) (v2, s2)" "ut_fd v2 = ut_fd v1"
    "c' = 0 \<or> ?p + int c' \<le> uid_size s0" "user_ok k \<and> uid_dense s0 \<Longrightarrow> min (?p + int n) (uid_size s0) \<le> ?p + int c'"
    unfolding b(3) using Suc.IH [OF 1(2) b(2)] by auto
  have "min (of_pos f + int (Suc n)) (uid_size s0) \<le> ?p + int c'" if u: "user_ok k \<and> uid_dense s0"
    using 2(5) [OF u] 1(5) u by (cases "of_pos f < uid_size s0") auto
  then show ?case using 1 2 by (intro exI [of _ v2] exI [of _ s2] exI [of _ "c + c'"]) (auto simp: add.assoc)
qed

section \<open>Opening\<close>

definition stranger :: "cred \<Rightarrow> gate \<Rightarrow> bool" where
  \<comment> \<open>the device is held and not for this process\<close>
  "stranger c g \<longleftrightarrow> acc_count g > 0 \<and> \<not> may_share c (acc_owner g)"

lemma uid_busy: "stranger (op_cred q) (fy_uid s) \<Longrightarrow> fs_open k Scull_uid q fl s = Inr (Some (- EBUSY, s))"
  by (simp add: fs_open_def scull_u_fops_def open_uid_def scull_u_open_def stranger_def may_share_def)

lemma ut_loop_failed:
  assumes "ut_fd v < 0"
  shows "ut_loop k n v s = Inr (v\<lparr>ut_out := ut_out v @ concat (replicate n [Message (''Begin reading ...'' @ nl), Bytes []])\<rparr>, s)"
  using assms
proof (induction n arbitrary: v)
  case (Suc n)
  have "ut_round k v s = Inr (v\<lparr>ut_out := ut_out v @ [Message (''Begin reading ...'' @ nl), Bytes []]\<rparr>, s)"
    using Suc.prems by (simp add: ut_round_def ut_read_def ut_print_def)
  with Suc show ?case by simp
qed simp

lemma refused_run:
  assumes "stranger (op_cred q) (fy_uid s)"
  obtains v where "sculluidtst k q n s = Inr (Some (v, s))" and "ut_fd v = - 1"
    and "ut_out v = Message (''Am i running ?'' @ nl) # concat (replicate n [Message (''Begin reading ...'' @ nl), Bytes []])"
proof -
  let ?v = "\<lparr>ut_fd = - 1, ut_buffer = replicate 4096 0, ut_out = [Message (''Am i running ?'' @ nl)]\<rparr>"
  have "ut_start k q s = Inr (Some (?v, s))" using uid_busy [OF assms] by (simp add: ut_start_def ut_print_def)
  then show thesis using ut_loop_failed [of ?v k n s] that by (simp add: sculluidtst_def)
qed

lemma uid_admit:
  assumes inv: "fs_inv k h0 n s" and b: "length (fy_files s) < 2 ^ 31 - 1" and adm: "acc_count (fy_uid s) = 0 \<or> may_share (op_cred p) (acc_owner (fy_uid s))"
  obtains s1 where "fs_open k Scull_uid p O_RDWR s = Inr (Some (int (length (fy_files s)), s1))" and "fs_inv k h0 n s1"
    and "uid_file (int (length (fy_files s))) s1 = Some (new_file T_uid O_RDWR (op_cred p))"
    and "uid_byte s1 = uid_byte s" and "uid_size s1 = uid_size s" and "uid_dense s1 = uid_dense s"
    and "0 < acc_count (fy_uid s1)" and "acc_owner (fy_uid s1) = (if acc_count (fy_uid s) = 0 then c_uid (op_cred p) else acc_owner (fy_uid s))"
proof -
  let ?f = "new_file T_uid O_RDWR (op_cred p)" and ?g = "admitted (fy_uid s) (op_cred p) (acc_dev (fy_uid s))"
  let ?s = "s\<lparr>fy_uid := ?g, fy_files := fy_files s @ [Some ?f]\<rparr>"
  have "open_trim (fy_globals s) O_RDWR (acc_dev (fy_uid s)) (fy_heap s) = Inr (acc_dev (fy_uid s), fy_heap s)"
    by (simp add: open_trim_def O_RDWR_def O_ACCMODE_def O_WRONLY_def)
  from gate_enter_at [OF this] have e: "gate_enter (fy_globals s) (op_cred p) O_RDWR (fy_uid s) (fy_heap s) = Inr (0, ?g, fy_heap s)" .
  have i: "fs_inv k h0 n ?s" by (rule open_gates [OF inv b, of "op_cred p" O_RDWR]) (use e adm in auto)
  have o: "fs_open k Scull_uid p O_RDWR s = Inr (Some (int (length (fy_files s)), ?s))"
    using e adm by (auto simp: fs_open_def scull_u_fops_def open_uid_def scull_u_open_def may_share_def)
  have "users T_uid (fy_files ?s) = users T_uid (fy_files s) @ [?f]" by (simp add: users_def)
  then have "acc_count (fy_uid ?s) = int (Suc (length (users T_uid (fy_files s))))" using fs_invD(4) [OF i] by (simp add: gate_inv_def)
  then have c: "0 < acc_count (fy_uid ?s)" by linarith
  show thesis
    by (rule that [OF o i _ _ _ _ c])
      (simp_all add: uid_file_def lookup_file_def can_read_def O_RDWR_def O_ACCMODE_def uid_byte_def uid_size_def uid_dense_def admitted_def Let_def)
qed

section \<open>Properties\<close>

text \<open>
  C26. \<^verbatim>\<open>sculluidtst\<close> shows what \<open>scull_uid\<close> promises. After any sequence of calls on a loaded scull, a process that finds the device free or held by its own user
  opens it and loops: the bytes it has printed after \<open>n\<close> rounds are the contents of the device up to
  the position of its file, each once and in order, and all of the contents if the device has no hole, the copies succeed and there were as many
  rounds as bytes. Meanwhile every process of another user (without \<open>CAP_DAC_OVERRIDE\<close>) gets \<open>-EBUSY\<close>; its own \<^verbatim>\<open>sculluidtst\<close>, which does not look at the result of
  the open, goes on forever and prints its messages and nothing else.
\<close>

theorem sculluidtst_exclusive:
  assumes "kernel_ok k" and "devices_granted a" and "devices_granted ap" and "all_registered aa"
    and "scull_init k a ap aa scull_module_init = (0, st)" and "run_fs k ua cs (module_files st h u) = Inr (vs, s)"
    and "list_all fcall_ok cs" and "sum_list (map fcall_bytes cs) + 4096 * n < 2 ^ 31" and "length cs < 2 ^ 31 - 1"
    and "acc_count (fy_uid s) = 0 \<or> acc_owner (fy_uid s) = c_uid (op_cred p)"
  shows "\<exists>v s' f. sculluidtst k p n s = Inr (Some (v, s')) \<and> uid_file (ut_fd v) s' = Some f \<and>
    shown_bytes (ut_out v) = map (uid_byte s) [0 ..< nat (of_pos f)] \<and> of_pos f \<le> max 0 (uid_size s) \<and>
    (user_ok k \<and> uid_dense s \<and> uid_size s \<le> int n \<longrightarrow> shown_bytes (ut_out v) = map (uid_byte s) [0 ..< nat (uid_size s)]) \<and>
    (\<forall>q. \<not> may_share (op_cred q) (c_uid (op_cred p)) \<longrightarrow>
      (\<forall>fl. fs_open k Scull_uid q fl s' = Inr (Some (- EBUSY, s'))) \<and>
      (\<forall>n. \<exists>w. sculluidtst k q n s' = Inr (Some (w, s')) \<and>
        ut_out w = Message (''Am i running ?'' @ nl) # concat (replicate n [Message (''Begin reading ...'' @ nl), Bytes []])))"
proof -
  let ?m = "sum_list (map fcall_bytes cs)" and ?f = "new_file T_uid O_RDWR (op_cred p)"
  have "?m < 2 ^ 31" "length cs < 2 ^ 31" using assms(8,9) by simp_all
  note loaded = loaded_run [OF assms(1-7) this]
  obtain h0 where run: "fs_inv k h0 ?m s" using loaded(1) by (auto simp: files_inv_def)
  have "length (fy_files s) < 2 ^ 31 - 1" using loaded(2) assms(9) by simp
  moreover have "acc_count (fy_uid s) = 0 \<or> may_share (op_cred p) (acc_owner (fy_uid s))" using assms(10) by (auto simp: may_share_def)
  ultimately obtain s1 where s1: "fs_open k Scull_uid p O_RDWR s = Inr (Some (int (length (fy_files s)), s1))" "fs_inv k h0 ?m s1"
    "uid_file (int (length (fy_files s))) s1 = Some ?f" "uid_byte s1 = uid_byte s" "uid_size s1 = uid_size s" "uid_dense s1 = uid_dense s"
    "0 < acc_count (fy_uid s1)" "acc_owner (fy_uid s1) = c_uid (op_cred p)"
    using uid_admit [OF run, of p] assms(10) by metis
  let ?v = "\<lparr>ut_fd = int (length (fy_files s)), ut_buffer = replicate 4096 0, ut_out = [Message (''Am i running ?'' @ nl)]\<rparr>"
  have start: "ut_start k p s = Inr (Some (?v, s1))" using s1(1) by (simp add: ut_start_def ut_print_def)
  have "ut_inv k h0 ?m s1 ?f (?v, s1)" using s1(2,3) by (simp add: ut_inv_def same_uid_def)
  then obtain v s' c where l: "ut_loop k n ?v s1 = Inr (v, s')" "ut_inv k h0 (?m + 4096 * n) s1 (?f\<lparr>of_pos := int c\<rparr>) (v, s')"
    "c = 0 \<or> int c \<le> uid_size s1" "user_ok k \<and> uid_dense s1 \<Longrightarrow> min (int n) (uid_size s1) \<le> int c"
    using ut_loop_ok [OF assms(1) _ assms(8), of h0 s1 ?f ?v s1] by auto
  have held: "same_uid s1 s'" "uid_file (ut_fd v) s' = Some (?f\<lparr>of_pos := int c\<rparr>)" "shown_bytes (ut_out v) = map (uid_byte s) [0 ..< c]"
    using l(2) s1(4) by (simp_all add: ut_inv_def)
  have all: "c = nat (uid_size s)" if "user_ok k \<and> uid_dense s" "uid_size s \<le> int n"
    using l(3,4) that s1(5,6) by auto
  have other: "stranger (op_cred q) (fy_uid s')" if "\<not> may_share (op_cred q) (c_uid (op_cred p))" for q
    using that held(1) s1(7,8) by (simp add: stranger_def same_uid_def)
  have refused: "(\<forall>fl. fs_open k Scull_uid q fl s' = Inr (Some (- EBUSY, s'))) \<and> (\<forall>n. \<exists>w. sculluidtst k q n s' = Inr (Some (w, s')) \<and>
      ut_out w = Message (''Am i running ?'' @ nl) # concat (replicate n [Message (''Begin reading ...'' @ nl), Bytes []]))"
    if "\<not> may_share (op_cred q) (c_uid (op_cred p))" for q
    using uid_busy [OF other [OF that]] refused_run [OF other [OF that]] by metis
  have "sculluidtst k p n s = Inr (Some (v, s'))" using start l(1) by (simp add: sculluidtst_def)
  then show ?thesis using held(2,3) l(3) s1(5) all refused
    by (intro exI [of _ v] exI [of _ s'] exI [of _ "?f\<lparr>of_pos := int c\<rparr>"]) auto
qed

definition alice :: opener where
  "alice = \<lparr>op_cred = \<lparr>c_uid = 1, c_euid = 1, c_dac = False\<rparr>, op_tty = None\<rparr>"

definition bob :: opener where
  "bob = \<lparr>op_cred = \<lparr>c_uid = 2, c_euid = 2, c_dac = False\<rparr>, op_tty = None\<rparr>"

theorem sculluidtst_exclusive_witness:
  \<comment> \<open>the device is already open for the same user\<close>
  "\<exists>st vs s v s'. scull_init simple_kernel demo_answers demo_answers demo_access scull_module_init = (0, st) \<and>
    run_fs simple_kernel mapped_user [F_open Scull_uid alice 2] (module_files st empty_heap Map.empty) = Inr (vs, s) \<and>
    sculluidtst simple_kernel alice 3 s = Inr (Some (v, s')) \<and> fs_open simple_kernel Scull_uid bob 2 s' = Inr (Some (- EBUSY, s'))"
proof -
  let ?cs = "[F_open Scull_uid alice 2]"
  obtain st where st: "scull_init simple_kernel demo_answers demo_answers demo_access scull_module_init = (0, st)"
    by (rule scull_init_good [OF demo_answers_good(2,2,3)])
  let ?s = "module_files st empty_heap (Map.empty :: 64 word \<Rightarrow> int option)"
  obtain vs s where r: "run_fs simple_kernel mapped_user ?cs ?s = Inr (vs, s)" "acc_owner (fy_uid s) = c_uid (op_cred alice)"
    by (auto simp: fs_open_def scull_u_fops_def open_uid_def scull_u_open_def gate_enter_def open_trim_def O_ACCMODE_def O_WRONLY_def
        module_files_def alice_def Let_def)
  have "list_all fcall_ok ?cs" "sum_list (map fcall_bytes ?cs) + 4096 * 3 < 2 ^ 31" "length ?cs < 2 ^ 31 - 1" by simp_all
  with sculluidtst_exclusive [OF simple_kernel_ok demo_answers_good(2,2,3) st r(1)] r(2)
  obtain v s' where "sculluidtst simple_kernel alice 3 s = Inr (Some (v, s'))"
    "\<forall>q. \<not> may_share (op_cred q) (c_uid (op_cred alice)) \<longrightarrow> (\<forall>fl. fs_open simple_kernel Scull_uid q fl s' = Inr (Some (- EBUSY, s')))"
    by blast
  moreover have "\<not> may_share (op_cred bob) (c_uid (op_cred alice))" by (simp add: may_share_def alice_def bob_def)
  ultimately show ?thesis using st r(1) by blast
qed

end
