(* ===== verification/Spec2Isabelle.thy ===== *)
theory Spec2Isabelle
  imports Scull_Correct Scull_Ioctl Scull_Pipe Scull_Pipe_Sys Globalmem Scull_Access Scull_Modules Scull_File Scull_System Scull_Race Scull_Proc
    Proc_Files Chrdev Completion Jit Scull_Conc Pipe_Calls Pipe_Files Nbtest Asyntest Scull_Files Sculluidtst Small_Progs
begin

text \<open>
  Verification of the mydrivers kernel modules: the scull family (\<^verbatim>\<open>common_scull/\<close>,
  \<^verbatim>\<open>scull/\<close>, \<^verbatim>\<open>scullc/\<close>, \<^verbatim>\<open>scullp/\<close>), \<^verbatim>\<open>globalmem/\<close>,
  \<^verbatim>\<open>completion/\<close>, \<^verbatim>\<open>hello/\<close> and \<^verbatim>\<open>misc_modules/\<close>; and of the programs in \<^verbatim>\<open>misc_progs/\<close> that
  test them.

  \<^bold>\<open>The program.\<close> A scull device is a byte array that grows on demand: a list of quantum sets, each an
  array of pointers to data blocks. \<^verbatim>\<open>base_scull.c\<close> holds the operations on it; three modules use
  them with three allocators (\<open>kmalloc\<close>, a slab cache, whole pages), and its two parameters are changed by
  \<open>scull_ioctl\<close>. The scull module adds pipes (\<^verbatim>\<open>pipe.c\<close>), devices with access control
  (\<^verbatim>\<open>access.c\<close>) and two descriptions under \<^verbatim>\<open>/proc\<close> (\<^verbatim>\<open>proc.c\<close>). globalmem is one
  fixed array. sleepy and completion block their readers until someone writes. jit and jiq print times and let timers,
  tasklets and work items append lines to a buffer. Of the programs, nbtest copies a pipe without waiting, asyntest reads one when a signal
  says so, sculluidtst holds \<open>scull_uid\<close>, and two set a number the kernel keeps.

  \<^bold>\<open>How it is modelled.\<close> The kernel is not part of the repository. Its services are parameters: the
  record \<open>kernel\<close> (allocation, user copies), \<open>uaccess\<close> (single words of user memory), \<open>answers\<close> (registration),
  \<open>procfs\<close> (files under \<^verbatim>\<open>/proc\<close>), \<open>completion_ops\<close>, and
  the clocks and contexts of \<open>Jit\<close>; what the drivers rely on is stated in \<open>kernel_ok\<close>, \<open>uaccess_ok\<close>, \<open>procfs_ok\<close> and \<open>completion_ok\<close>,
  which \<open>simple_kernel\<close>, \<open>mapped_user\<close>, \<open>map_procfs\<close> and \<open>counter_completion\<close> meet. Memory the drivers own is a heap of blocks that are
  allocated or not: the data of the devices, the buffers, and the items of the list of \<open>scull_copy\<close>, whose size (\<open>listitem_size\<close>) is the kernel's to say and whose
  fields are kept in the list. A null dereference, an access outside a block, a second free, a free to the wrong allocator
  and a division by zero are values of the type \<open>fault\<close>: an operation returns \<open>Inl\<close> of a fault or \<open>Inr\<close> of its
  result, and error numbers of the C code are results. C integers are integers with the wrap-around written out
  (\<open>s32\<close>, \<open>s64\<close>, \<open>u64\<close>), or words in globalmem, the ioctl and the timing modules.

  \<^descr> \<open>Prelude\<close>: the result type, C arithmetic, byte blocks, list and map lemmas.
  \<^descr> \<open>Kernel\<close>: the heap and the kernel's services.
  \<^descr> \<open>Scull_Base\<close>: \<^verbatim>\<open>base_scull.c\<close> without the ioctl, function by function.
  \<^descr> \<open>Scull_Halves\<close>: \<open>scull_read\<close> and \<open>scull_write\<close> cut in two where they have found their block.
  \<^descr> \<open>Scull_Chain\<close>, \<open>Scull_Device\<close>, \<open>Scull_IO\<close>: the representation invariant \<open>dev_inv\<close>, the contents
    \<open>byte_at\<close> of a device, what \<open>scull_trim\<close> and \<open>scull_follow\<close> do to it, the stages of a read and of a write.
  \<^descr> \<open>Scull_Correct\<close>: reading, writing, trimming and following are correct; histories of accesses
    leak nothing and leave other devices alone.
  \<^descr> \<open>Scull_Conc\<close>: any number of reads and writes of a device at once, each with the parameters it has read before it waits for
    the semaphore.
  \<^descr> \<open>Scull_Ioctl\<close>: \<open>scull_ioctl\<close> and the specification \<open>ioc_spec\<close> it implements.
  \<^descr> \<open>Scull_Pipe\<close>: the operations of \<^verbatim>\<open>pipe.c\<close> for callers that do not wait; the locale \<open>byte_queue\<close>, a bounded
    first-in first-out queue, interpreted on the two transfers.
  \<^descr> \<open>Scull_Pipe_Sys\<close>: blocking calls, any number of them, as a step relation; order of bytes, mutual
    exclusion, absence of lost wake-ups.
  \<^descr> \<open>Pipe_Calls\<close>: a call on a pipe whose caller is alone: the steps of \<open>Scull_Pipe_Sys\<close> give what \<open>Scull_Pipe\<close> has in one.
  \<^descr> \<open>Pipe_Files\<close>: the pipes of scull through open files, with the table of \<^verbatim>\<open>pipe.c\<close>; sequences of calls, polls included, from loading to unloading.
  \<^descr> \<open>Byte_Store\<close>: the locales \<open>byte_store\<close>, transfers that may be short on an array of bytes, and \<open>byte_file\<close>, one that
    grows at its end; programs that write or read in a loop until all is done.
  \<^descr> \<open>Globalmem\<close>: \<^verbatim>\<open>globalmem.c\<close> on words; \<open>byte_store\<close> interpreted on its transfers.
  \<^descr> \<open>Scull_Access\<close>: \<^verbatim>\<open>access.c\<close>; the locale \<open>access_policy\<close>, one user at a time, interpreted on
    \<open>scull_uid\<close> and \<open>scull_wuid\<close>; the private devices of \<open>scull_copy\<close>.
  \<^descr> \<open>Scull_Modules\<close>: loading and unloading of the three scull modules with every failure path.
  \<^descr> \<open>Scull_File\<close>: a scull device as a file: \<open>byte_store\<close> and \<open>byte_file\<close> interpreted on \<open>scull_write\<close> and \<open>scull_read\<close>, from
    the open that empties the device to the read that finds its end.
  \<^descr> \<open>Scull_System\<close>: the tables of file operations of the three scull modules and system calls through them; sequences of calls
    from loading to unloading.
  \<^descr> \<open>Scull_Files\<close>: all memory devices of scull through open files, with the tables of \<^verbatim>\<open>main.c\<close> and
    \<^verbatim>\<open>access.c\<close>; sequences of calls of any processes from loading to unloading.
  \<^descr> \<open>Scull_Race\<close>: an open in the middle of a read or a write.
  \<^descr> \<open>Printf\<close>: number conversions and \<open>sprintf\<close> into a block, and when a text fits.
  \<^descr> \<open>Scull_Proc\<close>: \<^verbatim>\<open>proc.c\<close>: what the two files show, and when the buffer of the first overflows.
  \<^descr> \<open>Chrdev\<close>: loading of globalmem, completion and sleepy; readers and writers of sleepy as a step relation.
  \<^descr> \<open>Completion\<close>: readers and writers of completion as a step relation over the kernel's completion.
  \<^descr> \<open>Jit\<close>: \<^verbatim>\<open>jit.c\<close> and \<^verbatim>\<open>jiq.c\<close>; the locale \<open>repeater\<close>, a function that prints a line and queues itself again
    until a count is used up, interpreted on the timer, the tasklet and the two work items.
  \<^descr> \<open>Proc_Files\<close>: the files of scull, jit and jiq under \<^verbatim>\<open>/proc\<close>, from loading over the table \<open>jd\<close> to the function that
    answers a read; the locale \<open>proc_user\<close>, a module with a list of files, interpreted on the three modules.
  \<^descr> \<open>Nbtest\<close>, \<open>Asyntest\<close>, \<open>Sculluidtst\<close>: these programs on the models of the devices they test. The locale \<open>nb_channel\<close> is what one
    nbtest expects from the other side, interpreted on the calls of a pipe; asyntest runs against writers that interrupt it.
  \<^descr> \<open>Small_Progs\<close>: \<^verbatim>\<open>setlevel.c\<close>, \<^verbatim>\<open>setconsole.c\<close>, the two \<^verbatim>\<open>hello.c\<close>.
  \<^descr> This theory: what a change of the quantum does, across the ioctl, the open and the write.

  \<^bold>\<open>Loops and bounds.\<close> The drivers' loops need no fuel: those over the device list terminate because each round of
  \<open>scull_trim\<close> frees a node of a finite heap and \<open>scull_follow\<close> counts down; the busy loops of \<open>jit_delay\<close> may
  not end and are partial functions, with a proof that they end when the clock moves on; so is the loop of nbtest. A call on a pipe is run for 5 steps,
  after which it has returned or sleeps (\<open>read_call_ok\<close>, \<open>write_call_ok\<close>); the endless loops of asyntest and sculluidtst are run for any number of rounds. Reads and writes
  are proved for \<open>quantum * qset < 2 ^ 31\<close> and positions whose item number fits into an \<open>int\<close>
  (\<open>params_ok\<close>, \<open>in_range\<close>): beyond these the C code overflows.

  \<^bold>\<open>Concurrency.\<close> The pipe, sleepy, completion and the reads and writes of a scull device are modelled with interleaving: reads and
  writes exclude each other, but for the lines before the semaphore (\<open>Scull_Conc\<close>). The two statements of \<open>sleepy_write\<close> are two steps. Polls of a pipe come between the
  steps of its readers and writers in \<open>poll_step\<close>. \<open>scull_open\<close> trims
  without the semaphore; \<open>Scull_Race\<close> puts it between the two halves of a read or a write. Elsewhere a call on a device is one step, or one up to where it
  waits for the semaphore in \<open>Pipe_Files\<close>; so the second caller that an interrupted poll lets into a pipe is in \<open>Scull_Pipe_Sys\<close> only. Code under a spinlock is one step.

  \<^bold>\<open>Not modelled.\<close> The messages of \<open>printk\<close>, but for those of \<^verbatim>\<open>hello\<close>; how long \<open>sleep\<close> takes; the shell scripts and Makefiles.
\<close>

section \<open>Resizing a device\<close>

lemma tell_quantum:
  assumes "access_ok a u arg 0"
  shows "scull_ioctl a True SCULL_IOCTQUANTUM arg g u = (0, g\<lparr>scull_quantum := int_of_arg arg\<rparr>, u)"
  using assms by (simp add: scull_ioctl_def ioc_numbers IOC_TYPE_def IOC_NR_def IOC_SIZE_def SCULL_IOC_MAGIC_def SCULL_IOC_MAXNR_def)

lemma short_alloc:
  assumes "\<not> alloc_fits k g d" and "cache_ready g d" and "params_ok d"
  obtains n where "scull_alloc k g d h = Inr (new_blk k (dev_allocator d) n (blk_source k d h) h)" and "n < nat (quantum d)"
  using assms
  by (auto simp: scull_alloc_def alloc_fits_def cache_ready_def blk_source_def dev_allocator_def zless_nat_eq_int_zless
      split: scull_type.splits option.splits intro!: that)

lemma short_write_faults:
  assumes "kernel_ok k" and "plenty k" and "params_ok d" and "\<not> alloc_fits k g d" and "cache_ready g d" and "data d = NULL"
  shows "scull_write k g False d d h ubuf count 0 = Inl Bad_access"
proof (rule small_block_write [OF assms(1-3,6)])
  show "\<exists>n<nat (quantum d). scull_alloc k g d h = Inr (new_blk k (dev_allocator d) n (blk_source k d h) h)" for h
    using short_alloc [OF assms(4,5,3)] by metis
qed (use assms(3) in \<open>simp_all add: params_ok_def\<close>)

text \<open>
  C9. A new quantum (\<open>SCULL_IOCTQUANTUM\<close>, which accepts any value) takes effect when the device is
  next opened for writing, which empties it: the open succeeds and frees all the device owned. The first
  write then has one of the outcomes \<open>write_outcome\<close> allows if the quantum is positive, its product with the number of
  slots is below \<open>2 ^ 31\<close> and a block of the device's allocator has room for a quantum. With the slab cache,
  whose object size is fixed when the module is loaded, and with whole pages a larger
  quantum would make the first write clear memory beyond the new block, so scullc and scullp depend on having
  no ioctl; and a quantum of 0 makes it divide by zero.
\<close>

theorem new_quantum_takes_effect:
  assumes "kernel_ok k" and "plenty k" and "dev_inv h d gs" and "cache_ready g d" and "access_ok a u arg 0"
    and "fl AND O_ACCMODE = O_WRONLY" and "int count < 2 ^ 63"
  shows "\<exists>g' d' h'. scull_ioctl a True SCULL_IOCTQUANTUM arg g u = (0, g', u) \<and>
    scull_open g' fl d h = Inr (0, d', h') \<and> h' = without h gs \<and> quantum d' = int_of_arg arg \<and> qset d' = scull_qset_n g \<and>
    (int_of_arg arg = 0 \<longrightarrow> scull_write k g' False d' d' h' ubuf count 0 = Inl Div_by_zero) \<and>
    (params_ok d' \<longrightarrow>
      (if (case dtype d of scull_type_basic \<Rightarrow> True
           | scull_type_c \<Rightarrow> int_of_arg arg \<le> int (the (scull_cache g))
           | scull_type_p \<Rightarrow> int_of_arg arg \<le> int (page_size k * 2 ^ order d))
       then \<exists>r gs'. scull_write k g' False d' d' h' ubuf count 0 = Inr r \<and>
              write_outcome k d' [] h' ubuf (chunk d' 0 count) 0 r gs'
       else scull_write k g' False d' d' h' ubuf count 0 = Inl Bad_access))"
proof -
  let ?g = "g\<lparr>scull_quantum := int_of_arg arg\<rparr>" and ?h = "without h gs"
  let ?d = "d\<lparr>dsize := 0, data := NULL, qset := scull_qset_n ?g, quantum := scull_quantum ?g\<rparr>"
  have cache: "cache_ready ?g d" "cache_ready ?g ?d" using assms(4) by (simp_all add: cache_ready_def)
  have op: "scull_open ?g fl d h = Inr (0, ?d, ?h)" by (rule scull_open_write [OF assms(3) cache(1) assms(6)])
  have fits: "alloc_fits k ?g ?d \<longleftrightarrow> (case dtype d of scull_type_basic \<Rightarrow> True
      | scull_type_c \<Rightarrow> int_of_arg arg \<le> int (the (scull_cache g))
      | scull_type_p \<Rightarrow> int_of_arg arg \<le> int (page_size k * 2 ^ order d))"
    using assms(4) by (auto simp: alloc_fits_def cache_ready_def split: scull_type.splits option.splits)
  have w: "\<exists>r gs'. scull_write k ?g False ?d ?d ?h ubuf count 0 = Inr r \<and> write_outcome k ?d [] ?h ubuf (chunk ?d 0 count) 0 r gs'"
    if "params_ok ?d" "alloc_fits k ?g ?d"
  proof -
    have inv: "dev_inv ?h ?d []" using that(1) by (simp add: dev_inv_def arr_addrs_def blk_addrs_def)
    have "in_range ?d 0 count" using that(1) assms(7) by (auto simp: in_range_def params_ok_def)
    from scull_write_cases [OF assms(1) inv that(2) this] show ?thesis by (metis nat_0)
  qed
  have z: "int_of_arg arg = 0 \<longrightarrow> scull_write k ?g False ?d ?d ?h ubuf count 0 = Inl Div_by_zero"
    by (auto simp: scull_write_def)
  show ?thesis
    using tell_quantum [OF assms(5), of g] op z w short_write_faults [OF assms(1,2) _ _ cache(2)] fits
    by (intro exI [of _ ?g] exI [of _ ?d] exI [of _ ?h]) auto
qed

definition demo_scullc :: scull_dev where
  "demo_scullc = \<lparr>data = NULL, quantum = 1024, qset = 1000, sem = 1, dsize = 0, order = 0, dtype = scull_type_c\<rparr>"

theorem new_quantum_takes_effect_witness:
  "\<exists>g' d' h'. scull_ioctl mapped_user True SCULL_IOCTQUANTUM 2048 (scull_globals_init\<lparr>scull_cache := Some 1024\<rparr>) Map.empty =
      (0, g', Map.empty) \<and> scull_open g' 1 demo_scullc empty_heap = Inr (0, d', h') \<and>
    scull_write simple_kernel g' False d' d' h' [1] 1 0 = Inl Bad_access"
proof -
  have inv: "dev_inv empty_heap demo_scullc []"
    by (simp add: dev_inv_def demo_scullc_def params_ok_def arr_addrs_def blk_addrs_def)
  have rest: "plenty simple_kernel" "cache_ready (scull_globals_init\<lparr>scull_cache := Some 1024\<rparr>) demo_scullc"
    "access_ok mapped_user Map.empty 2048 0" "1 AND O_ACCMODE = O_WRONLY" "int 1 < 2 ^ 63" "int_of_arg 2048 = 2048"
    by (simp_all add: plenty_def simple_kernel_def next_addr_def cache_ready_def mapped_user_def O_ACCMODE_def O_WRONLY_def
        int_of_arg_def s32_def)
  show ?thesis
    using new_quantum_takes_effect [OF simple_kernel_ok rest(1) inv rest(2-5), of "[1]"]
    by (auto simp: rest(6) params_ok_def scull_globals_init_def QSET_SIZE_def demo_scullc_def)
qed

end
